(* ===== verification/Prelude.thy ===== *)
theory Prelude
  imports Main "HOL-Library.Sublist" "HOL-Library.List_Lexorder" "HOL-Library.Char_ord"
begin

section \<open>Prelude: the fragment of Go and its standard library that the program uses\<close>

text \<open>
  Shared vocabulary of the development.
  \<^item> 64-bit signed arithmetic: Go's \<open>int\<close>, \<open>int64\<close> and \<open>time.Duration\<close> are modelled by
    \<open>int\<close> with the wrap-around written out by \<open>wrap64\<close>.
  \<^item> Package \<open>strings\<close>: \<open>TrimSpace\<close>, \<open>ToLower\<close>, \<open>Fields\<close>, \<open>Split\<close>, \<open>Index\<close> (for a
    one-byte separator), \<open>HasPrefix\<close>, \<open>HasSuffix\<close>, \<open>TrimPrefix\<close>.  A Go string is a byte
    sequence, here a \<open>char list\<close>; the Unicode cases of \<open>TrimSpace\<close>, \<open>Fields\<close> and \<open>ToLower\<close>
    (bytes from 0x80 up) are left unchanged by the model.
  \<^item> Package \<open>strconv\<close>: \<open>ParseInt(s, 10, 64)\<close> (which is \<open>Atoi\<close> on a 64-bit platform) and
    \<open>FormatInt(i, 10)\<close>, with the round trip between them.
  The collections \<open>int64_simps\<close> and \<open>go_string\<close> carry the facts the component proofs use.
\<close>

named_theorems int64_simps
named_theorems go_string

subsection \<open>64-bit signed integers\<close>

definition max_int64 :: int where
  "max_int64 = 9223372036854775807"

definition min_int64 :: int where
  "min_int64 = - 9223372036854775808"

definition is_int64 :: "int \<Rightarrow> bool" where
  "is_int64 i \<longleftrightarrow> min_int64 \<le> i \<and> i \<le> max_int64"

definition wrap64 :: "int \<Rightarrow> int" where
  "wrap64 i = (i + 9223372036854775808) mod 18446744073709551616 - 9223372036854775808"

lemmas int64_defs = max_int64_def min_int64_def is_int64_def wrap64_def

lemma wrap64_id [int64_simps]: "is_int64 i \<Longrightarrow> wrap64 i = i"
  by (simp add: int64_defs)

lemma is_int64_wrap64 [simp, int64_simps]: "is_int64 (wrap64 i)"
proof -
  have "0 \<le> (i + 9223372036854775808) mod 18446744073709551616"
    and "(i + 9223372036854775808) mod 18446744073709551616 < 18446744073709551616"
    by simp_all
  then show ?thesis by (simp add: int64_defs)
qed

lemma wrap64_over [int64_simps]:
  "max_int64 < i \<Longrightarrow> i \<le> max_int64 + 9223372036854775808 \<Longrightarrow> wrap64 i = i - 18446744073709551616"
proof -
  assume a: "max_int64 < i" "i \<le> max_int64 + 9223372036854775808"
  have "(i + 9223372036854775808) mod 18446744073709551616
      = (i + 9223372036854775808 - 18446744073709551616) mod 18446744073709551616"
    by (rule minus_mod_self2 [symmetric])
  also have "\<dots> = i + 9223372036854775808 - 18446744073709551616"
    using a by (intro mod_pos_pos_trivial) (simp_all add: int64_defs)
  finally show ?thesis by (simp add: wrap64_def)
qed

subsection \<open>Counting with quotient and remainder\<close>

lemma succ_div_mod:
  assumes "0 < (n::int)"
  shows "(q + 1) div n = (if q mod n = n - 1 then q div n + 1 else q div n)"
    and "(q + 1) mod n = (if q mod n = n - 1 then 0 else q mod n + 1)"
proof -
  have m: "0 \<le> q mod n" "q mod n < n" using assms by simp_all
  have e: "q + 1 = n * (q div n) + (q mod n + 1)" by simp
  show "(q + 1) div n = (if q mod n = n - 1 then q div n + 1 else q div n)"
  proof (cases "q mod n = n - 1")
    case True
    then have "q + 1 = n * (q div n + 1) + 0" using e by (simp add: algebra_simps)
    with True show ?thesis using int_div_pos_eq [of "q + 1" n "q div n + 1" 0] assms by simp
  next
    case False
    with m have "q mod n + 1 < n" by linarith
    with False show ?thesis using int_div_pos_eq [OF e] m by simp
  qed
  show "(q + 1) mod n = (if q mod n = n - 1 then 0 else q mod n + 1)"
  proof (cases "q mod n = n - 1")
    case True
    then have "q + 1 = n * (q div n + 1) + 0" using e by (simp add: algebra_simps)
    with True show ?thesis using int_mod_pos_eq [of "q + 1" n "q div n + 1" 0] assms by simp
  next
    case False
    with m have "q mod n + 1 < n" by linarith
    with False show ?thesis using int_mod_pos_eq [OF e] m by simp
  qed
qed

subsection \<open>Package strings\<close>

definition is_space :: "char \<Rightarrow> bool" where
  "is_space c \<longleftrightarrow> (let n = of_char c :: int in n = 32 \<or> 9 \<le> n \<and> n \<le> 13)"

definition TrimSpace :: "string \<Rightarrow> string" where
  "TrimSpace s = rev (dropWhile is_space (rev (dropWhile is_space s)))"

definition lower_char :: "char \<Rightarrow> char" where
  "lower_char c = (let n = of_char c :: int in if 65 \<le> n \<and> n \<le> 90 then char_of (n + 32) else c)"

definition ToLower :: "string \<Rightarrow> string" where
  "ToLower s = map lower_char s"

function Fields :: "string \<Rightarrow> string list" where
  "Fields s = (case dropWhile is_space s of
      [] \<Rightarrow> []
    | c # cs \<Rightarrow> takeWhile (\<lambda>x. \<not> is_space x) (c # cs) # Fields (dropWhile (\<lambda>x. \<not> is_space x) cs))"
  by pat_completeness auto
termination
proof (relation "measure length")
  fix s c cs
  assume "dropWhile is_space s = c # cs"
  then have "Suc (length cs) \<le> length s"
    by (metis length_Cons length_dropWhile_le)
  then show "(dropWhile (\<lambda>x. \<not> is_space x) cs, s) \<in> measure length"
    using length_dropWhile_le [of "\<lambda>x. \<not> is_space x" cs] by simp
qed simp

declare Fields.simps [simp del]

fun Split :: "char \<Rightarrow> string \<Rightarrow> string list" where
  "Split d [] = [[]]"
| "Split d (c # cs) = (if c = d then [] # Split d cs
     else (case Split d cs of [] \<Rightarrow> [[c]] | x # xs \<Rightarrow> (c # x) # xs))"

fun Index :: "string \<Rightarrow> char \<Rightarrow> nat option" where
  "Index [] d = None"
| "Index (c # cs) d = (if c = d then Some 0 else map_option Suc (Index cs d))"

definition HasPrefix :: "string \<Rightarrow> string \<Rightarrow> bool" where
  "HasPrefix s p \<longleftrightarrow> take (length p) s = p"

definition HasSuffix :: "string \<Rightarrow> string \<Rightarrow> bool" where
  "HasSuffix s p \<longleftrightarrow> HasPrefix (rev s) (rev p)"

definition TrimPrefix :: "string \<Rightarrow> string \<Rightarrow> string" where
  "TrimPrefix s p = (if HasPrefix s p then drop (length p) s else s)"

lemma Index_append [go_string]: "d \<notin> set xs \<Longrightarrow> Index (xs @ d # ys) d = Some (length xs)"
  by (induction xs) auto

lemma Index_None [go_string]: "Index xs d = None \<longleftrightarrow> d \<notin> set xs"
  by (induction xs) auto

lemma Index_absent [go_string]: "d \<notin> set xs \<Longrightarrow> Index xs d = None"
  by (simp add: Index_None)

lemma Index_Some_split:
  "Index xs d = Some i \<Longrightarrow> xs = take i xs @ d # drop (Suc i) xs \<and> d \<notin> set (take i xs)"
proof (induction xs arbitrary: i)
  case Nil
  then show ?case by simp
next
  case (Cons c cs)
  then show ?case by (cases i) (auto split: if_splits)
qed

lemma Split_ne [simp]: "Split d s \<noteq> []"
  by (induction s) (auto split: list.splits)

lemma Split_absent [go_string]: "d \<notin> set xs \<Longrightarrow> Split d xs = [xs]"
  by (induction xs) auto

lemma Split_append [go_string]: "d \<notin> set xs \<Longrightarrow> Split d (xs @ d # ys) = xs # Split d ys"
  by (induction xs) (auto split: list.splits)

lemma HasPrefix_append [simp, go_string]: "HasPrefix (p @ s) p"
  by (simp add: HasPrefix_def)

lemma HasPrefix_iff: "HasPrefix s p \<longleftrightarrow> prefix p s"
  by (metis HasPrefix_def append_eq_conv_conj prefix_def take_is_prefix)

lemma TrimPrefix_append [simp, go_string]: "TrimPrefix (p @ s) p = s"
  by (simp add: TrimPrefix_def)

fun join :: "char \<Rightarrow> string list \<Rightarrow> string" where
  "join d [] = []"
| "join d [x] = x"
| "join d (x # y # zs) = x @ d # join d (y # zs)"

lemma Split_join [go_string]:
  "xs \<noteq> [] \<Longrightarrow> (\<And>x. x \<in> set xs \<Longrightarrow> d \<notin> set x) \<Longrightarrow> Split d (join d xs) = xs"
  by (induction d xs rule: join.induct) (auto simp: go_string)

lemma set_join: "c \<in> set (join d xs) \<Longrightarrow> c = d \<or> (\<exists>x \<in> set xs. c \<in> set x)"
  by (induction d xs rule: join.induct) auto

lemma join_ne: "xs \<noteq> [] \<Longrightarrow> last xs \<noteq> [] \<Longrightarrow> join d xs \<noteq> []"
  by (induction d xs rule: join.induct) auto

lemma hd_join: "x \<noteq> [] \<Longrightarrow> hd (join d (x # xs)) = hd x"
  by (cases xs) auto

lemma last_join: "xs \<noteq> [] \<Longrightarrow> last xs \<noteq> [] \<Longrightarrow> last (join d xs) = last (last xs)"
proof (induction d xs rule: join.induct)
  case (3 d x y zs)
  then have "last (y # zs) \<noteq> []" by simp
  then have "join d (y # zs) \<noteq> []" by (intro join_ne) simp_all
  with 3 show ?case by simp
qed simp_all

lemma Fields_word:
  assumes "x \<noteq> []" "\<And>c. c \<in> set x \<Longrightarrow> \<not> is_space c" "is_space d"
  shows "Fields (x @ d # ys) = x # Fields ys" and "Fields x = [x]"
proof -
  obtain c cs where x: "x = c # cs" using assms(1) by (cases x) auto
  have ns: "\<not> is_space c" "\<forall>c \<in> set cs. \<not> is_space c" using assms(2) by (auto simp: x)
  have F: "Fields (d # ys) = Fields ys"
    using assms(3) by (subst (1 2) Fields.simps) simp
  show "Fields (x @ d # ys) = x # Fields ys"
    using ns assms(3) F by (subst Fields.simps) (simp add: x takeWhile_append dropWhile_append2)
  have N: "Fields [] = []" by (subst Fields.simps) simp
  have dw: "dropWhile (\<lambda>x. \<not> is_space x) cs = []" using ns(2) by simp
  have tw: "takeWhile (\<lambda>x. \<not> is_space x) cs = cs" using ns(2) by (simp add: takeWhile_eq_all_conv)
  show "Fields x = [x]"
    unfolding x by (subst Fields.simps) (simp only: dropWhile.simps ns if_False list.case dw N tw
        takeWhile.simps if_True not_False_eq_True)
qed

lemma Fields_join [go_string]:
  assumes "is_space d" "\<And>x. x \<in> set xs \<Longrightarrow> x \<noteq> [] \<and> (\<forall>c \<in> set x. \<not> is_space c)"
  shows "Fields (join d xs) = xs"
  using assms
proof (induction d xs rule: join.induct)
  case (1 d)
  then show ?case by (subst Fields.simps) simp
next
  case (2 d x)
  then show ?case by (simp add: Fields_word)
next
  case (3 d x y zs)
  have "Fields (join d (y # zs)) = y # zs" by (rule "3.IH") (use 3 in auto)
  moreover have "Fields (x @ d # join d (y # zs)) = x # Fields (join d (y # zs))"
    by (rule Fields_word(1)) (use 3 in auto)
  ultimately show ?case by simp
qed

lemma TrimSpace_id:
  "s \<noteq> [] \<Longrightarrow> \<not> is_space (hd s) \<Longrightarrow> \<not> is_space (last s) \<Longrightarrow> TrimSpace s = s"
proof -
  assume s: "s \<noteq> []" "\<not> is_space (hd s)" "\<not> is_space (last s)"
  then have "dropWhile is_space s = s" by (cases s) auto
  moreover have "dropWhile is_space (rev s) = rev s"
    using s by (cases "rev s") (auto simp: last_rev)
  ultimately show ?thesis by (simp add: TrimSpace_def)
qed

lemma ToLower_id: "(\<And>c. c \<in> set s \<Longrightarrow> lower_char c = c) \<Longrightarrow> ToLower s = s"
  by (simp add: ToLower_def map_idI)

subsection \<open>Package strconv\<close>

definition is_digit :: "char \<Rightarrow> bool" where
  "is_digit c \<longleftrightarrow> (let n = of_char c :: int in 48 \<le> n \<and> n \<le> 57)"

definition digit_val :: "char \<Rightarrow> int" where
  "digit_val c = of_char c - 48"

definition digit_char :: "int \<Rightarrow> char" where
  "digit_char d = char_of (48 + d mod 10)"

fun parse_digits :: "int \<Rightarrow> string \<Rightarrow> int option" where
  "parse_digits acc [] = Some acc"
| "parse_digits acc (c # cs) =
     (if is_digit c then parse_digits (10 * acc + digit_val c) cs else None)"

definition parse_nat :: "string \<Rightarrow> int option" where
  "parse_nat s = (if s = [] then None else parse_digits 0 s)"

text \<open>\<open>strconv.ParseInt(s, 10, 64)\<close> and \<open>strconv.Atoi(s)\<close>: an optional sign, at least one digit,
  a value of 64 bits; every other input is an error.\<close>

definition ParseInt :: "string \<Rightarrow> int option" where
  "ParseInt s =
     (case s of
        [] \<Rightarrow> None
      | c # cs \<Rightarrow>
          (case (if c = CHR ''-'' then map_option uminus (parse_nat cs)
                 else if c = CHR ''+'' then parse_nat cs
                 else parse_nat s) of
             None \<Rightarrow> None
           | Some i \<Rightarrow> if is_int64 i then Some i else None))"

function format_nat :: "int \<Rightarrow> string" where
  "format_nat n = (if n < 10 then [digit_char n] else format_nat (n div 10) @ [digit_char n])"
  by pat_completeness auto
termination
  by (relation "measure nat") auto

declare format_nat.simps [simp del]

definition FormatInt :: "int \<Rightarrow> string" where
  "FormatInt i = (if i < 0 then CHR ''-'' # format_nat (- i) else format_nat i)"

lemma of_char_digit_char [simp]: "(of_char (digit_char d) :: int) = 48 + d mod 10"
proof -
  have "0 \<le> d mod 10" "d mod 10 < 10" by simp_all
  then have "(48 + d mod 10) mod 256 = 48 + d mod 10" by (intro mod_pos_pos_trivial) linarith+
  then show ?thesis by (simp add: digit_char_def)
qed

lemma is_digit_digit_char [simp, go_string]: "is_digit (digit_char d)"
proof -
  have "d mod 10 < 10" "0 \<le> d mod 10" by simp_all
  then have "d mod 10 \<le> 9" by linarith
  then show ?thesis by (simp add: is_digit_def)
qed

lemma digit_val_digit_char [simp, go_string]: "digit_val (digit_char d) = d mod 10"
  by (simp add: digit_val_def)

lemma parse_digits_append:
  "parse_digits a (xs @ ys) = Option.bind (parse_digits a xs) (\<lambda>b. parse_digits b ys)"
  by (induction xs arbitrary: a) auto

lemma format_nat_ne [simp]: "format_nat n \<noteq> []"
  by (subst format_nat.simps) simp

lemma format_nat_digits: "c \<in> set (format_nat n) \<Longrightarrow> is_digit c"
proof (induction n rule: format_nat.induct)
  case (1 n)
  show ?case
  proof (cases "n < 10")
    case True
    with 1 show ?thesis by (simp add: format_nat.simps [of n])
  next
    case False
    with 1 show ?thesis by (auto simp: format_nat.simps [of n])
  qed
qed

lemma parse_digits_format_nat: "0 \<le> n \<Longrightarrow> parse_digits 0 (format_nat n) = Some n"
proof (induction n rule: format_nat.induct)
  case (1 n)
  show ?case
  proof (cases "n < 10")
    case True
    with 1 show ?thesis by (simp add: format_nat.simps [of n])
  next
    case False
    with 1 have "parse_digits 0 (format_nat (n div 10)) = Some (n div 10)" by simp
    with False show ?thesis by (simp add: format_nat.simps [of n] parse_digits_append)
  qed
qed

lemma parse_nat_format_nat [simp, go_string]: "0 \<le> n \<Longrightarrow> parse_nat (format_nat n) = Some n"
  by (simp add: parse_nat_def parse_digits_format_nat)

lemma not_digit_sign [simp]: "\<not> is_digit CHR ''-''" "\<not> is_digit CHR ''+''" "\<not> is_digit CHR ''@''"
  "\<not> is_digit CHR ''*''" "\<not> is_digit CHR '',''" "\<not> is_digit CHR ''/''" "\<not> is_digit CHR ''#''"
  by (simp_all add: is_digit_def)

lemma ParseInt_format_nat [go_string]:
  assumes "is_int64 n" "0 \<le> n"
  shows "ParseInt (format_nat n) = Some n"
proof -
  obtain c cs where c: "format_nat n = c # cs" by (cases "format_nat n") auto
  then have "is_digit c" using format_nat_digits [of c n] by simp
  then have "c \<noteq> CHR ''-''" "c \<noteq> CHR ''+''" by (auto simp: not_digit_sign)
  then show ?thesis using c parse_nat_format_nat [of n] assms by (simp add: ParseInt_def)
qed

lemma ParseInt_FormatInt [go_string]: "is_int64 i \<Longrightarrow> ParseInt (FormatInt i) = Some i"
  by (cases "i < 0") (simp_all add: FormatInt_def ParseInt_format_nat, simp add: ParseInt_def)

lemma ParseInt_int64: "ParseInt s = Some i \<Longrightarrow> is_int64 i"
  by (auto simp: ParseInt_def split: list.splits if_splits option.splits)

lemma FormatInt_no: "\<not> is_digit d \<Longrightarrow> d \<noteq> CHR ''-'' \<Longrightarrow> d \<notin> set (FormatInt i)"
  using format_nat_digits by (auto simp: FormatInt_def)

lemma FormatInt_ne [simp]: "FormatInt i \<noteq> []"
  by (simp add: FormatInt_def)

lemma format_nat_inject: "0 \<le> m \<Longrightarrow> 0 \<le> n \<Longrightarrow> format_nat m = format_nat n \<longleftrightarrow> m = n"
  by (metis option.inject parse_nat_format_nat)

lemma FormatInt_inject [simp]: "FormatInt i = FormatInt j \<longleftrightarrow> i = j"
proof
  assume eq: "FormatInt i = FormatInt j"
  have neg: "format_nat n \<noteq> CHR ''-'' # xs" for n xs
    using format_nat_digits [of "CHR ''-''" n] by auto
  show "i = j"
    using eq neg neg [symmetric]
    by (auto simp: FormatInt_def format_nat_inject split: if_splits)
qed simp

end
