(* ===== verification/GoTime.thy ===== *)
theory GoTime
  imports Prelude "HOL-Library.Monad_Syntax"
begin

section \<open>Package time: instants, the civil calendar, RFC 3339\<close>

text \<open>
  A Go \<open>time.Time\<close> is an instant and a location.  Instants are \<open>int\<close> nanoseconds since the
  Unix epoch; a location is the function from Unix seconds to the zone offset in force then
  (seconds east of UTC), which is what the tz database supplies.  The theory models what the
  program calls: \<open>Truncate\<close>, \<open>Add\<close>, \<open>AddDate\<close>, the calendar fields, \<open>Format\<close> and \<open>Parse\<close>
  with the layouts \<open>RFC3339\<close> and \<open>RFC3339Nano\<close>.  The main facts are that the calendar is the
  proleptic Gregorian one (\<open>days_of_civil_of_days\<close>, \<open>civil_of_days_valid\<close>) and that parsing a
  formatted time gives it back (\<open>Parse_Format_RFC3339\<close>).
\<close>

type_synonym instant = int
type_synonym duration = int
type_synonym location = "int \<Rightarrow> int"

named_theorems time_simps

abbreviation Second :: duration where "Second \<equiv> 1000000000"
abbreviation Minute :: duration where "Minute \<equiv> 60000000000"
abbreviation Hour :: duration where "Hour \<equiv> 3600000000000"

definition UTC :: location where
  "UTC = (\<lambda>_. 0)"

text \<open>The zero \<open>time.Time\<close>: January 1 of year 1, 00:00:00 UTC.\<close>

definition zero_time :: instant where
  "zero_time = - 62135596800000000000"

definition IsZero :: "instant \<Rightarrow> bool" where
  "IsZero t \<longleftrightarrow> t = zero_time"

text \<open>\<open>Truncate\<close> rounds down to a multiple of \<open>d\<close> since the zero time, whatever the location.\<close>

definition Truncate :: "instant \<Rightarrow> duration \<Rightarrow> instant" where
  "Truncate t d = (if d \<le> 0 then t else t - (t - zero_time) mod d)"

text \<open>\<open>Time.Sub\<close> saturates at the bounds of a 64-bit duration.\<close>

definition Sub :: "instant \<Rightarrow> instant \<Rightarrow> duration" where
  "Sub t u = max min_int64 (min max_int64 (t - u))"

definition unix :: "instant \<Rightarrow> int" where
  "unix t = t div 1000000000"

definition local_secs :: "location \<Rightarrow> instant \<Rightarrow> int" where
  "local_secs loc t = unix t + loc (unix t)"

definition hour_of :: "location \<Rightarrow> instant \<Rightarrow> int" where
  "hour_of loc t = local_secs loc t mod 86400 div 3600"

definition minute_of :: "location \<Rightarrow> instant \<Rightarrow> int" where
  "minute_of loc t = local_secs loc t mod 3600 div 60"

definition second_of :: "location \<Rightarrow> instant \<Rightarrow> int" where
  "second_of loc t = local_secs loc t mod 60"

definition weekday_of :: "location \<Rightarrow> instant \<Rightarrow> int" where
  "weekday_of loc t = (local_secs loc t div 86400 + 4) mod 7"

subsection \<open>The civil calendar\<close>

definition isLeap :: "int \<Rightarrow> bool" where
  "isLeap y \<longleftrightarrow> y mod 4 = 0 \<and> (y mod 100 \<noteq> 0 \<or> y mod 400 = 0)"

definition month_lengths :: "bool \<Rightarrow> int list" where
  "month_lengths leap = [31, if leap then 29 else 28, 31, 30, 31, 30, 31, 31, 30, 31, 30, 31]"

definition daysIn :: "int \<Rightarrow> int \<Rightarrow> int" where
  "daysIn y m = month_lengths (isLeap y) ! nat (m - 1)"

definition days_before :: "int \<Rightarrow> int \<Rightarrow> int" where
  "days_before y m = sum_list (take (nat (m - 1)) (month_lengths (isLeap y)))"

text \<open>Days from 1970-01-01 to the given date; a day past the end of its month runs on into
  the next one, as \<open>time.Date\<close> normalises it.\<close>

definition days_of_civil :: "int \<Rightarrow> int \<Rightarrow> int \<Rightarrow> int" where
  "days_of_civil y m d =
     365 * (y - 1) + (y - 1) div 4 - (y - 1) div 100 + (y - 1) div 400
     + days_before y m + (d - 1) - 719162"

text \<open>Year and day of the year, by the 400, 100, 4 and 1-year cycles.\<close>

definition year_yday :: "int \<Rightarrow> int \<times> int" where
  "year_yday z =
     (let d0 = z + 719162;
          a = d0 div 146097; d1 = d0 mod 146097;
          b = min 3 (d1 div 36524); d2 = d1 - 36524 * b;
          c = d2 div 1461; d3 = d2 mod 1461;
          e = min 3 (d3 div 365); d4 = d3 - 365 * e
      in (400 * a + 100 * b + 4 * c + e + 1, d4))"

fun split_month :: "int \<Rightarrow> int list \<Rightarrow> int \<Rightarrow> int \<times> int" where
  "split_month m [] d = (m, d + 1)"
| "split_month m (l # ls) d = (if d < l then (m, d + 1) else split_month (m + 1) ls (d - l))"

definition civil_of_days :: "int \<Rightarrow> int \<times> int \<times> int" where
  "civil_of_days z = (let (y, yd) = year_yday z in (y, split_month 1 (month_lengths (isLeap y)) yd))"

definition year_of :: "location \<Rightarrow> instant \<Rightarrow> int" where
  "year_of loc t = fst (civil_of_days (local_secs loc t div 86400))"

definition month_of :: "location \<Rightarrow> instant \<Rightarrow> int" where
  "month_of loc t = fst (snd (civil_of_days (local_secs loc t div 86400)))"

definition day_of :: "location \<Rightarrow> instant \<Rightarrow> int" where
  "day_of loc t = snd (snd (civil_of_days (local_secs loc t div 86400)))"

lemma split_month_correct:
  assumes "0 \<le> d" "d < sum_list ls"
  shows "\<exists>k < length ls. fst (split_month m ls d) = m + int k \<and>
    sum_list (take k ls) + (snd (split_month m ls d) - 1) = d \<and>
    1 \<le> snd (split_month m ls d) \<and> snd (split_month m ls d) \<le> ls ! k"
  using assms
proof (induction m ls d rule: split_month.induct)
  case (1 m d)
  then show ?case by simp
next
  case (2 m l ls d)
  show ?case
  proof (cases "d < l")
    case True
    with 2 show ?thesis by (intro exI [of _ 0]) simp
  next
    case False
    with 2 obtain k where "k < length ls" "fst (split_month (m + 1) ls (d - l)) = m + 1 + int k"
      "sum_list (take k ls) + (snd (split_month (m + 1) ls (d - l)) - 1) = d - l"
      "1 \<le> snd (split_month (m + 1) ls (d - l))" "snd (split_month (m + 1) ls (d - l)) \<le> ls ! k"
      by auto
    with False show ?thesis by (intro exI [of _ "Suc k"]) simp
  qed
qed

lemma min_cycle:
  assumes "0 \<le> (x::int)" "x \<le> 4 * n" "0 < n"
  shows "0 \<le> x - n * min 3 (x div n) \<and> (min 3 (x div n) < 3 \<longrightarrow> x - n * min 3 (x div n) < n) \<and>
    x - n * min 3 (x div n) \<le> n"
proof -
  define q where "q = x div n"
  obtain r where x: "x = n * q + r" "0 \<le> r" "r < n"
    using assms by (simp add: q_def that [of "x mod n"])
  show ?thesis
  proof (cases "q \<le> 3")
    case True
    then show ?thesis using x assms unfolding q_def [symmetric] by (auto simp: min_def)
  next
    case False
    then have "n * 4 \<le> n * q" and m: "min 3 q = 3" using assms(3) by (auto intro: mult_left_mono)
    then have "0 \<le> x - n * 3" "x - n * 3 \<le> n" using x(1,2) assms(2,3) by linarith+
    then show ?thesis unfolding q_def [symmetric] m by simp
  qed
qed

lemma year_yday_cycles:
  obtains a b c e where
    "fst (year_yday z) = 400 * a + 100 * b + 4 * c + e + 1"
    "z + 719162 = 146097 * a + 36524 * b + 1461 * c + 365 * e + snd (year_yday z)"
    "0 \<le> b" "b \<le> 3" "0 \<le> c" "c \<le> 24" "0 \<le> e" "e \<le> 3"
    "0 \<le> snd (year_yday z)" "snd (year_yday z) \<le> 365"
    "snd (year_yday z) = 365 \<Longrightarrow> e = 3 \<and> (c = 24 \<longrightarrow> b = 3)"
proof -
  define d0 where "d0 = z + 719162"
  define a where "a = d0 div 146097"
  define d1 where "d1 = d0 mod 146097"
  define b where "b = min 3 (d1 div 36524)"
  define d2 where "d2 = d1 - 36524 * b"
  define c where "c = d2 div 1461"
  define d3 where "d3 = d2 mod 1461"
  define e where "e = min 3 (d3 div 365)"
  define d4 where "d4 = d3 - 365 * e"
  note defs = d0_def a_def d1_def b_def d2_def c_def d3_def e_def d4_def
  have yy: "year_yday z = (400 * a + 100 * b + 4 * c + e + 1, d4)"
    by (simp only: year_yday_def Let_def defs)
  have d0: "d0 = 146097 * a + d1" by (simp add: a_def d1_def)
  have d1: "0 \<le> d1" "d1 < 146097" by (simp_all add: d1_def)
  have b: "0 \<le> b" "b \<le> 3" using d1 by (simp_all add: b_def pos_imp_zdiv_nonneg_iff)
  have d2: "0 \<le> d2 \<and> (b < 3 \<longrightarrow> d2 < 36524) \<and> d2 \<le> 36524"
    using d1 min_cycle [of d1 36524] by (simp add: d2_def b_def)
  have d23: "d2 = 1461 * c + d3" by (simp add: c_def d3_def)
  have d3: "0 \<le> d3" "d3 < 1461" by (simp_all add: d3_def)
  have c: "0 \<le> c" "c \<le> 24" using d2 d3 d23 by linarith+
  have e: "0 \<le> e" "e \<le> 3" using d3 by (simp_all add: e_def pos_imp_zdiv_nonneg_iff)
  have d4: "0 \<le> d4 \<and> (e < 3 \<longrightarrow> d4 < 365) \<and> d4 \<le> 365"
    using d3 min_cycle [of d3 365] by (simp add: d4_def e_def)
  have e3: "e = 3" if "d4 = 365" using d4 e that by linarith
  have b3: "b = 3" if "d4 = 365" "c = 24"
  proof -
    have "d3 = 1460" using that(1) e3 by (simp add: d4_def)
    with that(2) d23 have "d2 = 36524" by simp
    with d2 b show ?thesis by linarith
  qed
  have leap: "d4 = 365 \<Longrightarrow> e = 3 \<and> (c = 24 \<longrightarrow> b = 3)"
    using e3 b3 by blast
  have sum: "z + 719162 = 146097 * a + 36524 * b + 1461 * c + 365 * e + d4"
    using d0 d23 by (simp add: d0_def d2_def d4_def)
  show ?thesis
    using that [of a b c e] sum b c e d4 leap unfolding yy fst_conv snd_conv by blast
qed

lemma isLeap_cycles:
  assumes "0 \<le> b" "b \<le> 3" "0 \<le> c" "c \<le> (24::int)" "e = 3" "c = 24 \<longrightarrow> b = 3"
  shows "isLeap (400 * a + 100 * b + 4 * c + e + 1)"
proof -
  let ?y = "400 * a + 100 * b + 4 * c + e + 1"
  have "?y = 4 * (100 * a + 25 * b + c + 1) + 0" using assms(5) by simp
  then have 4: "?y mod 4 = 0" by (rule int_mod_pos_eq) simp_all
  show ?thesis
  proof (cases "c = 24")
    case True
    then have "?y = 400 * (a + 1) + 0" using assms by simp
    then have "?y mod 400 = 0" by (rule int_mod_pos_eq) simp_all
    with 4 show ?thesis by (simp add: isLeap_def)
  next
    case False
    have "?y = 100 * (4 * a + b) + (4 * c + 4)" using assms(5) by simp
    then have "?y mod 100 = 4 * c + 4" by (rule int_mod_pos_eq) (use assms False in simp_all)
    with 4 assms(3) show ?thesis by (simp add: isLeap_def)
  qed
qed

lemma year_days_cycles:
  assumes "0 \<le> b" "b \<le> 3" "0 \<le> c" "c \<le> (24::int)" "0 \<le> e" "e \<le> 3"
    and "y = 400 * a + 100 * b + 4 * c + e + 1"
  shows "365 * (y - 1) + (y - 1) div 4 - (y - 1) div 100 + (y - 1) div 400
       = 146097 * a + 36524 * b + 1461 * c + 365 * e"
proof -
  have "(y - 1) div 4 = 100 * a + 25 * b + c"
    by (rule int_div_pos_eq [of _ _ _ e]) (use assms in simp_all)
  moreover have "(y - 1) div 100 = 4 * a + b"
    by (rule int_div_pos_eq [of _ _ _ "4 * c + e"]) (use assms in simp_all)
  moreover have "(y - 1) div 400 = a"
    by (rule int_div_pos_eq [of _ _ _ "100 * b + 4 * c + e"]) (use assms in simp_all)
  ultimately show ?thesis using assms(7) by simp
qed

lemma civil_of_days_valid:
  assumes "civil_of_days z = (y, m, d)"
  shows "1 \<le> m \<and> m \<le> 12 \<and> 1 \<le> d \<and> d \<le> daysIn y m \<and> days_of_civil y m d = z"
proof -
  obtain a b c e where yy:
    "fst (year_yday z) = 400 * a + 100 * b + 4 * c + e + 1"
    "z + 719162 = 146097 * a + 36524 * b + 1461 * c + 365 * e + snd (year_yday z)"
    "0 \<le> b" "b \<le> 3" "0 \<le> c" "c \<le> 24" "0 \<le> e" "e \<le> 3"
    "0 \<le> snd (year_yday z)" "snd (year_yday z) \<le> 365"
    "snd (year_yday z) = 365 \<Longrightarrow> e = 3 \<and> (c = 24 \<longrightarrow> b = 3)"
    by (rule year_yday_cycles [of z]) blast
  define ls where "ls = month_lengths (isLeap y)"
  define yd where "yd = snd (year_yday z)"
  have y: "y = fst (year_yday z)" and md: "split_month 1 ls yd = (m, d)"
    using assms by (auto simp: civil_of_days_def ls_def yd_def split: prod.splits)
  have "yd < sum_list ls"
  proof (cases "yd = 365")
    case True
    then have "isLeap y" using yy y isLeap_cycles by (simp add: yd_def)
    with True show ?thesis by (simp add: ls_def month_lengths_def)
  next
    case False
    then show ?thesis using yy(10) by (simp add: ls_def month_lengths_def yd_def)
  qed
  then obtain k where k: "k < length ls" "m = 1 + int k" "sum_list (take k ls) + (d - 1) = yd"
    "1 \<le> d" "d \<le> ls ! k"
    using split_month_correct [of yd ls 1] yy(9) md by (auto simp: yd_def)
  have "length ls = 12" by (simp add: ls_def month_lengths_def)
  moreover have "days_before y m = sum_list (take k ls)" "daysIn y m = ls ! k"
    using k(2) by (simp_all add: days_before_def daysIn_def ls_def)
  moreover have "days_of_civil y m d = z"
    using year_days_cycles [OF yy(3-8), of y a] yy(1,2) y k(3) calculation
    by (simp add: days_of_civil_def yd_def)
  ultimately show ?thesis using k by simp
qed

lemma days_of_civil_of_days:
  "civil_of_days z = (y, m, d) \<Longrightarrow> days_of_civil y m d = z"
  using civil_of_days_valid by blast

subsection \<open>Building a time from its calendar fields\<close>

text \<open>\<open>time.Date\<close> looks the zone offset up at the wall-clock seconds read as UTC and, when it is not
  zero, again at the instant that offset gives.\<close>

definition Date :: "location \<Rightarrow> int \<Rightarrow> int \<Rightarrow> int \<Rightarrow> int \<Rightarrow> int \<Rightarrow> int \<Rightarrow> int \<Rightarrow> instant" where
  "Date loc y m d h mi s ns =
     (let u = days_of_civil y m d * 86400 + h * 3600 + mi * 60 + s;
          off = loc u;
          u' = (if off = 0 then u else u - loc (u - off))
      in u' * 1000000000 + ns)"

text \<open>\<open>t.AddDate(n, 0, 0)\<close>.\<close>

definition AddYears :: "location \<Rightarrow> instant \<Rightarrow> int \<Rightarrow> instant" where
  "AddYears loc t n = Date loc (year_of loc t + n) (month_of loc t) (day_of loc t)
     (hour_of loc t) (minute_of loc t) (second_of loc t) (t mod 1000000000)"

lemma local_clock:
  "local_secs loc t mod 86400 = hour_of loc t * 3600 + minute_of loc t * 60 + second_of loc t"
proof -
  let ?l = "local_secs loc t"
  have "?l mod 86400 mod 3600 = ?l mod 3600" by (rule mod_mod_cancel) simp
  moreover have "?l mod 3600 mod 60 = ?l mod 60" by (rule mod_mod_cancel) simp
  ultimately show ?thesis
    using div_mult_mod_eq [of "?l mod 86400" 3600] div_mult_mod_eq [of "?l mod 3600" 60]
    by (simp add: hour_of_def minute_of_def second_of_def)
qed

lemma clock_bounds:
  "0 \<le> hour_of loc t" "hour_of loc t < 24" "0 \<le> minute_of loc t" "minute_of loc t < 60"
  "0 \<le> second_of loc t" "second_of loc t < 60"
proof -
  have "local_secs loc t mod 86400 < 86400" "local_secs loc t mod 3600 < 3600" by simp_all
  then show "hour_of loc t < 24" "minute_of loc t < 60"
    by (simp_all add: hour_of_def minute_of_def div_less_iff_less_mult)
qed (simp_all add: hour_of_def minute_of_def second_of_def pos_imp_zdiv_nonneg_iff)

lemma civil_fields:
  "civil_of_days (local_secs loc t div 86400) = (year_of loc t, month_of loc t, day_of loc t)"
  by (simp add: year_of_def month_of_def day_of_def)

lemma weekday_bounds: "0 \<le> weekday_of loc t" "weekday_of loc t < 7"
  by (simp_all add: weekday_of_def)

lemma month_bounds: "1 \<le> month_of loc t" "month_of loc t \<le> 12"
  using civil_of_days_valid [OF civil_fields, of loc t] by auto

lemma daysIn_le: "1 \<le> m \<Longrightarrow> m \<le> 12 \<Longrightarrow> daysIn y m \<le> 31"
proof -
  assume "1 \<le> m" "m \<le> 12"
  then have "nat (m - 1) < length (month_lengths (isLeap y))" by (simp add: month_lengths_def)
  moreover have "\<forall>l \<in> set (month_lengths (isLeap y)). l \<le> 31" by (simp add: month_lengths_def)
  ultimately show ?thesis unfolding daysIn_def using nth_mem by blast
qed

lemma day_bounds: "1 \<le> day_of loc t" "day_of loc t \<le> 31"
  using civil_of_days_valid [OF civil_fields, of loc t]
    daysIn_le [OF month_bounds, of "year_of loc t" loc t] by auto

lemma Date_fields_UTC:
  "Date UTC (year_of UTC t) (month_of UTC t) (day_of UTC t)
     (hour_of UTC t) (minute_of UTC t) (second_of UTC t) (t mod 1000000000) = t"
proof -
  have "days_of_civil (year_of UTC t) (month_of UTC t) (day_of UTC t) = unix t div 86400"
    using days_of_civil_of_days [OF civil_fields, of UTC t] by (simp add: local_secs_def UTC_def)
  moreover have "unix t mod 86400 = hour_of UTC t * 3600 + minute_of UTC t * 60 + second_of UTC t"
    using local_clock [of UTC t] by (simp add: local_secs_def UTC_def)
  ultimately have "days_of_civil (year_of UTC t) (month_of UTC t) (day_of UTC t) * 86400
      + hour_of UTC t * 3600 + minute_of UTC t * 60 + second_of UTC t = unix t"
    using div_mult_mod_eq [of "unix t" 86400] by simp
  then have "Date UTC (year_of UTC t) (month_of UTC t) (day_of UTC t)
      (hour_of UTC t) (minute_of UTC t) (second_of UTC t) (t mod 1000000000)
    = unix t * 1000000000 + t mod 1000000000"
    unfolding Date_def Let_def by (simp add: UTC_def)
  then show ?thesis using div_mult_mod_eq [of t 1000000000] by (simp add: unix_def)
qed

subsection \<open>RFC 3339\<close>

definition pad :: "nat \<Rightarrow> int \<Rightarrow> string" where
  "pad w n = replicate (w - length (format_nat n)) CHR ''0'' @ format_nat n"

definition pad_year :: "int \<Rightarrow> string" where
  "pad_year y = (if y < 0 then CHR ''-'' # pad 4 (- y) else pad 4 y)"

definition date_clock :: "instant \<Rightarrow> string" where
  "date_clock t = pad_year (year_of UTC t) @ ''-'' @ pad 2 (month_of UTC t) @ ''-''
     @ pad 2 (day_of UTC t) @ ''T'' @ pad 2 (hour_of UTC t) @ '':''
     @ pad 2 (minute_of UTC t) @ '':'' @ pad 2 (second_of UTC t)"

text \<open>\<open>t.UTC().Format(time.RFC3339)\<close>.\<close>

definition Format_RFC3339 :: "instant \<Rightarrow> string" where
  "Format_RFC3339 t = date_clock t @ ''Z''"

text \<open>\<open>t.UTC().Format(time.RFC3339Nano)\<close>: the fraction without its trailing zeros.\<close>

definition frac_digits :: "instant \<Rightarrow> string" where
  "frac_digits t =
     (let ns = t mod 1000000000 in
      if ns = 0 then []
      else CHR ''.'' # rev (dropWhile (\<lambda>c. c = CHR ''0'') (rev (pad 9 ns))))"

definition Format_RFC3339Nano :: "instant \<Rightarrow> string" where
  "Format_RFC3339Nano t = date_clock t @ frac_digits t @ ''Z''"

definition getnum :: "string \<Rightarrow> bool \<Rightarrow> (int \<times> string) option" where
  "getnum s fixed =
     (case s of
        [] \<Rightarrow> None
      | c # cs \<Rightarrow>
          if \<not> is_digit c then None
          else (case cs of
                  [] \<Rightarrow> if fixed then None else Some (digit_val c, cs)
                | d # ds \<Rightarrow>
                    if is_digit d then Some (10 * digit_val c + digit_val d, ds)
                    else if fixed then None else Some (digit_val c, cs)))"

definition skip :: "char \<Rightarrow> string \<Rightarrow> string option" where
  "skip c s = (case s of [] \<Rightarrow> None | x # xs \<Rightarrow> if x = c then Some xs else None)"

definition getyear :: "string \<Rightarrow> (int \<times> string) option" where
  "getyear s = (if length s < 4 then None
     else map_option (\<lambda>n. (n, drop 4 s)) (parse_nat (take 4 s)))"

text \<open>A fraction is accepted after the seconds even though the layout has none; digits past the
  ninth are dropped.\<close>

definition getfrac :: "string \<Rightarrow> int \<times> string" where
  "getfrac s =
     (case s of
        p # c # cs \<Rightarrow>
          if (p = CHR ''.'' \<or> p = CHR '','') \<and> is_digit c then
            (let ds = take 9 (takeWhile is_digit (c # cs)) in
             (the (parse_nat ds) * 10 ^ (9 - length ds), dropWhile is_digit (c # cs)))
          else (0, s)
      | _ \<Rightarrow> (0, s))"

definition getzone :: "string \<Rightarrow> (int \<times> string) option" where
  "getzone s =
     (case s of
        [] \<Rightarrow> None
      | c # cs \<Rightarrow>
          if c = CHR ''Z'' then Some (0, cs)
          else do {
            (hh, s1) \<leftarrow> getnum cs True;
            s2 \<leftarrow> skip CHR '':'' s1;
            (mm, s3) \<leftarrow> getnum s2 True;
            if hh > 24 \<or> mm > 60 then None
            else if c = CHR ''+'' then Some (hh * 3600 + mm * 60, s3)
            else if c = CHR ''-'' then Some (- (hh * 3600 + mm * 60), s3)
            else None })"

text \<open>\<open>time.Parse(time.RFC3339, s)\<close>; \<open>None\<close> stands for the parse error.\<close>

definition Parse_RFC3339 :: "string \<Rightarrow> instant option" where
  "Parse_RFC3339 s = do {
     (y, s) \<leftarrow> getyear s;
     s \<leftarrow> skip CHR ''-'' s;
     (mo, s) \<leftarrow> getnum s True;
     s \<leftarrow> skip CHR ''-'' s;
     (d, s) \<leftarrow> getnum s True;
     s \<leftarrow> skip CHR ''T'' s;
     (h, s) \<leftarrow> getnum s False;
     s \<leftarrow> skip CHR '':'' s;
     (mi, s) \<leftarrow> getnum s True;
     s \<leftarrow> skip CHR '':'' s;
     (sec, s) \<leftarrow> getnum s True;
     let (ns, s) = getfrac s;
     (off, s) \<leftarrow> getzone s;
     if s \<noteq> [] \<or> mo < 1 \<or> 12 < mo \<or> d < 1 \<or> daysIn y mo < d \<or> 24 \<le> h \<or> 60 \<le> mi \<or> 60 \<le> sec
     then None
     else Some ((days_of_civil y mo d * 86400 + h * 3600 + mi * 60 + sec - off) * 1000000000 + ns) }"

lemma digit_zero: "digit_char 0 = CHR ''0''"
  by code_simp

lemma pad2: "0 \<le> n \<Longrightarrow> n < 100 \<Longrightarrow> pad 2 n = [digit_char (n div 10), digit_char n]"
  by (auto simp: pad_def digit_zero format_nat.simps [of n] format_nat.simps [of "n div 10"])

lemma pad4:
  assumes "0 \<le> n" "n < 10000"
  shows "pad 4 n = [digit_char (n div 1000), digit_char (n div 100), digit_char (n div 10), digit_char n]"
proof -
  have d: "n div 10 div 10 = n div 100" "n div 100 div 10 = n div 1000"
    by (simp_all add: zdiv_zmult2_eq [symmetric])
  show ?thesis
    using assms
    by (auto simp: pad_def digit_zero format_nat.simps [of n] format_nat.simps [of "n div 10"]
        format_nat.simps [of "n div 100"] format_nat.simps [of "n div 1000"] d numeral_3_eq_3)
qed

lemma getnum_pad2: "0 \<le> n \<Longrightarrow> n < 100 \<Longrightarrow> getnum (pad 2 n @ s) b = Some (n, s)"
  by (simp add: pad2 getnum_def)

lemma skip_Cons [simp]: "skip c (c # s) = Some s"
  by (simp add: skip_def)

lemma four_digits:
  "1000 * (n div 1000) + 100 * (n div 100 mod 10) + 10 * (n div 10 mod 10) + n mod 10 = (n::int)"
proof -
  have "n = 10 * (n div 10) + n mod 10" by simp
  moreover have "n div 10 = 10 * (n div 100) + n div 10 mod 10"
    using mult_div_mod_eq [of 10 "n div 10"] by (simp add: zdiv_zmult2_eq [symmetric])
  moreover have "n div 100 = 10 * (n div 1000) + n div 100 mod 10"
    using mult_div_mod_eq [of 10 "n div 100"] by (simp add: zdiv_zmult2_eq [symmetric])
  ultimately show ?thesis by linarith
qed

lemma getyear_pad4: "0 \<le> n \<Longrightarrow> n < 10000 \<Longrightarrow> getyear (pad 4 n @ s) = Some (n, s)"
  by (simp add: pad4 getyear_def parse_nat_def four_digits)

text \<open>What \<open>Format\<close> with \<open>RFC3339\<close> writes for a whole second of the years 0 to 9999,
  \<open>Parse\<close> reads back.\<close>

lemma Parse_Format_RFC3339:
  assumes "t mod 1000000000 = 0" "0 \<le> year_of UTC t" "year_of UTC t \<le> 9999"
  shows "Parse_RFC3339 (Format_RFC3339 t) = Some t"
proof -
  note v = civil_of_days_valid [OF civil_fields, of UTC t] and c = clock_bounds [of UTC t]
    and m = month_bounds [of UTC t] and d = day_bounds [of UTC t]
  have n: "year_of UTC t < 10000" "0 \<le> month_of UTC t" "month_of UTC t < 100" "0 \<le> day_of UTC t"
    "day_of UTC t < 100" "hour_of UTC t < 100" "minute_of UTC t < 100" "second_of UTC t < 100"
    using assms(3) c m d by linarith+
  have frac: "getfrac ''Z'' = (0, ''Z'')" by (simp add: getfrac_def)
  have "Parse_RFC3339 (Format_RFC3339 t) =
    Some (Date UTC (year_of UTC t) (month_of UTC t) (day_of UTC t)
      (hour_of UTC t) (minute_of UTC t) (second_of UTC t) 0)"
    unfolding Parse_RFC3339_def Format_RFC3339_def date_clock_def pad_year_def
    using assms(2) v c n frac
    by (simp add: getyear_pad4 getnum_pad2 getzone_def Date_def UTC_def Let_def)
  then show ?thesis using Date_fields_UTC [of t] assms(1) by simp
qed

lemma Format_RFC3339_inj:
  assumes "Format_RFC3339 t = Format_RFC3339 u"
    and "t mod 1000000000 = 0" "0 \<le> year_of UTC t" "year_of UTC t \<le> 9999"
    and "u mod 1000000000 = 0" "0 \<le> year_of UTC u" "year_of UTC u \<le> 9999"
  shows "t = u"
proof -
  have "Some t = Parse_RFC3339 (Format_RFC3339 u)"
    using Parse_Format_RFC3339 [OF assms(2-4)] assms(1) by (simp only:)
  also have "\<dots> = Some u" by (rule Parse_Format_RFC3339 [OF assms(5-7)])
  finally show ?thesis by (simp only: option.inject)
qed

lemma Format_Nano_whole: "t mod 1000000000 = 0 \<Longrightarrow> Format_RFC3339Nano t = Format_RFC3339 t"
  by (simp add: Format_RFC3339Nano_def Format_RFC3339_def frac_digits_def)

lemma Truncate_le: "0 < d \<Longrightarrow> Truncate t d \<le> t"
  by (simp add: Truncate_def)

lemma Truncate_gt: "0 < d \<Longrightarrow> t < Truncate t d + d"
  using pos_mod_bound [of d "t - zero_time"] by (simp add: Truncate_def)

lemma zero_time_mod [time_simps]: "zero_time mod 1000000000 = 0" "zero_time mod 60000000000 = 0"
  "zero_time mod 3600000000000 = 0"
  by (simp_all add: zero_time_def)

lemma Truncate_dvd: "0 < d \<Longrightarrow> d dvd zero_time \<Longrightarrow> Truncate t d = t - t mod d"
  by (metis Truncate_def diff_zero dvd_imp_mod_0 mod_diff_right_eq not_le)

end
