(* ===== verification/Cron_Parser.thy ===== *)
theory Cron_Parser
  imports Prelude "HOL-Library.Word"
begin

unbundle bit_operations_syntax

section \<open>Cron expressions: internal/cron/parser.go\<close>

text \<open>
  The parser turns a cron expression into a \<open>Schedule\<close>: one 64-bit mask per field, and three flags.
  The definitions follow \<open>parser.go\<close> function by function; \<open>parseField\<close>'s loop body is split
  into \<open>splitStep\<close> (the step suffix), \<open>itemRange\<close> (the range) and \<open>markLoop\<close> (the innermost loop).
  The loop counter is a Go \<open>int\<close>, so \<open>v += step\<close> wraps; \<open>markLoop\<close> is a partial function whose
  non-termination would be \<open>None\<close>, and \<open>markLoop_terminates\<close> shows it always returns in the ranges
  \<open>parseField\<close> calls it with.

  The specification is \<open>item\<close>, an abstract syntax of field items with its concrete syntax
  \<open>print_field\<close> and its meaning \<open>item_values\<close>; \<open>parseField_print\<close> relates the two.
\<close>

type_synonym mask = "64 word"

record Schedule =
  seconds :: mask
  minutes :: mask
  hours :: mask
  doms :: mask
  months :: mask
  dows :: mask
  domStar :: bool
  dowStar :: bool
  hasSeconds :: bool

datatype cron_error =
    EmptyExpression
  | UnsupportedMacro string
  | WrongFieldCount nat
  | EmptyItem string
  | InvalidStep string string
  | OutOfBounds string string
  | MatchesNothing string
  | MissingValue string
  | BadValue string string
  | Diverges
  | UnknownTimezone string
  | NoFireTime string

subsection \<open>Values\<close>

definition monthNames :: "(string \<times> int) list" where
  "monthNames = [(''jan'', 1), (''feb'', 2), (''mar'', 3), (''apr'', 4), (''may'', 5), (''jun'', 6),
     (''jul'', 7), (''aug'', 8), (''sep'', 9), (''oct'', 10), (''nov'', 11), (''dec'', 12)]"

definition dowNames :: "(string \<times> int) list" where
  "dowNames = [(''sun'', 0), (''mon'', 1), (''tue'', 2), (''wed'', 3), (''thu'', 4), (''fri'', 5),
     (''sat'', 6)]"

text \<open>A nil map of names is the empty list: looking a value up in it finds nothing.\<close>

definition parseValue :: "string \<Rightarrow> (string \<times> int) list \<Rightarrow> string \<Rightarrow> cron_error + int" where
  "parseValue s names what =
     (if s = [] then Inl (MissingValue what)
      else case map_of names s of
             Some v \<Rightarrow> Inr v
           | None \<Rightarrow> (case ParseInt s of
                        None \<Rightarrow> Inl (BadValue s what)
                      | Some v \<Rightarrow> Inr v))"

subsection \<open>One field\<close>

text \<open>Go's remainder truncates towards zero; a shift count that is negative as an \<open>int\<close> is huge as a
  \<open>uint\<close>, and shifting by 64 or more gives 0.\<close>

definition goRem :: "int \<Rightarrow> int \<Rightarrow> int" where
  "goRem a b = (if a < 0 then - ((- a) mod b) else a mod b)"

definition bitIndex :: "int \<Rightarrow> int \<Rightarrow> int" where
  "bitIndex wrap v = (if 0 < wrap then goRem v wrap else v)"

definition shl1 :: "int \<Rightarrow> mask" where
  "shl1 b = (if b < 0 then 0 else push_bit (nat b) 1)"

partial_function (option) markLoop :: "int \<Rightarrow> int \<Rightarrow> int \<Rightarrow> int \<Rightarrow> mask \<Rightarrow> mask option" where
  "markLoop v to step wrap bits =
     (if v \<le> to
      then markLoop (wrap64 (v + step)) to step wrap (bits OR shl1 (bitIndex wrap v))
      else Some bits)"

declare markLoop.simps [code]

definition splitStep :: "string \<Rightarrow> string \<Rightarrow> cron_error + string \<times> int \<times> bool" where
  "splitStep part what =
     (case Index part CHR ''/'' of
        None \<Rightarrow> Inr (part, 1, False)
      | Some idx \<Rightarrow>
          (case ParseInt (drop (Suc idx) part) of
             None \<Rightarrow> Inl (InvalidStep what part)
           | Some v \<Rightarrow> if v < 1 then Inl (InvalidStep what part) else Inr (take idx part, v, True)))"

definition itemRange ::
  "string \<Rightarrow> string \<Rightarrow> bool \<Rightarrow> int \<Rightarrow> int \<Rightarrow> (string \<times> int) list \<Rightarrow> string \<Rightarrow> cron_error + int \<times> int" where
  "itemRange rng part stepped lo hi names what =
     (if rng = ''*'' then Inr (lo, hi)
      else
        let (a, b, isRange) =
              (case Index rng CHR ''-'' of
                 Some idx \<Rightarrow> (take idx rng, drop (Suc idx) rng, True)
               | None \<Rightarrow> (rng, rng, False))
        in case parseValue a names what of
             Inl e \<Rightarrow> Inl e
           | Inr av \<Rightarrow>
               (case parseValue b names what of
                  Inl e \<Rightarrow> Inl e
                | Inr bv \<Rightarrow>
                    if av < lo \<or> av > hi \<or> bv < lo \<or> bv > hi \<or> av > bv
                    then Inl (OutOfBounds what part)
                    else Inr (av, if stepped \<and> \<not> isRange then hi else bv)))"

definition parseItem ::
  "string \<Rightarrow> int \<Rightarrow> int \<Rightarrow> int \<Rightarrow> (string \<times> int) list \<Rightarrow> string \<Rightarrow> mask \<Rightarrow> cron_error + mask" where
  "parseItem part lo hi wrap names what bits =
     (if part = [] then Inl (EmptyItem what)
      else case splitStep part what of
             Inl e \<Rightarrow> Inl e
           | Inr (rng, step, stepped) \<Rightarrow>
               (case itemRange rng part stepped lo hi names what of
                  Inl e \<Rightarrow> Inl e
                | Inr (frm, to) \<Rightarrow>
                    (case markLoop frm to step wrap bits of
                       None \<Rightarrow> Inl Diverges
                     | Some bits' \<Rightarrow> Inr bits')))"

fun parseItems ::
  "string list \<Rightarrow> int \<Rightarrow> int \<Rightarrow> int \<Rightarrow> (string \<times> int) list \<Rightarrow> string \<Rightarrow> mask \<Rightarrow> cron_error + mask" where
  "parseItems [] lo hi wrap names what bits = Inr bits"
| "parseItems (part # parts) lo hi wrap names what bits =
     (case parseItem part lo hi wrap names what bits of
        Inl e \<Rightarrow> Inl e
      | Inr bits' \<Rightarrow> parseItems parts lo hi wrap names what bits')"

definition parseField ::
  "string \<Rightarrow> int \<Rightarrow> int \<Rightarrow> int \<Rightarrow> (string \<times> int) list \<Rightarrow> string \<Rightarrow> cron_error + mask" where
  "parseField field lo hi wrap names what =
     (case parseItems (Split CHR '','' field) lo hi wrap names what 0 of
        Inl e \<Rightarrow> Inl e
      | Inr bits \<Rightarrow> if bits = 0 then Inl (MatchesNothing what) else Inr bits)"

subsection \<open>A whole expression\<close>

definition expandMacro :: "string \<Rightarrow> string" where
  "expandMacro e =
     (if e = ''@yearly'' \<or> e = ''@annually'' then ''0 0 1 1 *''
      else if e = ''@monthly'' then ''0 0 1 * *''
      else if e = ''@weekly'' then ''0 0 * * 0''
      else if e = ''@daily'' \<or> e = ''@midnight'' then ''0 0 * * *''
      else if e = ''@hourly'' then ''0 * * * *''
      else e)"

text \<open>The five fields from the minute on, once the optional seconds are dealt with.\<close>

definition parseRest :: "string list \<Rightarrow> mask \<Rightarrow> bool \<Rightarrow> cron_error + Schedule" where
  "parseRest flds secs hasSecs =
     (case parseField (flds ! 0) 0 59 0 [] ''minute'' of
        Inl e \<Rightarrow> Inl e
      | Inr mins \<Rightarrow>
     (case parseField (flds ! 1) 0 23 0 [] ''hour'' of
        Inl e \<Rightarrow> Inl e
      | Inr hrs \<Rightarrow>
     (case parseField (flds ! 2) 1 31 0 [] ''day-of-month'' of
        Inl e \<Rightarrow> Inl e
      | Inr ds \<Rightarrow>
     (case parseField (flds ! 3) 1 12 0 monthNames ''month'' of
        Inl e \<Rightarrow> Inl e
      | Inr mons \<Rightarrow>
     (case parseField (flds ! 4) 0 7 7 dowNames ''day-of-week'' of
        Inl e \<Rightarrow> Inl e
      | Inr ws \<Rightarrow>
          Inr \<lparr>seconds = secs, minutes = mins, hours = hrs, doms = ds, months = mons, dows = ws,
            domStar = HasPrefix (flds ! 2) ''*'', dowStar = HasPrefix (flds ! 4) ''*'',
            hasSeconds = hasSecs\<rparr>)))))"

definition Parse :: "string \<Rightarrow> cron_error + Schedule" where
  "Parse expr =
     (let e = TrimSpace (ToLower expr) in
      if e = [] then Inl EmptyExpression
      else
        let e = expandMacro e in
        if HasPrefix e ''@'' then Inl (UnsupportedMacro expr)
        else
          let flds = Fields e in
          if length flds \<noteq> 5 \<and> length flds \<noteq> 6 then Inl (WrongFieldCount (length flds))
          else if length flds = 6 then
            (case parseField (flds ! 0) 0 59 0 [] ''seconds'' of
               Inl er \<Rightarrow> Inl er
             | Inr secs \<Rightarrow> parseRest (tl flds) secs True)
          else parseRest flds 0 False)"

definition Validate :: "string \<Rightarrow> cron_error option" where
  "Validate expr = (case Parse expr of Inl e \<Rightarrow> Some e | Inr _ \<Rightarrow> None)"

subsection \<open>The marking loop\<close>

lemma bit_shl1: "bit (shl1 b) i \<longleftrightarrow> 0 \<le> b \<and> i = nat b \<and> i < 64"
  by (auto simp: shl1_def bit_simps simp del: push_bit_of_1)

lemma markLoop_stop: "to < v \<Longrightarrow> markLoop v to step wrap bits = Some bits"
  by (simp add: markLoop.simps)

lemma markLoop_go:
  "v \<le> to \<Longrightarrow> markLoop v to step wrap bits
     = markLoop (wrap64 (v + step)) to step wrap (bits OR shl1 (bitIndex wrap v))"
  by (simp add: markLoop.simps)

text \<open>Without overflow the loop visits \<open>v, v + step, v + 2 * step, \<dots>\<close> up to \<open>to\<close>.\<close>

definition stepped_to :: "int \<Rightarrow> int \<Rightarrow> int \<Rightarrow> int \<Rightarrow> bool" where
  "stepped_to v to step w \<longleftrightarrow> v \<le> w \<and> w \<le> to \<and> (w - v) mod step = 0"

lemma stepped_to_unfold:
  assumes "v \<le> to" "1 \<le> step"
  shows "stepped_to v to step w \<longleftrightarrow> w = v \<or> stepped_to (v + step) to step w"
proof -
  have "(w - v) mod step = (w - (v + step)) mod step"
    using minus_mod_self2 [of "w - v" step] by (simp add: algebra_simps)
  moreover have "(w - v) mod step \<noteq> 0" if "v < w" "w < v + step"
    using that mod_pos_pos_trivial [of "w - v" step] by simp
  ultimately show ?thesis using assms unfolding stepped_to_def
    by (metis add_increasing2 diff_self le_add_same_cancel1 linorder_not_less mod_0 order.trans
        order_le_less zero_less_one_class.zero_le_one)
qed

lemma markLoop_exact:
  assumes "1 \<le> step" "to + step \<le> max_int64" "min_int64 \<le> v"
  shows "\<exists>b. markLoop v to step wrap bits = Some b \<and>
    (\<forall>i. bit b i \<longleftrightarrow> bit bits i \<or> (\<exists>w. stepped_to v to step w \<and> bit (shl1 (bitIndex wrap w)) i))"
  using assms(3)
proof (induction "nat (to + 1 - v)" arbitrary: v bits rule: less_induct)
  case less
  show ?case
  proof (cases "v \<le> to")
    case False
    then have "\<not> stepped_to v to step w" for w by (simp add: stepped_to_def)
    with False show ?thesis by (simp add: markLoop_stop)
  next
    case True
    have "wrap64 (v + step) = v + step"
      using True assms less.prems by (intro wrap64_id) (simp add: int64_defs)
    with True less.hyps [of "v + step" "bits OR shl1 (bitIndex wrap v)"] assms less.prems
    show ?thesis by (auto simp: markLoop_go bit_or_iff stepped_to_unfold)
  qed
qed

text \<open>With a step so large that \<open>v += step\<close> overflows, the counter comes back below where it was;
  the loop still ends.\<close>

lemma markLoop_overflow_terminates:
  assumes "max_int64 < to + step" "to \<le> 63" "step \<le> max_int64" "0 \<le> v"
  shows "\<exists>b. markLoop v to step wrap bits = Some b"
  using assms(4)
proof (induction "nat v" arbitrary: v bits rule: less_induct)
  case less
  note big = assms [unfolded max_int64_def] and v0 = \<open>0 \<le> v\<close>
  show ?case
  proof (cases "v \<le> to \<and> max_int64 < v + step")
    case False
    then show ?thesis
    proof (cases "v \<le> to")
      case True
      with False big v0 have "wrap64 (v + step) = v + step" and "to < v + step"
        by (auto intro: wrap64_id simp: int64_defs)
      with True show ?thesis by (simp add: markLoop_go markLoop_stop)
    qed (simp add: markLoop_stop)
  next
    case True
    let ?v1 = "v + step - 18446744073709551616"
    let ?v2 = "?v1 + step"
    let ?b1 = "bits OR shl1 (bitIndex wrap v)"
    let ?b2 = "?b1 OR shl1 (bitIndex wrap ?v1)"
    have w1: "wrap64 (v + step) = ?v1" using True big by (intro wrap64_over) (simp_all add: int64_defs)
    have w2: "wrap64 (?v1 + step) = ?v2" using True big by (intro wrap64_id) (simp add: int64_defs)
    have "?v1 \<le> to" using True big by (simp add: int64_defs)
    with True w1 w2 have eq: "markLoop v to step wrap bits = markLoop ?v2 to step wrap ?b2"
      by (simp add: markLoop_go)
    have dec: "?v2 < v" using big by simp
    show ?thesis
    proof (cases "0 \<le> ?v2")
      case True
      with dec v0 have "nat ?v2 < nat v" by simp
      with less.hyps [of ?v2 ?b2] True eq show ?thesis by simp
    next
      case False
      with big v0 have "wrap64 (?v2 + step) = ?v2 + step" "to < ?v2 + step" "?v2 \<le> to"
        using \<open>v \<le> to \<and> max_int64 < v + step\<close> by (auto intro: wrap64_id simp: int64_defs)
      then show ?thesis using eq by (simp add: markLoop_go markLoop_stop)
    qed
  qed
qed

lemma markLoop_terminates:
  assumes "0 \<le> v" "to \<le> 63" "1 \<le> step" "step \<le> max_int64"
  shows "\<exists>b. markLoop v to step wrap bits = Some b"
proof (cases "to + step \<le> max_int64")
  case True
  moreover have "min_int64 \<le> v" using assms(1) by (simp add: int64_defs)
  ultimately show ?thesis using markLoop_exact [of step to v wrap bits] assms(3) by blast
next
  case False
  then show ?thesis using markLoop_overflow_terminates [of to step v] assms by auto
qed

lemma markLoop_marks:
  assumes "markLoop v to step wrap bits = Some b"
  shows "\<forall>i. bit bits i \<longrightarrow> bit b i"
    and "\<forall>i. bit b i \<longrightarrow> bit bits i \<or> (\<exists>w \<le> to. bit (shl1 (bitIndex wrap w)) i)"
proof -
  have "(\<forall>i. bit bits i \<longrightarrow> bit b i) \<and>
    (\<forall>i. bit b i \<longrightarrow> bit bits i \<or> (\<exists>w \<le> to. bit (shl1 (bitIndex wrap w)) i))"
  proof (rule markLoop.raw_induct [where P = "\<lambda>v t s wr bits b.
        (\<forall>i. bit bits i \<longrightarrow> bit b i) \<and>
        (\<forall>i. bit b i \<longrightarrow> bit bits i \<or> (\<exists>w \<le> t. bit (shl1 (bitIndex wr w)) i))", OF _ assms])
    fix f v t s wr bits b
    assume IH: "\<And>v t s wr bits b. f v t s wr bits = Some b \<Longrightarrow>
        (\<forall>i. bit bits i \<longrightarrow> bit b i) \<and>
        (\<forall>i. bit b i \<longrightarrow> bit bits i \<or> (\<exists>w \<le> t. bit (shl1 (bitIndex wr w)) i))"
      and eq: "(if v \<le> t then f (wrap64 (v + s)) t s wr (bits OR shl1 (bitIndex wr v)) else Some bits) = Some b"
    show "(\<forall>i. bit bits i \<longrightarrow> bit b i) \<and>
        (\<forall>i. bit b i \<longrightarrow> bit bits i \<or> (\<exists>w \<le> t. bit (shl1 (bitIndex wr w)) i))"
    proof (cases "v \<le> t")
      case True
      with eq have "f (wrap64 (v + s)) t s wr (bits OR shl1 (bitIndex wr v)) = Some b" by simp
      from IH [OF this] True show ?thesis by (auto simp: bit_or_iff)
    qed (use eq in auto)
  qed
  then show "\<forall>i. bit bits i \<longrightarrow> bit b i"
    and "\<forall>i. bit b i \<longrightarrow> bit bits i \<or> (\<exists>w \<le> to. bit (shl1 (bitIndex wrap w)) i)" by auto
qed

subsection \<open>Bounds of the pieces of an item\<close>

lemma splitStep_step:
  "splitStep part what = Inr (rng, step, stepped) \<Longrightarrow> 1 \<le> step \<and> step \<le> max_int64"
  by (auto simp: splitStep_def int64_defs dest!: ParseInt_int64 split: option.splits if_splits)

lemma itemRange_bounds:
  "itemRange rng part stepped lo hi names what = Inr (frm, to) \<Longrightarrow> lo \<le> hi \<Longrightarrow>
   lo \<le> frm \<and> frm \<le> to \<and> to \<le> hi"
  by (auto simp: itemRange_def Let_def split: if_splits option.splits sum.splits prod.splits)

text \<open>The index of a marked bit, for the two ways \<open>Parse\<close> calls \<open>parseField\<close>: without wrapping
  (\<open>wrap = 0\<close>) and for the day of the week (\<open>wrap = 7\<close>).\<close>

definition bit_bound :: "int \<Rightarrow> int \<Rightarrow> nat \<Rightarrow> bool" where
  "bit_bound hi wrap i \<longleftrightarrow> int i \<le> hi \<and> (0 < wrap \<longrightarrow> int i < wrap)"

lemma bitIndex_bound:
  assumes "w \<le> hi" "0 \<le> hi" "bit (shl1 (bitIndex wrap w)) i"
  shows "bit_bound hi wrap i"
proof (cases "0 < wrap")
  case True
  then have i: "int i = goRem w wrap" "0 \<le> goRem w wrap"
    using assms(3) by (auto simp: bit_shl1 bitIndex_def)
  have m: "0 \<le> w mod wrap" "w mod wrap < wrap" using True by simp_all
  have n: "0 \<le> (- w) mod wrap" using True by simp
  show ?thesis
  proof (cases "w < 0")
    case True
    with i n have "int i = 0" by (simp add: goRem_def)
    with assms(2) \<open>0 < wrap\<close> show ?thesis by (simp add: bit_bound_def)
  next
    case False
    then have "w mod wrap \<le> w" using \<open>0 < wrap\<close> by (simp add: zmod_le_nonneg_dividend)
    with False i m True assms(1) show ?thesis by (simp add: goRem_def bit_bound_def)
  qed
next
  case False
  with assms show ?thesis by (auto simp: bit_shl1 bitIndex_def bit_bound_def)
qed

lemma parseItem_cases:
  assumes "0 \<le> lo" "lo \<le> hi" "hi \<le> 63"
  shows "parseItem part lo hi wrap names what bits \<noteq> Inl Diverges"
    and "parseItem part lo hi wrap names what bits = Inr b \<Longrightarrow>
      \<forall>i. bit b i \<longrightarrow> bit bits i \<or> bit_bound hi wrap i"
proof -
  have "parseItem part lo hi wrap names what bits \<noteq> Inl Diverges \<and>
    (parseItem part lo hi wrap names what bits = Inr b \<longrightarrow>
      (\<forall>i. bit b i \<longrightarrow> bit bits i \<or> bit_bound hi wrap i))"
  proof (cases "splitStep part what")
    case (Inl e)
    then show ?thesis
      by (auto simp: parseItem_def splitStep_def split: option.splits if_splits)
  next
    case (Inr p)
    obtain rng step stepped where p: "p = (rng, step, stepped)" by (cases p)
    with Inr have step: "1 \<le> step" "step \<le> max_int64" using splitStep_step by auto
    show ?thesis
    proof (cases "itemRange rng part stepped lo hi names what")
      case (Inl e)
      then have "e \<noteq> Diverges"
        by (auto simp: itemRange_def parseValue_def Let_def
            split: if_splits option.splits sum.splits prod.splits)
      with Inl Inr p show ?thesis by (simp add: parseItem_def)
    next
      case (Inr q)
      obtain frm to where q: "q = (frm, to)" by (cases q)
      with Inr have r: "lo \<le> frm" "to \<le> hi" using itemRange_bounds assms(2) by auto
      obtain b' where b': "markLoop frm to step wrap bits = Some b'"
        using markLoop_terminates [of frm to step wrap bits] step r assms by auto
      have "\<forall>i. bit b' i \<longrightarrow> bit bits i \<or> bit_bound hi wrap i"
        using markLoop_marks(2) [OF b'] bitIndex_bound [of _ hi wrap] r assms
        by (meson order_trans)
      with b' q p Inr \<open>splitStep part what = Inr p\<close> show ?thesis by (auto simp: parseItem_def)
    qed
  qed
  then show "parseItem part lo hi wrap names what bits \<noteq> Inl Diverges"
    and "parseItem part lo hi wrap names what bits = Inr b \<Longrightarrow>
      \<forall>i. bit b i \<longrightarrow> bit bits i \<or> bit_bound hi wrap i" by auto
qed

lemma parseItems_cases:
  assumes "0 \<le> lo" "lo \<le> hi" "hi \<le> 63"
  shows "parseItems parts lo hi wrap names what bits \<noteq> Inl Diverges \<and>
    (parseItems parts lo hi wrap names what bits = Inr b \<longrightarrow>
      (\<forall>i. bit b i \<longrightarrow> bit bits i \<or> bit_bound hi wrap i))"
proof (induction parts arbitrary: bits)
  case Nil
  then show ?case by simp
next
  case (Cons part parts)
  show ?case
  proof (cases "parseItem part lo hi wrap names what bits")
    case (Inl e)
    with parseItem_cases(1) [OF assms, of part wrap names what bits] show ?thesis by auto
  next
    case (Inr b')
    with parseItem_cases(2) [OF assms this] Cons.IH [of b'] show ?thesis by auto
  qed
qed

lemma parseField_bounded:
  assumes "0 \<le> lo" "lo \<le> hi" "hi \<le> 63" "parseField field lo hi wrap names what = Inr b"
  shows "b \<noteq> 0" and "\<forall>i. bit b i \<longrightarrow> bit_bound hi wrap i"
proof -
  obtain c where c: "parseItems (Split CHR '','' field) lo hi wrap names what 0 = Inr c"
    "c \<noteq> 0" "b = c"
    using assms(4) by (auto simp: parseField_def split: sum.splits if_splits)
  then show "b \<noteq> 0" by simp
  show "\<forall>i. bit b i \<longrightarrow> bit_bound hi wrap i"
    using parseItems_cases [OF assms(1-3), of "Split CHR '','' field" wrap names what 0 c] c
    by simp
qed

lemma parseField_returns:
  assumes "0 \<le> lo" "lo \<le> hi" "hi \<le> 63"
  shows "parseField field lo hi wrap names what \<noteq> Inl Diverges"
  using parseItems_cases [OF assms, of "Split CHR '','' field" wrap names what 0]
  by (auto simp: parseField_def split: sum.splits if_splits)

subsection \<open>Well-formed schedules\<close>

definition mask_in :: "mask \<Rightarrow> nat \<Rightarrow> nat \<Rightarrow> bool" where
  "mask_in m lo hi \<longleftrightarrow> m \<noteq> 0 \<and> (\<forall>i. bit m i \<longrightarrow> lo \<le> i \<and> i \<le> hi)"

definition wf_schedule :: "Schedule \<Rightarrow> bool" where
  "wf_schedule s \<longleftrightarrow>
     mask_in (minutes s) 0 59 \<and> mask_in (hours s) 0 23 \<and> mask_in (doms s) 0 31 \<and>
     mask_in (months s) 0 12 \<and> mask_in (dows s) 0 6 \<and>
     (if hasSeconds s then mask_in (seconds s) 0 59 else seconds s = 0)"

lemma parseField_mask_in:
  assumes "0 \<le> lo" "lo \<le> hi" "hi \<le> 63" "parseField field lo hi wrap names what = Inr b"
    and "int n = (if 0 < wrap then min hi (wrap - 1) else hi)"
  shows "mask_in b 0 n"
proof -
  have "i \<le> n" if "bit_bound hi wrap i" for i
    using that assms(5) by (auto simp: bit_bound_def split: if_splits)
  with parseField_bounded [OF assms(1-4)] show ?thesis by (auto simp: mask_in_def)
qed

lemma parseField_masks:
  "parseField f 0 59 0 ns what = Inr b \<Longrightarrow> mask_in b 0 59"
  "parseField f 0 23 0 ns what = Inr b \<Longrightarrow> mask_in b 0 23"
  "parseField f 1 31 0 ns what = Inr b \<Longrightarrow> mask_in b 0 31"
  "parseField f 1 12 0 ns what = Inr b \<Longrightarrow> mask_in b 0 12"
  "parseField f 0 7 7 ns what = Inr b \<Longrightarrow> mask_in b 0 6"
  by (erule parseField_mask_in [rotated 3]; simp)+

lemma parseRest_wf:
  assumes "parseRest flds secs hs = Inr s"
    and "if hs then mask_in secs 0 59 else secs = 0"
  shows "wf_schedule s"
proof -
  obtain mi h d mo w where
    "parseField (flds ! 0) 0 59 0 [] ''minute'' = Inr mi" "parseField (flds ! 1) 0 23 0 [] ''hour'' = Inr h"
    "parseField (flds ! 2) 1 31 0 [] ''day-of-month'' = Inr d"
    "parseField (flds ! 3) 1 12 0 monthNames ''month'' = Inr mo"
    "parseField (flds ! 4) 0 7 7 dowNames ''day-of-week'' = Inr w"
    "minutes s = mi" "hours s = h" "doms s = d" "months s = mo" "dows s = w"
    "seconds s = secs" "hasSeconds s = hs"
    using assms(1) by (auto simp: parseRest_def split: sum.splits)
  then show ?thesis using assms(2) parseField_masks by (auto simp: wf_schedule_def)
qed

lemma Parse_wf: "Parse expr = Inr s \<Longrightarrow> wf_schedule s"
  by (auto simp: Parse_def Let_def split: if_splits sum.splits
      elim!: parseRest_wf dest: parseField_masks)

text \<open>A step is small when adding it to a value of a field cannot overflow; an expression has small steps
  when all items of all its fields have.\<close>

definition small_step :: "string \<Rightarrow> bool" where
  "small_step part \<longleftrightarrow> (case splitStep part [] of Inl _ \<Rightarrow> True | Inr (rng, step, stepped) \<Rightarrow> step \<le> max_int64 - 59)"

definition small_steps :: "string \<Rightarrow> bool" where
  "small_steps expr \<longleftrightarrow>
     list_all (\<lambda>field. list_all small_step (Split CHR '','' field)) (Fields (expandMacro (TrimSpace (ToLower expr))))"

lemma small_stepD: "small_step part \<Longrightarrow> splitStep part what = Inr (rng, step, stepped) \<Longrightarrow> step \<le> max_int64 - 59"
  by (auto simp: small_step_def splitStep_def split: option.splits if_splits)

lemma parseItem_range:
  assumes "parseItem part lo hi wrap names what bits = Inr b" "lo \<le> hi"
  obtains frm to step rng stepped where "splitStep part what = Inr (rng, step, stepped)" "lo \<le> frm" "frm \<le> to" "to \<le> hi"
    "1 \<le> step" "markLoop frm to step wrap bits = Some b"
proof -
  obtain rng step stepped frm to where p: "splitStep part what = Inr (rng, step, stepped)"
    "itemRange rng part stepped lo hi names what = Inr (frm, to)" "markLoop frm to step wrap bits = Some b"
    using assms(1) by (auto simp: parseItem_def split: if_splits sum.splits prod.splits option.splits)
  from that [OF p(1) _ _ _ _ p(3)] itemRange_bounds [OF p(2) assms(2)] splitStep_step [OF p(1)] show thesis by blast
qed

text \<open>An accepted item marks the value it begins with, and none below the field's minimum unless its step is so
  large that the loop counter overflows.\<close>

lemma parseItem_first:
  assumes "parseItem part lo hi 0 names what bits = Inr b" "0 \<le> lo" "lo \<le> hi" "hi \<le> 63"
  shows "\<exists>i. bit b i \<and> lo \<le> int i \<and> int i \<le> hi"
proof -
  from assms(1,3) obtain frm to step where f: "lo \<le> frm" "frm \<le> to" "to \<le> hi" "markLoop frm to step 0 bits = Some b"
    by (rule parseItem_range) blast
  then have "markLoop (wrap64 (frm + step)) to step 0 (bits OR shl1 frm) = Some b" by (simp add: markLoop_go bitIndex_def)
  from markLoop_marks(1) [OF this] have "bit b (nat frm)" using f(1-3) assms(2-4) by (auto simp: bit_or_iff bit_shl1 dest!: spec [of _ "nat frm"])
  with f assms(2) show ?thesis by (intro exI [of _ "nat frm"]) simp
qed

lemma parseItem_low:
  assumes "parseItem part lo hi 0 names what bits = Inr b" "lo \<le> hi" "0 \<le> lo" "hi \<le> 59" "small_step part" "bit b i"
  shows "bit bits i \<or> lo \<le> int i"
proof -
  from assms(1,2) obtain frm to step rng stepped where f: "splitStep part what = Inr (rng, step, stepped)" "lo \<le> frm" "to \<le> hi" "1 \<le> step"
    "markLoop frm to step 0 bits = Some b" by (rule parseItem_range) blast
  have "to + step \<le> max_int64" "min_int64 \<le> frm" using small_stepD [OF assms(5) f(1)] f assms(3,4) by (auto simp: min_int64_def)
  from markLoop_exact [OF f(4) this, of 0 bits] f(2,5) assms(6) show ?thesis
    by (auto simp: bit_shl1 bitIndex_def stepped_to_def)
qed

lemma parseItems_keep:
  "parseItems parts lo hi wrap names what bits = Inr b \<Longrightarrow> lo \<le> hi \<Longrightarrow> bit bits i \<Longrightarrow> bit b i"
proof (induction parts arbitrary: bits)
  case (Cons part parts)
  then obtain b' where b': "parseItem part lo hi wrap names what bits = Inr b'" "parseItems parts lo hi wrap names what b' = Inr b"
    by (auto split: sum.splits)
  from b'(1) Cons.prems(2) have "bit b' i"
    by (rule parseItem_range) (use markLoop_marks(1) Cons.prems(3) in blast)
  with Cons.IH [OF b'(2) Cons.prems(2)] show ?case by simp
qed simp

lemma parseItems_low:
  assumes "lo \<le> hi" "0 \<le> lo" "hi \<le> 59"
  shows "parseItems parts lo hi 0 names what bits = Inr b \<Longrightarrow> list_all small_step parts \<Longrightarrow> bit b i \<Longrightarrow> bit bits i \<or> lo \<le> int i"
proof (induction parts arbitrary: bits)
  case (Cons part parts)
  then obtain b' where b': "parseItem part lo hi 0 names what bits = Inr b'" "parseItems parts lo hi 0 names what b' = Inr b"
    by (auto split: sum.splits)
  with Cons parseItem_low [OF b'(1) assms] show ?case by auto
qed simp

text \<open>A day-of-month or month mask: it matches some day or month, and the bit 0, which is no day and no month,
  only when a step overflows.\<close>

definition mask_from_1 :: "mask \<Rightarrow> nat \<Rightarrow> bool \<Rightarrow> bool" where
  "mask_from_1 m hi small \<longleftrightarrow> (\<exists>i \<in> {1..hi}. bit m i) \<and> (small \<longrightarrow> mask_in m 1 hi)"

lemma parseField_from_1:
  assumes "parseField field 1 hi 0 names what = Inr b" "1 \<le> hi" "hi \<le> 59"
  shows "mask_from_1 b (nat hi) (list_all small_step (Split CHR '','' field))"
proof -
  have c: "parseItems (Split CHR '','' field) 1 hi 0 names what 0 = Inr b" "b \<noteq> 0"
    using assms(1) by (auto simp: parseField_def split: sum.splits if_splits)
  then obtain part parts b' where p: "Split CHR '','' field = part # parts" "parseItem part 1 hi 0 names what 0 = Inr b'"
    "parseItems parts 1 hi 0 names what b' = Inr b"
    by (cases "Split CHR '','' field") (auto split: sum.splits)
  from parseItem_first [OF p(2)] assms obtain i where "bit b' i" "1 \<le> i" "int i \<le> hi" by auto
  with parseItems_keep [OF p(3)] assms have "\<exists>i \<in> {1..nat hi}. bit b i" by force
  moreover have "i \<le> nat hi" if "bit b i" for i
    using parseField_bounded(2) [OF _ assms(2) _ assms(1)] assms(3) that by (auto simp: bit_bound_def)
  ultimately show ?thesis
    using parseItems_low [OF assms(2) _ assms(3) c(1)] c(2) by (auto simp: mask_from_1_def mask_in_def)
qed

lemma parseRest_from_1:
  assumes "parseRest flds secs hs = Inr s"
  shows "mask_from_1 (doms s) 31 (list_all small_step (Split CHR '','' (flds ! 2)))"
    and "mask_from_1 (months s) 12 (list_all small_step (Split CHR '','' (flds ! 3)))"
proof -
  have "parseField (flds ! 2) 1 31 0 [] ''day-of-month'' = Inr (doms s)"
      "parseField (flds ! 3) 1 12 0 monthNames ''month'' = Inr (months s)"
    using assms by (auto simp: parseRest_def split: sum.splits)
  from this [THEN parseField_from_1]
  show "mask_from_1 (doms s) 31 (list_all small_step (Split CHR '','' (flds ! 2)))"
    and "mask_from_1 (months s) 12 (list_all small_step (Split CHR '','' (flds ! 3)))" by simp_all
qed

lemma mask_from_1_mono: "mask_from_1 m hi p \<Longrightarrow> (q \<Longrightarrow> p) \<Longrightarrow> mask_from_1 m hi q"
  by (auto simp: mask_from_1_def)

lemma Parse_from_1:
  assumes "Parse expr = Inr s"
  shows "mask_from_1 (doms s) 31 (small_steps expr) \<and> mask_from_1 (months s) 12 (small_steps expr)"
proof -
  let ?flds = "Fields (expandMacro (TrimSpace (ToLower expr)))"
  obtain flds secs hs where r: "parseRest flds secs hs = Inr s" "length flds = 5" "set flds \<subseteq> set ?flds"
  proof (cases "length ?flds = 6")
    case True
    then have "length (tl ?flds) = 5" "set (tl ?flds) \<subseteq> set ?flds" by (auto dest: list.set_sel(2) [rotated])
    with True assms that show ?thesis by (auto simp: Parse_def Let_def split: if_splits sum.splits)
  qed (use assms that in \<open>auto simp: Parse_def Let_def split: if_splits sum.splits\<close>)
  then have "flds ! 2 \<in> set ?flds" "flds ! 3 \<in> set ?flds" by (auto intro!: subsetD [OF r(3)])
  with parseRest_from_1 [OF r(1)] show ?thesis
    by (auto simp: small_steps_def list_all_iff intro: mask_from_1_mono)
qed

lemma parseField_error:
  "parseField f 0 59 w ns what = Inl e \<Longrightarrow> e \<noteq> Diverges"
  "parseField f 0 23 w ns what = Inl e \<Longrightarrow> e \<noteq> Diverges"
  "parseField f 1 31 w ns what = Inl e \<Longrightarrow> e \<noteq> Diverges"
  "parseField f 1 12 w ns what = Inl e \<Longrightarrow> e \<noteq> Diverges"
  "parseField f 0 7 w ns what = Inl e \<Longrightarrow> e \<noteq> Diverges"
  by (use parseField_returns [of _ _ f w ns what] in force)+

lemma parseRest_error: "parseRest flds secs hs = Inl e \<Longrightarrow> e \<noteq> Diverges"
  by (auto simp: parseRest_def dest: parseField_error split: sum.splits)

lemma Parse_error: "Parse expr = Inl e \<Longrightarrow> e \<noteq> Diverges"
  by (auto simp: Parse_def Let_def dest: parseField_error parseRest_error
      split: sum.splits if_splits)

subsection \<open>The language of fields: abstract syntax, printing, meaning\<close>

text \<open>An item is a range with an optional step.  Values are written as tokens (a number or a
  name), \<open>tok_ok\<close> says that a token has none of the separators.\<close>

datatype range = Star | Single string | Between string string

type_synonym item = "range \<times> int option"

definition tok_val :: "(string \<times> int) list \<Rightarrow> string \<Rightarrow> int option" where
  "tok_val names a = (case parseValue a names [] of Inl _ \<Rightarrow> None | Inr v \<Rightarrow> Some v)"

definition tok_ok :: "string \<Rightarrow> bool" where
  "tok_ok a \<longleftrightarrow> (\<forall>c \<in> set a. c \<notin> {CHR '','', CHR ''/'', CHR ''-'', CHR ''*'', CHR ''@''}
     \<and> \<not> is_space c \<and> lower_char c = c)"

fun print_range :: "range \<Rightarrow> string" where
  "print_range Star = ''*''"
| "print_range (Single a) = a"
| "print_range (Between a b) = a @ CHR ''-'' # b"

fun print_item :: "item \<Rightarrow> string" where
  "print_item (r, None) = print_range r"
| "print_item (r, Some k) = print_range r @ CHR ''/'' # format_nat k"

definition print_field :: "item list \<Rightarrow> string" where
  "print_field its = join CHR '','' (map print_item its)"

definition tok_in :: "int \<Rightarrow> int \<Rightarrow> (string \<times> int) list \<Rightarrow> string \<Rightarrow> bool" where
  "tok_in lo hi names a \<longleftrightarrow> tok_ok a \<and>
     (case tok_val names a of None \<Rightarrow> False | Some v \<Rightarrow> lo \<le> v \<and> v \<le> hi)"

fun range_ok :: "int \<Rightarrow> int \<Rightarrow> (string \<times> int) list \<Rightarrow> range \<Rightarrow> bool" where
  "range_ok lo hi names Star = True"
| "range_ok lo hi names (Single a) = tok_in lo hi names a"
| "range_ok lo hi names (Between a b) = (tok_in lo hi names a \<and> tok_in lo hi names b \<and>
     the (tok_val names a) \<le> the (tok_val names b))"

definition item_ok :: "int \<Rightarrow> int \<Rightarrow> (string \<times> int) list \<Rightarrow> item \<Rightarrow> bool" where
  "item_ok lo hi names it \<longleftrightarrow> range_ok lo hi names (fst it) \<and>
     (case snd it of None \<Rightarrow> True | Some k \<Rightarrow> 1 \<le> k \<and> hi + k \<le> max_int64)"

fun item_span :: "int \<Rightarrow> int \<Rightarrow> (string \<times> int) list \<Rightarrow> item \<Rightarrow> int \<times> int" where
  "item_span lo hi names (Star, st) = (lo, hi)"
| "item_span lo hi names (Single a, st) =
     (the (tok_val names a), if st = None then the (tok_val names a) else hi)"
| "item_span lo hi names (Between a b, st) = (the (tok_val names a), the (tok_val names b))"

text \<open>The values an item stands for: from the start of its span to the end, in steps.\<close>

definition item_values :: "int \<Rightarrow> int \<Rightarrow> (string \<times> int) list \<Rightarrow> item \<Rightarrow> int \<Rightarrow> bool" where
  "item_values lo hi names it w \<longleftrightarrow>
     (let (frm, to) = item_span lo hi names it in
      stepped_to frm to (case snd it of None \<Rightarrow> 1 | Some k \<Rightarrow> k) w)"

text \<open>A mask denotes a list of items: its bits are the values, taken modulo \<open>wrap\<close> when it is set.\<close>

definition denotes :: "mask \<Rightarrow> int \<Rightarrow> int \<Rightarrow> int \<Rightarrow> (string \<times> int) list \<Rightarrow> item list \<Rightarrow> bool" where
  "denotes m lo hi wrap names its \<longleftrightarrow>
     (\<forall>i. bit m i \<longleftrightarrow> (\<exists>it \<in> set its. \<exists>w. item_values lo hi names it w \<and>
        int i = (if 0 < wrap then w mod wrap else w)))"

lemma tok_valD: "tok_val names a = Some v \<Longrightarrow> parseValue a names what = Inr v \<and> a \<noteq> []"
  by (auto simp: tok_val_def parseValue_def split: sum.splits if_splits option.splits)

lemma tok_inD:
  assumes "tok_in lo hi names a"
  obtains v where "tok_val names a = Some v" "\<And>what. parseValue a names what = Inr v" "a \<noteq> []"
    "lo \<le> v" "v \<le> hi" "tok_ok a"
  using assms by (auto simp: tok_in_def dest: tok_valD split: option.splits)

lemma tok_okD: "tok_ok a \<Longrightarrow> c \<in> set a \<Longrightarrow>
  c \<noteq> CHR '','' \<and> c \<noteq> CHR ''/'' \<and> c \<noteq> CHR ''-'' \<and> c \<noteq> CHR ''*'' \<and> c \<noteq> CHR ''@'' \<and> \<not> is_space c \<and> lower_char c = c"
  by (auto simp: tok_ok_def)

lemma tok_ok_hd: "tok_ok a \<Longrightarrow> a \<noteq> [] \<Longrightarrow> hd a \<noteq> CHR ''*''"
  using tok_okD [of a "hd a"] by auto

lemma print_range_clean:
  "range_ok lo hi names r \<Longrightarrow> c \<in> set (print_range r) \<Longrightarrow>
     c \<noteq> CHR '','' \<and> c \<noteq> CHR ''/'' \<and> c \<noteq> CHR ''@'' \<and> \<not> is_space c \<and> lower_char c = c"
  by (cases r) (auto simp: is_space_def lower_char_def elim!: tok_inD dest: tok_okD)

lemma itemRange_print:
  assumes "range_ok lo hi names r"
  shows "itemRange (print_range r) part stepped lo hi names what
    = Inr (item_span lo hi names (r, if stepped then Some k else None))"
proof (cases r)
  case (Single a)
  with assms obtain v where v: "tok_val names a = Some v" "\<And>what. parseValue a names what = Inr v"
    "lo \<le> v" "v \<le> hi" "tok_ok a" by (auto elim: tok_inD)
  then have "CHR ''-'' \<notin> set a" "a \<noteq> ''*''" by (auto dest: tok_okD)
  with v Single show ?thesis by (simp add: itemRange_def go_string)
next
  case (Between a b)
  with assms obtain v where v: "tok_val names a = Some v" "\<And>what. parseValue a names what = Inr v"
    "lo \<le> v" "v \<le> hi" "tok_ok a" by (auto elim: tok_inD)
  from Between assms obtain w where w: "tok_val names b = Some w"
    "\<And>what. parseValue b names what = Inr w" "lo \<le> w" "w \<le> hi" "tok_ok b" by (auto elim: tok_inD)
  have le: "v \<le> w" using assms Between v w by simp
  have "CHR ''-'' \<notin> set a" using v(5) by (auto dest: tok_okD)
  moreover have "a @ CHR ''-'' # b \<noteq> ''*''" by (cases a) auto
  ultimately show ?thesis using v w le Between by (simp add: itemRange_def go_string)
qed (simp add: itemRange_def)

lemma splitStep_print:
  assumes "item_ok lo hi names (r, st)" "0 \<le> hi"
  shows "splitStep (print_item (r, st)) what
    = Inr (print_range r, case st of None \<Rightarrow> 1 | Some k \<Rightarrow> k, st \<noteq> None)"
proof -
  have ns: "CHR ''/'' \<notin> set (print_range r)"
    using print_range_clean [of lo hi names r "CHR ''/''"] assms by (auto simp: item_ok_def)
  show ?thesis
  proof (cases st)
    case (Some k)
    with assms have "1 \<le> k" "is_int64 k" by (auto simp: item_ok_def int64_defs)
    with Some ns show ?thesis by (simp add: splitStep_def go_string)
  qed (use ns in \<open>simp add: splitStep_def go_string\<close>)
qed

lemma print_item_ne: "item_ok lo hi names it \<Longrightarrow> print_item it \<noteq> []"
  by (cases it; cases "snd it"; cases "fst it") (auto simp: item_ok_def elim!: tok_inD)

lemma item_span_bounds:
  "item_ok lo hi names it \<Longrightarrow> lo \<le> hi \<Longrightarrow>
   lo \<le> fst (item_span lo hi names it) \<and> snd (item_span lo hi names it) \<le> hi"
  by (cases it; cases "fst it") (auto simp: item_ok_def elim!: tok_inD)

lemma parseItem_print:
  assumes ok: "item_ok lo hi names it" and b: "0 \<le> lo" "lo \<le> hi" "hi \<le> 63"
  shows "\<exists>b. parseItem (print_item it) lo hi wrap names what bits = Inr b \<and>
    (\<forall>i. bit b i \<longleftrightarrow> bit bits i \<or> (\<exists>w. item_values lo hi names it w \<and> bit (shl1 (bitIndex wrap w)) i))"
proof -
  obtain r st where it: "it = (r, st)" by (cases it)
  define k where "k = (case st of None \<Rightarrow> 1 | Some k \<Rightarrow> k)"
  obtain frm to where sp: "item_span lo hi names it = (frm, to)" by (cases "item_span lo hi names it")
  have k: "1 \<le> k" "hi + k \<le> max_int64"
    using ok it b(3) by (auto simp: k_def item_ok_def max_int64_def split: option.splits)
  have tob: "lo \<le> frm" "to \<le> hi" using item_span_bounds [OF ok b(2)] sp by auto
  then have "to + k \<le> max_int64" "min_int64 \<le> frm" using k b by (auto simp: min_int64_def)
  then obtain m where m: "markLoop frm to k wrap bits = Some m"
    "\<forall>i. bit m i \<longleftrightarrow> bit bits i \<or> (\<exists>w. stepped_to frm to k w \<and> bit (shl1 (bitIndex wrap w)) i)"
    using markLoop_exact [OF k(1), of to frm wrap bits] by blast
  have "itemRange (print_range r) (print_item it) (st \<noteq> None) lo hi names what = Inr (frm, to)"
    using itemRange_print [of lo hi names r _ "st \<noteq> None" what k] ok it sp
    by (cases st) (auto simp: item_ok_def k_def)
  then have "parseItem (print_item it) lo hi wrap names what bits = Inr m"
    using splitStep_print [of lo hi names r st what] ok it b m(1) print_item_ne [OF ok]
    by (simp add: parseItem_def k_def)
  moreover have "item_values lo hi names it w = stepped_to frm to k w" for w
    using it sp by (simp add: item_values_def k_def)
  ultimately show ?thesis using m(2) by auto
qed

lemma parseItems_print:
  assumes "\<forall>it \<in> set its. item_ok lo hi names it" and b: "0 \<le> lo" "lo \<le> hi" "hi \<le> 63"
  shows "\<exists>b. parseItems (map print_item its) lo hi wrap names what bits = Inr b \<and>
    (\<forall>i. bit b i \<longleftrightarrow> bit bits i \<or>
       (\<exists>it \<in> set its. \<exists>w. item_values lo hi names it w \<and> bit (shl1 (bitIndex wrap w)) i))"
  using assms(1)
proof (induction its arbitrary: bits)
  case (Cons it its)
  from Cons.prems have ok: "item_ok lo hi names it" by simp
  obtain m where m: "parseItem (print_item it) lo hi wrap names what bits = Inr m"
    "\<forall>i. bit m i \<longleftrightarrow> bit bits i \<or> (\<exists>w. item_values lo hi names it w \<and> bit (shl1 (bitIndex wrap w)) i)"
    using parseItem_print [OF ok b, of wrap what bits] by blast
  with Cons.IH [of m] Cons.prems show ?case by auto
qed simp

lemma item_values_bounds:
  "item_ok lo hi names it \<Longrightarrow> lo \<le> hi \<Longrightarrow> item_values lo hi names it w \<Longrightarrow> lo \<le> w \<and> w \<le> hi"
  using item_span_bounds [of lo hi names it]
  by (fastforce simp: item_values_def stepped_to_def split: prod.splits option.splits)

lemma bit_bitIndex:
  assumes "0 \<le> w" "w \<le> 63"
  shows "bit (shl1 (bitIndex wrap w)) i \<longleftrightarrow> int i = (if 0 < wrap then w mod wrap else w)"
proof (cases "0 < wrap")
  case True
  then have "0 \<le> w mod wrap" "w mod wrap \<le> w" using assms by (simp_all add: zmod_le_nonneg_dividend)
  moreover have "bitIndex wrap w = w mod wrap" using True assms by (simp add: bitIndex_def goRem_def)
  ultimately show ?thesis using True assms by (auto simp: bit_shl1)
qed (use assms in \<open>auto simp: bit_shl1 bitIndex_def\<close>)

lemma item_values_start: "item_ok lo hi names it \<Longrightarrow> lo \<le> hi \<Longrightarrow> \<exists>w. item_values lo hi names it w"
  by (cases it; cases "fst it"; intro exI [of _ "fst (item_span lo hi names it)"])
    (auto simp: item_values_def stepped_to_def item_ok_def elim!: tok_inD)

text \<open>Every well-formed field is accepted, and its mask has exactly the bits its items mean.\<close>

lemma parseField_print_field:
  assumes its: "\<forall>it \<in> set its. item_ok lo hi names it" "its \<noteq> []"
    and b: "0 \<le> lo" "lo \<le> hi" "hi \<le> 63"
  shows "\<exists>m. parseField (print_field its) lo hi wrap names what = Inr m \<and>
    denotes m lo hi wrap names its"
proof -
  have "Split CHR '','' (print_field its) = map print_item its"
    unfolding print_field_def
  proof (rule Split_join)
    fix x assume "x \<in> set (map print_item its)"
    then obtain r st where x: "x = print_item (r, st)" "(r, st) \<in> set its" by auto
    then have "range_ok lo hi names r" using its(1) by (auto simp: item_ok_def)
    then show "CHR '','' \<notin> set x"
      using x print_range_clean [of lo hi names r "CHR '',''"] format_nat_digits [of "CHR '',''"]
      by (cases st) auto
  qed (use its in simp)
  moreover obtain m where m: "parseItems (map print_item its) lo hi wrap names what 0 = Inr m"
    "\<forall>i. bit m i \<longleftrightarrow> (\<exists>it \<in> set its. \<exists>w. item_values lo hi names it w \<and> bit (shl1 (bitIndex wrap w)) i)"
    using parseItems_print [OF its(1) b, of wrap what 0] by auto
  moreover have d: "denotes m lo hi wrap names its"
    unfolding denotes_def m(2) [rule_format]
    using item_values_bounds [OF _ b(2)] bit_bitIndex its(1) b by (meson order_trans)
  moreover have "m \<noteq> 0"
  proof -
    have "hd its \<in> set its" using its(2) by simp
    then obtain it w where w: "it \<in> set its" "item_values lo hi names it w"
      using its(1) item_values_start [OF _ b(2)] by blast
    then have "0 \<le> w" "w \<le> 63" using item_values_bounds [OF _ b(2)] its(1) b by fastforce+
    then have "bit (shl1 (bitIndex wrap w)) (nat (if 0 < wrap then w mod wrap else w))"
      by (simp add: bit_bitIndex)
    then have "bit m (nat (if 0 < wrap then w mod wrap else w))" using m(2) w by blast
    then show ?thesis by auto
  qed
  ultimately show ?thesis by (simp add: parseField_def)
qed

subsection \<open>Whole expressions\<close>

definition field_ok :: "int \<Rightarrow> int \<Rightarrow> (string \<times> int) list \<Rightarrow> item list \<Rightarrow> bool" where
  "field_ok lo hi names its \<longleftrightarrow> its \<noteq> [] \<and> (\<forall>it \<in> set its. item_ok lo hi names it)"

text \<open>The five fields minute, hour, day of month, month, day of week.\<close>

fun fields_ok :: "item list list \<Rightarrow> bool" where
  "fields_ok [mi, h, d, mo, w] \<longleftrightarrow> field_ok 0 59 [] mi \<and> field_ok 0 23 [] h \<and> field_ok 1 31 [] d \<and>
     field_ok 1 12 monthNames mo \<and> field_ok 0 7 dowNames w"
| "fields_ok _ = False"

definition starts_star :: "item list \<Rightarrow> bool" where
  "starts_star its \<longleftrightarrow> fst (hd its) = Star"

text \<open>What a schedule says of the five fields.\<close>

fun schedule_denotes :: "Schedule \<Rightarrow> item list list \<Rightarrow> bool" where
  "schedule_denotes s [mi, h, d, mo, w] \<longleftrightarrow>
     denotes (minutes s) 0 59 0 [] mi \<and> denotes (hours s) 0 23 0 [] h \<and>
     denotes (doms s) 1 31 0 [] d \<and> denotes (months s) 1 12 0 monthNames mo \<and>
     denotes (dows s) 0 7 7 dowNames w \<and>
     domStar s = starts_star d \<and> dowStar s = starts_star w"
| "schedule_denotes s _ = False"

lemma print_item_clean:
  assumes "item_ok lo hi names it" "c \<in> set (print_item it)"
  shows "c \<noteq> CHR ''@'' \<and> \<not> is_space c \<and> lower_char c = c"
proof -
  obtain r st where it: "it = (r, st)" by (cases it)
  have r: "range_ok lo hi names r" using assms it by (simp add: item_ok_def)
  have dig: "c \<noteq> CHR ''@'' \<and> \<not> is_space c \<and> lower_char c = c" if "is_digit c"
    using that by (auto simp: is_digit_def is_space_def lower_char_def Let_def)
  show ?thesis
    using assms(2) it print_range_clean [OF r, of c] format_nat_digits [of c] dig
    by (cases st) (auto simp: is_space_def lower_char_def)
qed

lemma print_field_clean:
  assumes "field_ok lo hi names its"
  shows "print_field its \<noteq> []"
    and "c \<in> set (print_field its) \<Longrightarrow> c \<noteq> CHR ''@'' \<and> \<not> is_space c \<and> lower_char c = c"
proof -
  have ok: "\<forall>it \<in> set its. item_ok lo hi names it" "its \<noteq> []" using assms by (auto simp: field_ok_def)
  then show "print_field its \<noteq> []"
    unfolding print_field_def by (intro join_ne) (auto simp: last_map dest: print_item_ne)
  assume "c \<in> set (print_field its)"
  then consider "c = CHR '',''" | it where "it \<in> set its" "c \<in> set (print_item it)"
    using set_join [of c "CHR '',''" "map print_item its"] by (auto simp: print_field_def)
  then show "c \<noteq> CHR ''@'' \<and> \<not> is_space c \<and> lower_char c = c"
  proof cases
    case 2
    with ok show ?thesis using print_item_clean by blast
  qed (simp add: is_space_def lower_char_def)
qed

lemma print_field_star:
  assumes "field_ok lo hi names its"
  shows "HasPrefix (print_field its) ''*'' \<longleftrightarrow> starts_star its"
proof -
  obtain r st its' where its: "its = (r, st) # its'"
    using assms by (cases its) (auto simp: field_ok_def)
  have ok: "item_ok lo hi names (r, st)" using assms its by (simp add: field_ok_def)
  have "hd (print_field its) = hd (print_item (r, st))"
    using print_item_ne [OF ok] by (simp add: print_field_def its hd_join)
  also have "\<dots> = CHR ''*'' \<longleftrightarrow> r = Star"
    using ok by (cases st; cases r)
      (auto simp: item_ok_def elim!: tok_inD dest: tok_ok_hd)
  finally show ?thesis
    using print_field_clean(1) [OF assms] its
    by (cases "print_field its") (auto simp: HasPrefix_def starts_star_def)
qed

lemma parseRest_print:
  assumes "fields_ok fs"
  shows "\<exists>s. parseRest (map print_field fs) secs hs = Inr s \<and> schedule_denotes s fs \<and>
    seconds s = secs \<and> hasSeconds s = hs"
proof -
  obtain mi h d mo w where fs: "fs = [mi, h, d, mo, w]"
    using assms by (cases fs rule: fields_ok.cases) auto
  have ok: "field_ok 0 59 [] mi" "field_ok 0 23 [] h" "field_ok 1 31 [] d"
    "field_ok 1 12 monthNames mo" "field_ok 0 7 dowNames w"
    using assms fs by simp_all
  from ok obtain m1 m2 m3 m4 m5 where
    "parseField (print_field mi) 0 59 0 [] ''minute'' = Inr m1" "denotes m1 0 59 0 [] mi"
    "parseField (print_field h) 0 23 0 [] ''hour'' = Inr m2" "denotes m2 0 23 0 [] h"
    "parseField (print_field d) 1 31 0 [] ''day-of-month'' = Inr m3" "denotes m3 1 31 0 [] d"
    "parseField (print_field mo) 1 12 0 monthNames ''month'' = Inr m4" "denotes m4 1 12 0 monthNames mo"
    "parseField (print_field w) 0 7 7 dowNames ''day-of-week'' = Inr m5" "denotes m5 0 7 7 dowNames w"
    unfolding field_ok_def
    using parseField_print_field [of mi 0 59 "[]" 0 "''minute''"]
      parseField_print_field [of h 0 23 "[]" 0 "''hour''"]
      parseField_print_field [of d 1 31 "[]" 0 "''day-of-month''"]
      parseField_print_field [of mo 1 12 monthNames 0 "''month''"]
      parseField_print_field [of w 0 7 dowNames 7 "''day-of-week''"] by auto
  then show ?thesis
    using print_field_star [OF ok(3)] print_field_star [OF ok(5)]
    by (simp add: parseRest_def fs numeral_eq_Suc)
qed

definition clean_word :: "string \<Rightarrow> bool" where
  "clean_word x \<longleftrightarrow> x \<noteq> [] \<and> (\<forall>c \<in> set x. c \<noteq> CHR ''@'' \<and> \<not> is_space c \<and> lower_char c = c)"

lemma Parse_words:
  assumes w: "\<forall>x \<in> set ws. clean_word x" and n: "length ws = 5 \<or> length ws = 6"
  shows "Parse (join CHR '' '' ws) =
    (if length ws = 6
     then (case parseField (ws ! 0) 0 59 0 [] ''seconds'' of
             Inl e \<Rightarrow> Inl e | Inr secs \<Rightarrow> parseRest (tl ws) secs True)
     else parseRest ws 0 False)"
proof -
  let ?e = "join CHR '' '' ws"
  have ne: "ws \<noteq> []" using n by auto
  have sp: "is_space CHR '' ''" "lower_char CHR '' '' = CHR '' ''"
    by (simp_all add: is_space_def lower_char_def)
  have ene: "?e \<noteq> []" using w ne by (intro join_ne) (auto simp: clean_word_def)
  have low: "ToLower ?e = ?e"
  proof (rule ToLower_id)
    fix c assume "c \<in> set ?e"
    then show "lower_char c = c"
      using set_join [of c "CHR '' ''" ws] w sp(2) by (auto simp: clean_word_def)
  qed
  have hdw: "hd ws \<in> set ws" "last ws \<in> set ws" using ne by auto
  then have "hd ?e = hd (hd ws)" "last ?e = last (last ws)"
    using w ne hd_join [of "hd ws" "CHR '' ''" "tl ws"] last_join [of ws "CHR '' ''"]
    by (auto simp: clean_word_def)
  then have trim: "TrimSpace ?e = ?e"
    using w hdw ene by (intro TrimSpace_id) (auto simp: clean_word_def)
  have noat: "CHR ''@'' \<notin> set ?e"
    using set_join [of "CHR ''@''" "CHR '' ''" ws] w by (auto simp: clean_word_def)
  have mac: "expandMacro ?e = ?e" using noat unfolding expandMacro_def by auto
  have pre: "\<not> HasPrefix ?e ''@''" using noat ene by (cases ?e) (auto simp: HasPrefix_def)
  have "Fields ?e = ws" using sp(1) w by (intro Fields_join) (auto simp: clean_word_def)
  then show ?thesis using ene low trim mac pre n by (auto simp: Parse_def Let_def)
qed

text \<open>The text of an expression: the fields separated by blanks, with or without seconds.\<close>

fun print_expr :: "item list option \<Rightarrow> item list list \<Rightarrow> string" where
  "print_expr None fs = join CHR '' '' (map print_field fs)"
| "print_expr (Some sec) fs = join CHR '' '' (map print_field (sec # fs))"

fun secs_ok :: "item list option \<Rightarrow> bool" where
  "secs_ok None = True"
| "secs_ok (Some sec) = field_ok 0 59 [] sec"

fun secs_denotes :: "Schedule \<Rightarrow> item list option \<Rightarrow> bool" where
  "secs_denotes s None = (\<not> hasSeconds s \<and> seconds s = 0)"
| "secs_denotes s (Some sec) = (hasSeconds s \<and> denotes (seconds s) 0 59 0 [] sec)"

lemma fields_ok_clean:
  "fields_ok fs \<Longrightarrow> length fs = 5 \<and> (\<forall>x \<in> set (map print_field fs). clean_word x)"
  by (cases fs rule: fields_ok.cases) (auto simp: clean_word_def dest: print_field_clean)

lemma Parse_print_expr:
  assumes "secs_ok sec" "fields_ok fs"
  shows "\<exists>s. Parse (print_expr sec fs) = Inr s \<and> schedule_denotes s fs \<and> secs_denotes s sec"
proof (cases sec)
  case None
  then show ?thesis
    using Parse_words [of "map print_field fs"] fields_ok_clean [OF assms(2)]
      parseRest_print [OF assms(2), of 0 False] by auto
next
  case (Some its)
  with assms(1) have ok: "field_ok 0 59 [] its" by simp
  obtain m where m: "parseField (print_field its) 0 59 0 [] ''seconds'' = Inr m" "denotes m 0 59 0 [] its"
    using parseField_print_field [of its 0 59 "[]" 0 "''seconds''"] ok by (auto simp: field_ok_def)
  have "clean_word (print_field its)"
    using print_field_clean [OF ok] by (auto simp: clean_word_def)
  then have "Parse (print_expr sec fs) = parseRest (map print_field fs) m True"
    using Parse_words [of "map print_field (its # fs)"] fields_ok_clean [OF assms(2)] m(1) Some by simp
  with parseRest_print [OF assms(2), of m True] m(2) Some show ?thesis by auto
qed

subsection \<open>Properties of the parser\<close>

text \<open>C23. Every well-formed cron expression is accepted and means what its fields say: the text
  of five fields, or of six with leading seconds, built from stars, values, names, ranges, lists and
  steps parses to a schedule whose masks have exactly the bits those items denote (day of week
  modulo 7), and whose star flags say which day fields begin with a star.\<close>

theorem Parse_print:
  assumes "secs_ok sec" "fields_ok fs"
  shows "\<exists>s. Parse (print_expr sec fs) = Inr s \<and> schedule_denotes s fs \<and> secs_denotes s sec"
  using assms by (rule Parse_print_expr)

definition example_fields :: "item list list" where
  "example_fields = [[(Single ''5'', None), (Single ''35'', None)], [(Between ''9'' ''17'', None)],
     [(Star, None)], [(Between ''jan'' ''mar'', None)], [(Between ''mon'' ''fri'', Some 2)]]"

theorem Parse_print_witness:
  "secs_ok (Some [(Star, Some 15)]) \<and> fields_ok example_fields \<and>
   (\<exists>s. Parse (print_expr (Some [(Star, Some 15)]) example_fields) = Inr s \<and>
     schedule_denotes s example_fields \<and> secs_denotes s (Some [(Star, Some 15)]))"
proof -
  have h: "secs_ok (Some [(Star, Some 15)])" "fields_ok example_fields" by code_simp+
  then show ?thesis using Parse_print [OF h] by blast
qed

text \<open>C24. Whatever the parser accepts is a schedule within the bounds of its fields: every mask is non-empty,
  the minute, hour and day-of-week masks have only bits of their fields (0 to 59, 0 to 23, 0 to 6), and
  the seconds mask is as the minute mask, or empty when the expression has no seconds field.  The
  day-of-month and month masks contain a day from 1 to 31 and a month from 1 to 12 and nothing above; if
  no step is so large that adding it to a value overflows, they have no other bits.  A step that does
  overflow can also set bit 0, as \<open>Parse_step_overflow_dom\<close> shows.\<close>

theorem Parse_wf_schedule:
  assumes "Parse expr = Inr s"
  shows "wf_schedule s \<and> mask_from_1 (doms s) 31 (small_steps expr) \<and> mask_from_1 (months s) 12 (small_steps expr)"
  using assms Parse_wf Parse_from_1 by blast

theorem Parse_wf_schedule_witness:
  "\<exists>s. Parse ''*/15 9-17 1-7 * mon-fri'' = Inr s \<and> wf_schedule s \<and> mask_in (doms s) 1 31 \<and> mask_in (months s) 1 12"
proof -
  have p: "Parse ''*/15 9-17 1-7 * mon-fri'' = Inr \<lparr>seconds = 0, minutes = 35185445863425, hours = 261632,
    doms = 254, months = 8190, dows = 62, domStar = False, dowStar = False, hasSeconds = False\<rparr>"
    by code_simp
  have "small_steps ''*/15 9-17 1-7 * mon-fri''" by code_simp
  with Parse_wf_schedule [OF p] p show ?thesis by (simp add: mask_from_1_def)
qed

text \<open>C27. Parsing always terminates, on every input string: the marking loop ends even for
  steps so large that the loop counter overflows.\<close>

theorem Parse_terminates: "Parse expr \<noteq> Inl Diverges"
  using Parse_error by blast

text \<open>A step near the largest 64-bit integer makes the loop counter overflow: the field
  59/9223372036854775807, which should match minute 59 only, matches every odd minute.\<close>

theorem parseField_step_overflow:
  "\<exists>m. parseField ''59/9223372036854775807'' 0 59 0 [] ''minute'' = Inr m \<and>
     (\<forall>i. bit m i \<longleftrightarrow> i < 60 \<and> odd i)"
proof -
  have p: "parseField ''59/9223372036854775807'' 0 59 0 [] ''minute'' = Inr 768614336404564650"
    by code_simp
  have "list_all (\<lambda>i. bit (768614336404564650 :: mask) i = (i < 60 \<and> odd i)) [0..<64]" by code_simp
  then have "bit (768614336404564650 :: mask) i \<longleftrightarrow> i < 60 \<and> odd i" for i
    using bit_imp_le_length [of "768614336404564650 :: mask" i] by (cases "i < 64") (auto simp: list_all_iff)
  with p show ?thesis by blast
qed

text \<open>In the same way a day-of-month field accepts a step that marks the days 30, 28 and so on down to the
  day 0.\<close>

theorem Parse_step_overflow_dom:
  "\<exists>s. Parse ''0 0 30/9223372036854775807 * *'' = Inr s \<and> bit (doms s) 0"
proof -
  have "case Parse ''0 0 30/9223372036854775807 * *'' of Inl _ \<Rightarrow> False | Inr s \<Rightarrow> bit (doms s) 0" by code_simp
  then show ?thesis by (auto split: sum.splits)
qed

end
