(* ===== verification/Cron_Schedule.thy ===== *)
theory Cron_Schedule
  imports Cron_Parser GoTime
begin

section \<open>Fire times: internal/cron/schedule.go\<close>

text \<open>
  \<open>matches\<close> decides whether a schedule fires at an instant, \<open>Next\<close> searches for the first fire
  after an instant, \<open>NextAfter\<close> parses the expression and the time zone first.  The search is the
  recursive function \<open>nextLoop\<close>, whose measure is the distance to the limit.

  The specification is \<open>first_match\<close>: the least instant on the grid of whole minutes (or whole
  seconds) that matches.  \<open>Next_first_match\<close> proves it of every schedule without seconds in every
  zone, and of every schedule with seconds in the zones whose offset is a whole number of hours
  (\<open>hour_aligned\<close>): only there does \<open>Truncate(time.Hour)\<close> stop at a local hour.
\<close>

definition has_bit :: "mask \<Rightarrow> int \<Rightarrow> bool" where
  "has_bit m i \<longleftrightarrow> m AND shl1 i \<noteq> 0"

definition matches :: "Schedule \<Rightarrow> location \<Rightarrow> instant \<Rightarrow> bool" where
  "matches s loc t \<longleftrightarrow>
     (if \<not> has_bit (months s) (month_of loc t) then False
      else if \<not> has_bit (hours s) (hour_of loc t) then False
      else if \<not> has_bit (minutes s) (minute_of loc t) then False
      else if hasSeconds s \<and> \<not> has_bit (seconds s) (second_of loc t) then False
      else
        let domOK = has_bit (doms s) (day_of loc t);
            dowOK = has_bit (dows s) (weekday_of loc t)
        in if domStar s \<and> dowStar s then True
           else if domStar s then dowOK
           else if dowStar s then domOK
           else domOK \<or> dowOK)"

text \<open>Where the search goes from an instant that does not match.\<close>

definition advance :: "Schedule \<Rightarrow> location \<Rightarrow> instant \<Rightarrow> instant" where
  "advance s loc t =
     (if hasSeconds s then
        if \<not> has_bit (hours s) (hour_of loc t) then Truncate t Hour + Hour
        else if \<not> has_bit (minutes s) (minute_of loc t) then Truncate t Minute + Minute
        else t + Second
      else t + Minute)"

lemma advance_gt: "t < advance s loc t"
  using Truncate_gt [of Hour t] Truncate_gt [of Minute t] by (simp add: advance_def)

function nextLoop :: "Schedule \<Rightarrow> location \<Rightarrow> instant \<Rightarrow> instant \<Rightarrow> instant option" where
  "nextLoop s loc limit t =
     (if t < limit then
        if matches s loc t then Some t else nextLoop s loc limit (advance s loc t)
      else None)"
  by pat_completeness auto
termination
  by (relation "measure (\<lambda>(s, loc, limit, t). nat (limit - t))") (simp_all add: advance_gt)

declare nextLoop.simps [simp del]

definition firstTry :: "Schedule \<Rightarrow> instant \<Rightarrow> instant" where
  "firstTry s frm = (if hasSeconds s then Truncate frm Second + Second else Truncate frm Minute + Minute)"

definition Next :: "Schedule \<Rightarrow> location \<Rightarrow> instant \<Rightarrow> instant option" where
  "Next s loc frm = nextLoop s loc (AddYears loc frm 4) (firstTry s frm)"

text \<open>The tz database is an argument: \<open>tzdb name\<close> is the location \<open>time.LoadLocation(name)\<close> returns,
  \<open>None\<close> its error.\<close>

type_synonym tzdb = "string \<Rightarrow> location option"

definition NextAfter :: "tzdb \<Rightarrow> string \<Rightarrow> string \<Rightarrow> instant \<Rightarrow> cron_error + instant" where
  "NextAfter tzdb expr tz now =
     (case Parse expr of
        Inl e \<Rightarrow> Inl e
      | Inr s \<Rightarrow>
          (case (if tz \<noteq> [] then tzdb tz else Some UTC) of
             None \<Rightarrow> Inl (UnknownTimezone tz)
           | Some loc \<Rightarrow>
               (case Next s loc now of
                  None \<Rightarrow> Inl (NoFireTime expr)
                | Some nxt \<Rightarrow> Inr nxt)))"

subsection \<open>Masks and fields\<close>

lemma has_bit_iff: "has_bit m i \<longleftrightarrow> 0 \<le> i \<and> bit m (nat i)"
proof
  assume "has_bit m i"
  then obtain j where "bit (m AND shl1 i) j"
    unfolding has_bit_def by (metis bit_eq_iff bit_0_eq bot_apply bot_bool_def)
  then show "0 \<le> i \<and> bit m (nat i)" by (auto simp: bit_and_iff bit_shl1)
next
  assume "0 \<le> i \<and> bit m (nat i)"
  moreover then have "nat i < 64" using bit_imp_le_length by fastforce
  ultimately have "bit (m AND shl1 i) (nat i)" by (auto simp: bit_and_iff bit_shl1)
  then show "has_bit m i" unfolding has_bit_def by auto
qed

subsection \<open>The grid of candidate instants\<close>

definition unit_of :: "Schedule \<Rightarrow> duration" where
  "unit_of s = (if hasSeconds s then Second else Minute)"

definition on_grid :: "Schedule \<Rightarrow> instant \<Rightarrow> bool" where
  "on_grid s t \<longleftrightarrow> t mod unit_of s = 0"

lemma unit_pos [simp]: "0 < unit_of s"
  by (simp add: unit_of_def)

lemma Truncate_units:
  "Truncate t Second = t - t mod Second" "Truncate t Minute = t - t mod Minute"
  "Truncate t Hour = t - t mod Hour"
  by (simp_all add: Truncate_dvd mod_0_imp_dvd zero_time_mod)

lemma firstTry_eq: "firstTry s frm = frm - frm mod unit_of s + unit_of s"
  by (simp add: firstTry_def unit_of_def Truncate_units)

lemma firstTry_grid: "on_grid s (firstTry s frm)"
  by (simp add: on_grid_def firstTry_eq minus_mod_eq_mult_div)

lemma firstTry_gt: "frm < firstTry s frm"
  using pos_mod_bound [OF unit_pos, of frm s] by (simp add: firstTry_eq)



subsection \<open>Zones with whole-hour offsets\<close>

definition hour_aligned :: "location \<Rightarrow> bool" where
  "hour_aligned loc \<longleftrightarrow> (\<forall>u. loc u mod 3600 = 0 \<and> loc u = loc (u - u mod 3600))"

lemma hour_aligned_UTC [simp]: "hour_aligned UTC"
  by (simp add: hour_aligned_def UTC_def)


lemma unix_div_60: "unix t div 60 = t div Minute"
  by (simp add: unix_def zdiv_zmult2_eq [symmetric])

lemma hour_of_alt: "hour_of loc t = local_secs loc t div 3600 mod 24"
  using zmod_zmult2_eq [of 24 "local_secs loc t" 3600] by (simp add: hour_of_def)

lemma minute_of_alt: "minute_of loc t = local_secs loc t div 60 mod 60"
  using zmod_zmult2_eq [of 60 "local_secs loc t" 60] by (simp add: minute_of_def)






subsection \<open>The search finds the first match\<close>



lemma advance_grid: "on_grid s t \<Longrightarrow> on_grid s (advance s loc t)"
proof -
  have "Truncate t Hour + Hour = Second * (3600 * (t div Hour) + 3600)"
    and "Truncate t Minute + Minute = Second * (60 * (t div Minute) + 60)"
    by (simp_all add: Truncate_units minus_mod_eq_mult_div)
  then show "on_grid s t \<Longrightarrow> on_grid s (advance s loc t)"
    by (cases "hasSeconds s") (simp_all add: on_grid_def unit_of_def advance_def)
qed



text \<open>In any zone, whatever \<open>Next\<close> returns is a later matching instant before the limit.\<close>

lemma nextLoop_sound:
  "nextLoop s loc limit t = Some r \<Longrightarrow> on_grid s t \<Longrightarrow>
     t \<le> r \<and> r < limit \<and> on_grid s r \<and> matches s loc r"
proof (induction s loc limit t rule: nextLoop.induct)
  case (1 s loc limit t)
  then show ?case
    using advance_grid [of s t loc] advance_gt [of t s loc]
    by (auto simp: nextLoop.simps [of s loc limit t] split: if_splits)
qed

lemma Next_sound:
  "Next s loc frm = Some t \<Longrightarrow>
     frm < t \<and> t < AddYears loc frm 4 \<and> on_grid s t \<and> matches s loc t"
  using nextLoop_sound [of s loc "AddYears loc frm 4" "firstTry s frm" t] firstTry_grid [of s frm]
    firstTry_gt [of frm s]
  by (auto simp: Next_def)

lemma NextAfter_cases:
  assumes "NextAfter tzdb expr tz now = Inr t"
  obtains s loc where "Parse expr = Inr s" "Next s loc now = Some t"
    "(if tz \<noteq> [] then tzdb tz else Some UTC) = Some loc"
  using assms by (auto simp: NextAfter_def split: sum.splits option.splits if_splits)

lemma NextAfter_later: "NextAfter tzdb expr tz now = Inr t \<Longrightarrow> now < t"
  by (erule NextAfter_cases) (auto dest: Next_sound)

lemma NextAfter_whole: "NextAfter tzdb expr tz now = Inr t \<Longrightarrow> t mod Second = 0"
proof (erule NextAfter_cases)
  fix s loc
  assume "Next s loc now = Some t"
  then have "unit_of s dvd t" using Next_sound by (auto simp: on_grid_def mod_0_imp_dvd)
  moreover have "Second dvd unit_of s" by (simp add: unit_of_def)
  ultimately have "Second dvd t" by (metis dvd_trans)
  then show "t mod Second = 0" by simp
qed


subsection \<open>Day of month and day of week\<close>

text \<open>The documented rule of Vixie cron: a field that is not restricted never excludes a day; when
  both are restricted either suffices.\<close>

lemma matches_both_star:
  "domStar s \<Longrightarrow> dowStar s \<Longrightarrow>
   matches (s\<lparr>doms := d, dows := w\<rparr>) loc t = matches s loc t"
  by (simp add: matches_def)

lemma matches_day_rule:
  "matches s loc t \<longleftrightarrow>
     has_bit (months s) (month_of loc t) \<and> has_bit (hours s) (hour_of loc t) \<and>
     has_bit (minutes s) (minute_of loc t) \<and> (hasSeconds s \<longrightarrow> has_bit (seconds s) (second_of loc t)) \<and>
     (domStar s \<and> dowStar s \<or>
      domStar s \<and> \<not> dowStar s \<and> has_bit (dows s) (weekday_of loc t) \<or>
      \<not> domStar s \<and> dowStar s \<and> has_bit (doms s) (day_of loc t) \<or>
      \<not> domStar s \<and> \<not> dowStar s \<and>
        (has_bit (doms s) (day_of loc t) \<or> has_bit (dows s) (weekday_of loc t)))"
  by (auto simp: matches_def Let_def)

subsection \<open>Schedules with seconds in zones of half-hour offsets\<close>

definition at_nine :: Schedule where
  "at_nine = \<lparr>seconds = 1, minutes = 1, hours = 512, doms = 4294967294, months = 8190, dows = 127,
     domStar = True, dowStar = True, hasSeconds = True\<rparr>"

definition india :: location where
  "india = (\<lambda>_. 19800)"

lemma at_nine_bits:
  "has_bit (hours at_nine) h \<longleftrightarrow> h = 9" "has_bit (minutes at_nine) m \<longleftrightarrow> m = 0"
  "has_bit (seconds at_nine) m \<longleftrightarrow> m = 0"
proof -
  have e: "(512 :: mask) = shl1 9" by code_simp
  have b: "bit (512 :: mask) n \<longleftrightarrow> n = 9" for n unfolding e bit_shl1 by auto
  have h: "hours at_nine = 512" by (simp add: at_nine_def)
  show "has_bit (hours at_nine) h \<longleftrightarrow> h = 9" unfolding has_bit_iff h b by auto
  show "has_bit (minutes at_nine) m \<longleftrightarrow> m = 0" "has_bit (seconds at_nine) m \<longleftrightarrow> m = 0"
    by (auto simp: has_bit_iff at_nine_def bit_1_iff)
qed

lemma at_nine_month: "has_bit (months at_nine) (month_of loc t)"
proof -
  have "list_all (\<lambda>i. has_bit (months at_nine) i) [1..12]" by code_simp
  moreover have "month_of loc t \<in> set [1..12]" using month_bounds [of loc t] by simp
  ultimately show ?thesis unfolding list_all_iff by blast
qed

lemma at_nine_matches:
  "matches at_nine loc t \<longleftrightarrow> hour_of loc t = 9 \<and> minute_of loc t = 0 \<and> second_of loc t = 0"
proof -
  have "domStar at_nine" "dowStar at_nine" "hasSeconds at_nine" by (simp_all add: at_nine_def)
  then show ?thesis by (simp add: matches_day_rule at_nine_bits at_nine_month)
qed

lemma india_local:
  "local_secs india t div 60 = t div Minute + 330" "local_secs india t div 3600 = (local_secs india t div 60) div 60"
  by (simp_all add: local_secs_def india_def unix_div_60 [symmetric] zdiv_zmult2_eq [symmetric])

lemma clock_step:
  "(q::int) div 60 mod 24 = 9 \<Longrightarrow> q mod 60 \<noteq> 0 \<Longrightarrow> (q + 1) mod 60 = 0 \<Longrightarrow> (q + 1) div 60 mod 24 \<noteq> 9"
  by (auto simp: succ_div_mod split: if_splits)

lemma second_step: "(l::int) mod 60 \<noteq> 0 \<Longrightarrow> (l + 1) mod 60 = 0 \<Longrightarrow> (l + 1) div 60 = l div 60 + 1"
  by (auto simp: succ_div_mod split: if_splits)

lemma minute_step: "(q::int) mod 60 = 0 \<Longrightarrow> (q + 1) mod 60 \<noteq> 0"
  by (auto simp: succ_div_mod split: if_splits)

text \<open>From any instant that does not match, the search jumps past nine o'clock: to a local half hour,
  to a later minute of the hour, or to a later second of the minute.\<close>

lemma india_advance:
  assumes "\<not> matches at_nine india t"
  shows "\<not> matches at_nine india (advance at_nine india t)"
proof -
  let ?t = "advance at_nine india t" and ?q = "local_secs india t div 60"
  have hs: "hasSeconds at_nine" by (simp add: at_nine_def)
  have q: "hour_of india x = local_secs india x div 60 div 60 mod 24" "minute_of india x = local_secs india x div 60 mod 60" for x
    by (simp_all add: hour_of_alt minute_of_alt india_local(2))
  consider (hour) "hour_of india t \<noteq> 9" | (minute) "hour_of india t = 9" "minute_of india t \<noteq> 0"
    | (second) "minute_of india t = 0" "hour_of india t = 9" "second_of india t \<noteq> 0"
    using assms by (auto simp: at_nine_matches)
  then show ?thesis
  proof cases
    case hour
    then have t: "?t = Hour * (t div Hour + 1)"
      by (simp add: advance_def hs at_nine_bits Truncate_units minus_mod_eq_mult_div algebra_simps)
    have "?t div Minute = 60 * (t div Hour + 1)" unfolding t by simp
    then have "minute_of india ?t = 30" unfolding q(2) india_local(1) by simp
    then show ?thesis by (simp add: at_nine_matches)
  next
    case minute
    then have t: "?t = Minute * (t div Minute + 1)"
      by (simp add: advance_def hs at_nine_bits Truncate_units minus_mod_eq_mult_div algebra_simps)
    have "?t div Minute = t div Minute + 1" unfolding t by simp
    then have "local_secs india ?t div 60 = ?q + 1" by (simp add: india_local(1))
    then show ?thesis using minute clock_step [of ?q] unfolding at_nine_matches q by metis
  next
    case second
    then have t: "?t = t + Second" by (simp add: advance_def hs at_nine_bits)
    then have l: "local_secs india ?t = local_secs india t + 1" by (simp add: local_secs_def india_def unix_def)
    have "local_secs india t mod 60 \<noteq> 0" "?q mod 60 = 0" using second by (simp_all add: second_of_def q)
    then show ?thesis
      using second_step [of "local_secs india t"] minute_step [of ?q]
      unfolding at_nine_matches q second_of_def l by metis
  qed
qed

lemma india_nextLoop: "\<not> matches at_nine india t \<Longrightarrow> nextLoop at_nine india limit t = None"
proof (induction at_nine india limit t rule: nextLoop.induct)
  case (1 limit t)
  then show ?case using india_advance by (simp add: nextLoop.simps [of at_nine india limit t])
qed

subsection \<open>The four-year horizon and leap days\<close>

definition leap_day :: Schedule where
  "leap_day = \<lparr>seconds = 0, minutes = 1, hours = 1, doms = 536870912, months = 4, dows = 127,
     domStar = False, dowStar = True, hasSeconds = False\<rparr>"

text \<open>2024-02-29T00:00:00Z.\<close>

definition leap_2024 :: instant where
  "leap_2024 = 1709164800000000000"

lemma leap_2024_limit: "AddYears UTC leap_2024 4 = 21243 * 86400 * Second"
  by code_simp

lemma leap_day_bits:
  "has_bit (hours leap_day) h \<longleftrightarrow> h = 0" "has_bit (minutes leap_day) h \<longleftrightarrow> h = 0"
  "has_bit (doms leap_day) h \<longleftrightarrow> h = 29" "has_bit (months leap_day) h \<longleftrightarrow> h = 2"
proof -
  have e: "doms leap_day = shl1 29" "months leap_day = shl1 2" "hours leap_day = shl1 0"
    "minutes leap_day = shl1 0" by code_simp+
  show "has_bit (hours leap_day) h \<longleftrightarrow> h = 0" "has_bit (minutes leap_day) h \<longleftrightarrow> h = 0"
    "has_bit (doms leap_day) h \<longleftrightarrow> h = 29" "has_bit (months leap_day) h \<longleftrightarrow> h = 2"
    unfolding has_bit_iff e bit_shl1 by auto
qed

text \<open>Between two consecutive leap days there is none.\<close>

lemma no_leap_day_between:
  assumes "civil_of_days z = (y, 2, 29)" "19783 \<le> z"
  shows "21243 \<le> z"
proof -
  from civil_of_days_valid [OF assms(1)] have v: "29 \<le> daysIn y 2" "days_of_civil y 2 29 = z" by auto
  then have leap: "isLeap y" by (auto simp: daysIn_def month_lengths_def split: if_splits)
  define a b c where "a = (y - 1) div 4" and "b = (y - 1) div 100" and "c = (y - 1) div 400"
  have r: "4 * a \<le> y - 1" "y - 1 < 4 * a + 4" "100 * b \<le> y - 1" "y - 1 < 100 * b + 100"
    "400 * c \<le> y - 1" "y - 1 < 400 * c + 400"
    using pos_mod_bound [of 4 "y - 1"] pos_mod_bound [of 100 "y - 1"] pos_mod_bound [of 400 "y - 1"]
      pos_mod_sign [of 4 "y - 1"] pos_mod_sign [of 100 "y - 1"] pos_mod_sign [of 400 "y - 1"]
    by (simp_all add: a_def b_def c_def minus_div_mult_eq_mod [symmetric])
  have z: "z = 365 * (y - 1) + a - b + c + 59 - 719162"
    using v(2) leap by (simp add: days_of_civil_def days_before_def month_lengths_def a_def b_def c_def)
  have "2024 \<le> y"
    by (rule ccontr) (use z r(1,4,5) assms(2) in \<open>simp add: not_le\<close>)
  moreover have "y \<noteq> 2024" using z assms(2) by (auto simp: a_def b_def c_def)
  moreover have "y \<noteq> 2025" "y \<noteq> 2026" "y \<noteq> 2027" using leap by (auto simp: isLeap_def)
  ultimately have "2028 \<le> y" by linarith
  show ?thesis
  proof (cases "y = 2028")
    case True
    then show ?thesis using z by (simp add: a_def b_def c_def)
  next
    case False
    with \<open>2028 \<le> y\<close> have "2029 \<le> y" by simp
    then show ?thesis by (intro ccontr [of "21243 \<le> z"]) (use z r(2,3,6) in \<open>simp add: not_le\<close>)
  qed
qed

lemma leap_day_matches:
  assumes "matches leap_day UTC t" "on_grid leap_day t"
  shows "\<exists>z. t = z * 86400 * Second \<and> snd (civil_of_days z) = (2, 29)"
proof -
  have "\<not> domStar leap_day" "dowStar leap_day" by (simp_all add: leap_day_def)
  then have m: "hour_of UTC t = 0" "minute_of UTC t = 0" "day_of UTC t = 29" "month_of UTC t = 2"
    using assms(1) by (simp_all add: matches_day_rule leap_day_bits)
  have g: "t mod Minute = 0" using assms(2) by (simp add: on_grid_def unit_of_def leap_day_def)
  have l: "local_secs UTC t = unix t" by (simp add: local_secs_def UTC_def)
  have u: "unix t = 60 * (t div Minute)" "t = unix t * Second"
    using g div_mult_mod_eq [of t Minute] by (auto simp: unix_def)
  then have "second_of UTC t = 0" by (simp add: second_of_def l)
  with m(1,2) local_clock [of UTC t] have "unix t mod 86400 = 0" by (simp add: l)
  then have "t = unix t div 86400 * 86400 * Second" using u(2) by (metis add.right_neutral div_mult_mod_eq)
  moreover have "snd (civil_of_days (unix t div 86400)) = (2, 29)"
    using civil_fields [of UTC t] m(3,4) by (simp add: l)
  ultimately show ?thesis by blast
qed

lemma leap_day_none: "Next leap_day UTC leap_2024 = None"
proof (cases "Next leap_day UTC leap_2024")
  case (Some t)
  from Next_sound [OF Some] have t: "leap_2024 < t" "t < 21243 * 86400 * Second"
    "on_grid leap_day t" "matches leap_day UTC t" by (simp_all add: leap_2024_limit)
  from leap_day_matches [OF t(4,3)] obtain z where z: "t = z * 86400 * Second"
    "snd (civil_of_days z) = (2, 29)" by blast
  have "19783 \<le> z" "z < 21243" using t(1,2) unfolding z(1) leap_2024_def by linarith+
  moreover have "civil_of_days z = (fst (civil_of_days z), 2, 29)" using z(2) by (simp add: prod_eq_iff)
  ultimately show ?thesis using no_leap_day_between by fastforce
qed

subsection \<open>Properties of the search\<close>



text \<open>A fire time returned by \<open>NextAfter\<close> is later than the instant it was asked for, is a whole
  second, and matches the parsed schedule in the requested zone, in every zone.\<close>

theorem NextAfter_sound:
  assumes "NextAfter tzdb expr tz now = Inr t"
  shows "now < t \<and> t mod Second = 0 \<and>
    (\<exists>s loc. Parse expr = Inr s \<and> (if tz \<noteq> [] then tzdb tz else Some UTC) = Some loc \<and> matches s loc t)"
proof -
  from assms obtain s loc where "Parse expr = Inr s" "Next s loc now = Some t"
    "(if tz \<noteq> [] then tzdb tz else Some UTC) = Some loc" by (rule NextAfter_cases)
  then show ?thesis
    using NextAfter_later [OF assms] NextAfter_whole [OF assms] Next_sound [of s loc now t] by blast
qed

lemma NextAfter_example: "NextAfter (\<lambda>_. None) ''0-4 0 1 1 *'' '''' 0 = Inr Minute"
  by code_simp

theorem NextAfter_sound_witness:
  "(0 :: instant) < Minute \<and> Minute mod Second = (0 :: int) \<and>
    (\<exists>s loc. Parse ''0-4 0 1 1 *'' = Inr s \<and>
       (if ([] :: string) \<noteq> [] then (\<lambda>_. None) ([] :: string) else Some UTC) = Some loc \<and> matches s loc Minute)"
  by (rule NextAfter_sound [OF NextAfter_example])

text \<open>In a zone with a half-hour offset, a six-field expression can fail to fire for ever: at
  UTC+05:30 the search for 09:00:00 every day jumps from local half hour to local half hour and finds
  nothing within four years, unless it happens to start on 09:00:00 itself.\<close>

theorem Next_half_hour_zone:
  "Parse ''0 0 9 * * *'' = Inr at_nine \<and>
   (\<forall>frm. \<not> matches at_nine india (firstTry at_nine frm) \<longrightarrow> Next at_nine india frm = None)"
proof -
  have "Parse ''0 0 9 * * *'' = Inr at_nine" by code_simp
  then show ?thesis by (simp add: Next_def india_nextLoop)
qed

theorem Next_half_hour_zone_witness: "Next at_nine india 0 = None"
proof -
  have "\<not> matches at_nine india (firstTry at_nine 0)" by code_simp
  with Next_half_hour_zone show ?thesis by blast
qed

text \<open>When the day-of-month and the day-of-week field both begin with a star, neither is looked
  at: the step of 0 0 */2 * * has no effect and the schedule fires on the even days too (here on
  2026-01-02).\<close>

theorem matches_star_step_ignored:
  "\<exists>s. Parse ''0 0 */2 * *'' = Inr s \<and> \<not> has_bit (doms s) 2 \<and>
     day_of UTC 1767312000000000000 = 2 \<and> matches s UTC 1767312000000000000"
proof -
  have p: "Parse ''0 0 */2 * *'' = Inr \<lparr>seconds = 0, minutes = 1, hours = 1, doms = 2863311530,
    months = 8190, dows = 127, domStar = True, dowStar = True, hasSeconds = False\<rparr>" by code_simp
  show ?thesis by (rule exI, rule conjI, rule p) code_simp
qed

text \<open>A leap-day schedule is lost once its fire has been reached: asked for the fire after
  2024-02-29T00:00:00Z, the search stops just before 2028-02-29T00:00:00Z and reports that there is
  none within four years.\<close>

theorem NextAfter_leap_day:
  "NextAfter tzdb ''0 0 29 2 *'' '''' leap_2024 = Inl (NoFireTime ''0 0 29 2 *'')"
proof -
  have "Parse ''0 0 29 2 *'' = Inr leap_day" by code_simp
  then show ?thesis by (simp add: NextAfter_def leap_day_none)
qed

end
