(* ===== verification/Model.thy ===== *)
theory Model
  imports Prelude
begin

section \<open>The shared data model: internal/model/model.go\<close>

text \<open>
  Jobs, tickets, results, members and the leader record, with the JSON encoding their struct tags
  define.  What the program stores under an etcd key is \<open>data\<close>: either a JSON document or
  plain text (a node id, a counter, a watermark).  JSON is modelled as documents rather than as
  text: \<open>Marshal\<close> builds the object \<open>encoding/json\<close> would print, with \<open>omitempty\<close> fields left
  out when they are zero, and \<open>Unmarshal\<close> reads an object field by field: names are matched without
  regard to case, unknown names are ignored, \<open>null\<close> leaves a field as it is, and a value of the wrong
  type or an integer outside 64 bits is an error.  Strings are kept byte for byte, which is what
  \<open>encoding/json\<close> does with valid UTF-8; bytes that are not (the output of a command need not be, and
  \<open>truncate\<close> of worker.go can cut inside a rune) it replaces by U+FFFD, which is left out.  The round trips at the end are what the queue and
  the repository rely on.
\<close>

subsection \<open>Constants\<close>

abbreviation CatchUpRunLatest :: string where "CatchUpRunLatest \<equiv> ''run_latest''"
abbreviation CatchUpRunAll :: string where "CatchUpRunAll \<equiv> ''run_all''"
abbreviation CatchUpSkip :: string where "CatchUpSkip \<equiv> ''skip''"

abbreviation StatusSuccess :: string where "StatusSuccess \<equiv> ''success''"
abbreviation StatusFailed :: string where "StatusFailed \<equiv> ''failed''"
abbreviation StatusTimeout :: string where "StatusTimeout \<equiv> ''timeout''"
abbreviation StatusFailedPermanent :: string where "StatusFailedPermanent \<equiv> ''failed_permanent''"
abbreviation StatusSkipped :: string where "StatusSkipped \<equiv> ''skipped''"
abbreviation StatusAbandoned :: string where "StatusAbandoned \<equiv> ''abandoned''"

subsection \<open>Structs\<close>

record job =
  j_ID :: int
  j_Name :: string
  j_Cron :: string
  j_Timezone :: string
  j_Command :: string
  j_TimeoutSec :: int
  j_MaxRetries :: int
  j_CatchUp :: string
  j_NoOverlap :: bool
  j_Enabled :: bool
  j_NextFire :: string
  j_CreatedAt :: string
  j_UpdatedAt :: string

record ticket =
  t_JobID :: int
  t_Name :: string
  t_Command :: string
  t_TimeoutSec :: int
  t_MaxRetries :: int
  t_NoOverlap :: bool
  t_SchedAt :: string
  t_Attempt :: int
  t_NotBefore :: string
  t_Manual :: bool

record result =
  r_JobID :: int
  r_SchedAt :: string
  r_Attempt :: int
  r_NodeID :: string
  r_Status :: string
  r_ExitCode :: int
  r_StartedAt :: string
  r_FinishedAt :: string
  r_DurationMS :: int
  r_Stdout :: string
  r_Stderr :: string

record member =
  m_NodeID :: string
  m_Addr :: string
  m_JoinedAt :: string

record leader_info =
  l_NodeID :: string
  l_Since :: string

text \<open>The zero values of the structs.\<close>

definition zero_job :: job where
  "zero_job = \<lparr>j_ID = 0, j_Name = [], j_Cron = [], j_Timezone = [], j_Command = [], j_TimeoutSec = 0,
     j_MaxRetries = 0, j_CatchUp = [], j_NoOverlap = False, j_Enabled = False, j_NextFire = [],
     j_CreatedAt = [], j_UpdatedAt = []\<rparr>"

definition zero_ticket :: ticket where
  "zero_ticket = \<lparr>t_JobID = 0, t_Name = [], t_Command = [], t_TimeoutSec = 0, t_MaxRetries = 0,
     t_NoOverlap = False, t_SchedAt = [], t_Attempt = 0, t_NotBefore = [], t_Manual = False\<rparr>"

definition zero_result :: result where
  "zero_result = \<lparr>r_JobID = 0, r_SchedAt = [], r_Attempt = 0, r_NodeID = [], r_Status = [],
     r_ExitCode = 0, r_StartedAt = [], r_FinishedAt = [], r_DurationMS = 0, r_Stdout = [], r_Stderr = []\<rparr>"

definition zero_member :: member where
  "zero_member = \<lparr>m_NodeID = [], m_Addr = [], m_JoinedAt = []\<rparr>"

definition zero_leader :: leader_info where
  "zero_leader = \<lparr>l_NodeID = [], l_Since = []\<rparr>"

subsection \<open>JSON documents\<close>

datatype json =
    JNull
  | JBool bool
  | JNum int
  | JStr string
  | JArr "json list"
  | JObj "(string \<times> json) list"

datatype data = Text string | Doc json

text \<open>\<open>string(v)\<close> of a stored value: a document is converted to the text \<open>encoding/json\<close> printed for
  it, with quotes, backslashes, control characters and the HTML characters escaped.\<close>

definition hex_digit :: "nat \<Rightarrow> char" where
  "hex_digit n = ''0123456789abcdef'' ! (n mod 16)"

definition escape_char :: "char \<Rightarrow> string" where
  "escape_char c = (let n = of_char c :: nat in
     if n = 34 \<or> n = 92 then [char_of (92 :: nat), c]
     else if n = 8 then [char_of (92 :: nat), CHR ''b'']
     else if n = 9 then [char_of (92 :: nat), CHR ''t'']
     else if n = 10 then [char_of (92 :: nat), CHR ''n'']
     else if n = 12 then [char_of (92 :: nat), CHR ''f'']
     else if n = 13 then [char_of (92 :: nat), CHR ''r'']
     else if n < 32 \<or> n = 38 \<or> n = 60 \<or> n = 62
       then char_of (92 :: nat) # ''u00'' @ [hex_digit (n div 16), hex_digit n]
     else [c])"

definition quote_str :: "string \<Rightarrow> string" where
  "quote_str s = char_of (34 :: nat) # concat (map escape_char s) @ [char_of (34 :: nat)]"

fun print_json :: "json \<Rightarrow> string"
  and print_items :: "json list \<Rightarrow> string"
  and print_members :: "(string \<times> json) list \<Rightarrow> string" where
  "print_json JNull = ''null''"
| "print_json (JBool b) = (if b then ''true'' else ''false'')"
| "print_json (JNum i) = FormatInt i"
| "print_json (JStr s) = quote_str s"
| "print_json (JArr vs) = ''['' @ print_items vs @ '']''"
| "print_json (JObj kvs) = ''{'' @ print_members kvs @ ''}''"
| "print_items [] = []"
| "print_items [v] = print_json v"
| "print_items (v # w # vs) = print_json v @ '','' @ print_items (w # vs)"
| "print_members [] = []"
| "print_members [(k, v)] = quote_str k @ '':'' @ print_json v"
| "print_members ((k, v) # m # kvs) = quote_str k @ '':'' @ print_json v @ '','' @ print_members (m # kvs)"

fun text_of :: "data \<Rightarrow> string" where
  "text_of (Text s) = s"
| "text_of (Doc j) = print_json j"

text \<open>Setting one field of a struct from a JSON value.\<close>

definition set_str :: "(string \<Rightarrow> 'a) \<Rightarrow> json \<Rightarrow> 'a \<Rightarrow> 'a option" where
  "set_str upd v s = (case v of JStr x \<Rightarrow> Some (upd x) | JNull \<Rightarrow> Some s | _ \<Rightarrow> None)"

definition set_int :: "(int \<Rightarrow> 'a) \<Rightarrow> json \<Rightarrow> 'a \<Rightarrow> 'a option" where
  "set_int upd v s =
     (case v of JNum i \<Rightarrow> if is_int64 i then Some (upd i) else None | JNull \<Rightarrow> Some s | _ \<Rightarrow> None)"

definition set_bool :: "(bool \<Rightarrow> 'a) \<Rightarrow> json \<Rightarrow> 'a \<Rightarrow> 'a option" where
  "set_bool upd v s = (case v of JBool b \<Rightarrow> Some (upd b) | JNull \<Rightarrow> Some s | _ \<Rightarrow> None)"

text \<open>Decoding an object: the fields in order, each found in the struct's table of setters.\<close>

fun decode_fields :: "(string \<times> (json \<Rightarrow> 'a \<Rightarrow> 'a option)) list \<Rightarrow> (string \<times> json) list \<Rightarrow> 'a \<Rightarrow> 'a option" where
  "decode_fields tab [] s = Some s"
| "decode_fields tab ((k, v) # kvs) s =
     (case map_of tab (ToLower k) of
        None \<Rightarrow> decode_fields tab kvs s
      | Some f \<Rightarrow> (case f v s of None \<Rightarrow> None | Some s' \<Rightarrow> decode_fields tab kvs s'))"

definition decode :: "(string \<times> (json \<Rightarrow> 'a \<Rightarrow> 'a option)) list \<Rightarrow> 'a \<Rightarrow> data \<Rightarrow> 'a option" where
  "decode tab zero d =
     (case d of
        Text _ \<Rightarrow> None
      | Doc j \<Rightarrow> (case j of JObj kvs \<Rightarrow> decode_fields tab kvs zero | JNull \<Rightarrow> Some zero | _ \<Rightarrow> None))"

text \<open>\<open>omitempty\<close>: a field with its zero value is not written.\<close>

definition omit_str :: "string \<Rightarrow> string \<Rightarrow> (string \<times> json) list" where
  "omit_str k s = (if s = [] then [] else [(k, JStr s)])"

definition omit_int :: "string \<Rightarrow> int \<Rightarrow> (string \<times> json) list" where
  "omit_int k i = (if i = 0 then [] else [(k, JNum i)])"

definition omit_bool :: "string \<Rightarrow> bool \<Rightarrow> (string \<times> json) list" where
  "omit_bool k b = (if b then [(k, JBool b)] else [])"

subsection \<open>The encodings of the structs\<close>

definition marshal_job :: "job \<Rightarrow> data" where
  "marshal_job j = Doc (JObj (
     [(''id'', JNum (j_ID j)), (''name'', JStr (j_Name j)), (''cron'', JStr (j_Cron j))]
     @ omit_str ''tz'' (j_Timezone j)
     @ [(''command'', JStr (j_Command j)), (''timeout_s'', JNum (j_TimeoutSec j)),
        (''max_retries'', JNum (j_MaxRetries j)), (''catch_up'', JStr (j_CatchUp j)),
        (''no_overlap'', JBool (j_NoOverlap j)), (''enabled'', JBool (j_Enabled j))]
     @ omit_str ''next_fire'' (j_NextFire j) @ omit_str ''created_at'' (j_CreatedAt j)
     @ omit_str ''updated_at'' (j_UpdatedAt j)))"

definition unmarshal_job :: "data \<Rightarrow> job option" where
  "unmarshal_job = decode
     [(''id'', \<lambda>v s. set_int (\<lambda>x. s\<lparr>j_ID := x\<rparr>) v s),
      (''name'', \<lambda>v s. set_str (\<lambda>x. s\<lparr>j_Name := x\<rparr>) v s),
      (''cron'', \<lambda>v s. set_str (\<lambda>x. s\<lparr>j_Cron := x\<rparr>) v s),
      (''tz'', \<lambda>v s. set_str (\<lambda>x. s\<lparr>j_Timezone := x\<rparr>) v s),
      (''command'', \<lambda>v s. set_str (\<lambda>x. s\<lparr>j_Command := x\<rparr>) v s),
      (''timeout_s'', \<lambda>v s. set_int (\<lambda>x. s\<lparr>j_TimeoutSec := x\<rparr>) v s),
      (''max_retries'', \<lambda>v s. set_int (\<lambda>x. s\<lparr>j_MaxRetries := x\<rparr>) v s),
      (''catch_up'', \<lambda>v s. set_str (\<lambda>x. s\<lparr>j_CatchUp := x\<rparr>) v s),
      (''no_overlap'', \<lambda>v s. set_bool (\<lambda>x. s\<lparr>j_NoOverlap := x\<rparr>) v s),
      (''enabled'', \<lambda>v s. set_bool (\<lambda>x. s\<lparr>j_Enabled := x\<rparr>) v s),
      (''next_fire'', \<lambda>v s. set_str (\<lambda>x. s\<lparr>j_NextFire := x\<rparr>) v s),
      (''created_at'', \<lambda>v s. set_str (\<lambda>x. s\<lparr>j_CreatedAt := x\<rparr>) v s),
      (''updated_at'', \<lambda>v s. set_str (\<lambda>x. s\<lparr>j_UpdatedAt := x\<rparr>) v s)] zero_job"

definition marshal_ticket :: "ticket \<Rightarrow> data" where
  "marshal_ticket t = Doc (JObj (
     [(''job_id'', JNum (t_JobID t)), (''name'', JStr (t_Name t)), (''command'', JStr (t_Command t)),
      (''timeout_s'', JNum (t_TimeoutSec t)), (''max_retries'', JNum (t_MaxRetries t)),
      (''no_overlap'', JBool (t_NoOverlap t)), (''sched_at'', JStr (t_SchedAt t)),
      (''attempt'', JNum (t_Attempt t))]
     @ omit_str ''not_before'' (t_NotBefore t) @ omit_bool ''manual'' (t_Manual t)))"

definition unmarshal_ticket :: "data \<Rightarrow> ticket option" where
  "unmarshal_ticket = decode
     [(''job_id'', \<lambda>v s. set_int (\<lambda>x. s\<lparr>t_JobID := x\<rparr>) v s),
      (''name'', \<lambda>v s. set_str (\<lambda>x. s\<lparr>t_Name := x\<rparr>) v s),
      (''command'', \<lambda>v s. set_str (\<lambda>x. s\<lparr>t_Command := x\<rparr>) v s),
      (''timeout_s'', \<lambda>v s. set_int (\<lambda>x. s\<lparr>t_TimeoutSec := x\<rparr>) v s),
      (''max_retries'', \<lambda>v s. set_int (\<lambda>x. s\<lparr>t_MaxRetries := x\<rparr>) v s),
      (''no_overlap'', \<lambda>v s. set_bool (\<lambda>x. s\<lparr>t_NoOverlap := x\<rparr>) v s),
      (''sched_at'', \<lambda>v s. set_str (\<lambda>x. s\<lparr>t_SchedAt := x\<rparr>) v s),
      (''attempt'', \<lambda>v s. set_int (\<lambda>x. s\<lparr>t_Attempt := x\<rparr>) v s),
      (''not_before'', \<lambda>v s. set_str (\<lambda>x. s\<lparr>t_NotBefore := x\<rparr>) v s),
      (''manual'', \<lambda>v s. set_bool (\<lambda>x. s\<lparr>t_Manual := x\<rparr>) v s)] zero_ticket"

definition marshal_result :: "result \<Rightarrow> data" where
  "marshal_result r = Doc (JObj (
     [(''job_id'', JNum (r_JobID r)), (''sched_at'', JStr (r_SchedAt r)),
      (''attempt'', JNum (r_Attempt r)), (''node_id'', JStr (r_NodeID r)), (''status'', JStr (r_Status r))]
     @ omit_int ''exit_code'' (r_ExitCode r) @ omit_str ''started_at'' (r_StartedAt r)
     @ omit_str ''finished_at'' (r_FinishedAt r) @ omit_int ''duration_ms'' (r_DurationMS r)
     @ omit_str ''stdout'' (r_Stdout r) @ omit_str ''stderr'' (r_Stderr r)))"

definition unmarshal_result :: "data \<Rightarrow> result option" where
  "unmarshal_result = decode
     [(''job_id'', \<lambda>v s. set_int (\<lambda>x. s\<lparr>r_JobID := x\<rparr>) v s),
      (''sched_at'', \<lambda>v s. set_str (\<lambda>x. s\<lparr>r_SchedAt := x\<rparr>) v s),
      (''attempt'', \<lambda>v s. set_int (\<lambda>x. s\<lparr>r_Attempt := x\<rparr>) v s),
      (''node_id'', \<lambda>v s. set_str (\<lambda>x. s\<lparr>r_NodeID := x\<rparr>) v s),
      (''status'', \<lambda>v s. set_str (\<lambda>x. s\<lparr>r_Status := x\<rparr>) v s),
      (''exit_code'', \<lambda>v s. set_int (\<lambda>x. s\<lparr>r_ExitCode := x\<rparr>) v s),
      (''started_at'', \<lambda>v s. set_str (\<lambda>x. s\<lparr>r_StartedAt := x\<rparr>) v s),
      (''finished_at'', \<lambda>v s. set_str (\<lambda>x. s\<lparr>r_FinishedAt := x\<rparr>) v s),
      (''duration_ms'', \<lambda>v s. set_int (\<lambda>x. s\<lparr>r_DurationMS := x\<rparr>) v s),
      (''stdout'', \<lambda>v s. set_str (\<lambda>x. s\<lparr>r_Stdout := x\<rparr>) v s),
      (''stderr'', \<lambda>v s. set_str (\<lambda>x. s\<lparr>r_Stderr := x\<rparr>) v s)] zero_result"

definition marshal_member :: "member \<Rightarrow> data" where
  "marshal_member m = Doc (JObj [(''node_id'', JStr (m_NodeID m)), (''addr'', JStr (m_Addr m)),
     (''joined_at'', JStr (m_JoinedAt m))])"

definition unmarshal_member :: "data \<Rightarrow> member option" where
  "unmarshal_member = decode
     [(''node_id'', \<lambda>v s. set_str (\<lambda>x. s\<lparr>m_NodeID := x\<rparr>) v s),
      (''addr'', \<lambda>v s. set_str (\<lambda>x. s\<lparr>m_Addr := x\<rparr>) v s),
      (''joined_at'', \<lambda>v s. set_str (\<lambda>x. s\<lparr>m_JoinedAt := x\<rparr>) v s)] zero_member"

definition marshal_leader :: "leader_info \<Rightarrow> data" where
  "marshal_leader l = Doc (JObj [(''node_id'', JStr (l_NodeID l)), (''since'', JStr (l_Since l))])"

definition unmarshal_leader :: "data \<Rightarrow> leader_info option" where
  "unmarshal_leader = decode
     [(''node_id'', \<lambda>v s. set_str (\<lambda>x. s\<lparr>l_NodeID := x\<rparr>) v s),
      (''since'', \<lambda>v s. set_str (\<lambda>x. s\<lparr>l_Since := x\<rparr>) v s)] zero_leader"

subsection \<open>Round trips\<close>

definition job_int64 :: "job \<Rightarrow> bool" where
  "job_int64 j \<longleftrightarrow> is_int64 (j_ID j) \<and> is_int64 (j_TimeoutSec j) \<and> is_int64 (j_MaxRetries j)"

definition ticket_int64 :: "ticket \<Rightarrow> bool" where
  "ticket_int64 t \<longleftrightarrow> is_int64 (t_JobID t) \<and> is_int64 (t_TimeoutSec t) \<and> is_int64 (t_MaxRetries t) \<and>
     is_int64 (t_Attempt t)"

definition result_int64 :: "result \<Rightarrow> bool" where
  "result_int64 r \<longleftrightarrow> is_int64 (r_JobID r) \<and> is_int64 (r_Attempt r) \<and> is_int64 (r_ExitCode r) \<and>
     is_int64 (r_DurationMS r)"

lemma tag_lower:
  "ToLower ''id'' = ''id''" "ToLower ''name'' = ''name''" "ToLower ''cron'' = ''cron''"
  "ToLower ''tz'' = ''tz''" "ToLower ''command'' = ''command''" "ToLower ''timeout_s'' = ''timeout_s''"
  "ToLower ''max_retries'' = ''max_retries''" "ToLower ''catch_up'' = ''catch_up''"
  "ToLower ''no_overlap'' = ''no_overlap''" "ToLower ''enabled'' = ''enabled''"
  "ToLower ''next_fire'' = ''next_fire''" "ToLower ''created_at'' = ''created_at''"
  "ToLower ''updated_at'' = ''updated_at''" "ToLower ''job_id'' = ''job_id''"
  "ToLower ''sched_at'' = ''sched_at''" "ToLower ''attempt'' = ''attempt''"
  "ToLower ''not_before'' = ''not_before''" "ToLower ''manual'' = ''manual''"
  "ToLower ''node_id'' = ''node_id''" "ToLower ''status'' = ''status''"
  "ToLower ''exit_code'' = ''exit_code''" "ToLower ''started_at'' = ''started_at''"
  "ToLower ''finished_at'' = ''finished_at''" "ToLower ''duration_ms'' = ''duration_ms''"
  "ToLower ''stdout'' = ''stdout''" "ToLower ''stderr'' = ''stderr''" "ToLower ''addr'' = ''addr''"
  "ToLower ''joined_at'' = ''joined_at''" "ToLower ''since'' = ''since''"
  by code_simp+

lemmas codec_defs = decode_def set_str_def set_int_def set_bool_def

text \<open>Decoding a field that was left out gives the value it was left out for.\<close>

lemma decode_omit:
  assumes "map_of tab k = Some f" "ToLower k = k"
  shows "f (JStr x) s = Some s' \<Longrightarrow> (x = [] \<Longrightarrow> s' = s) \<Longrightarrow>
      decode_fields tab (omit_str k x @ ys) s = decode_fields tab ys s'"
    and "f (JNum i) s = Some s' \<Longrightarrow> (i = 0 \<Longrightarrow> s' = s) \<Longrightarrow>
      decode_fields tab (omit_int k i @ ys) s = decode_fields tab ys s'"
    and "f (JBool b) s = Some s' \<Longrightarrow> (\<not> b \<Longrightarrow> s' = s) \<Longrightarrow>
      decode_fields tab (omit_bool k b @ ys) s = decode_fields tab ys s'"
  using assms by (auto simp: omit_str_def omit_int_def omit_bool_def)

lemmas decode_omit_last = decode_omit [where ys = "[]", simplified]

lemma unmarshal_marshal_ticket: "ticket_int64 t \<Longrightarrow> unmarshal_ticket (marshal_ticket t) = Some t"
  by (simp add: unmarshal_ticket_def marshal_ticket_def codec_defs tag_lower ticket_int64_def
      decode_omit decode_omit_last zero_ticket_def)

lemma unmarshal_marshal_job: "job_int64 j \<Longrightarrow> unmarshal_job (marshal_job j) = Some j"
  by (simp add: unmarshal_job_def marshal_job_def codec_defs tag_lower job_int64_def
      decode_omit decode_omit_last zero_job_def)

lemma unmarshal_marshal_result: "result_int64 r \<Longrightarrow> unmarshal_result (marshal_result r) = Some r"
  by (simp add: unmarshal_result_def marshal_result_def codec_defs tag_lower result_int64_def
      decode_omit decode_omit_last zero_result_def)

lemma unmarshal_marshal_member: "unmarshal_member (marshal_member m) = Some m"
  by (simp add: unmarshal_member_def marshal_member_def codec_defs tag_lower zero_member_def)

lemma unmarshal_marshal_leader: "unmarshal_leader (marshal_leader l) = Some l"
  by (simp add: unmarshal_leader_def marshal_leader_def codec_defs tag_lower zero_leader_def)

text \<open>What decodes is in range: an invariant that every setter keeps holds of the decoded value.\<close>

lemma decode_fields_inv:
  assumes "\<And>f v s s'. f \<in> set (map snd tab) \<Longrightarrow> f v s = Some s' \<Longrightarrow> I s \<Longrightarrow> I s'"
  shows "decode_fields tab kvs s = Some s' \<Longrightarrow> I s \<Longrightarrow> I s'"
proof (induction kvs arbitrary: s)
  case (Cons kv kvs)
  obtain k v where kv: "kv = (k, v)" by (cases kv)
  show ?case
  proof (cases "map_of tab (ToLower k)")
    case None
    with Cons kv show ?thesis by simp
  next
    case (Some f)
    then have "f \<in> set (map snd tab)" by (force dest: map_of_SomeD)
    with Some Cons kv assms show ?thesis by (auto split: option.splits)
  qed
qed simp

lemma decode_inv:
  assumes "\<And>f v s s'. f \<in> set (map snd tab) \<Longrightarrow> f v s = Some s' \<Longrightarrow> I s \<Longrightarrow> I s'" "I zero"
  shows "decode tab zero d = Some s \<Longrightarrow> I s"
  using decode_fields_inv [of tab I, OF assms(1)] assms(2) by (auto simp: decode_def split: data.splits json.splits)

lemma unmarshal_job_int64: "unmarshal_job d = Some j \<Longrightarrow> job_int64 j"
  unfolding unmarshal_job_def
  by (erule decode_inv [where I = job_int64, rotated 2])
    (auto simp: set_str_def set_int_def set_bool_def job_int64_def zero_job_def int64_defs split: json.splits if_splits)

end
