(* ===== verification/Etcd.thy ===== *)
theory Etcd
  imports Model GoTime Cron_Parser
begin

section \<open>The etcd client interface\<close>

text \<open>
  etcd is not part of the repository.  The program reaches it through \<open>clientv3\<close>: \<open>Get\<close> of a key, of
  a prefix with a limit, or of a count, \<open>Put\<close>, and \<open>Txn\<close> with \<open>If\<close>, \<open>Then\<close> and \<open>Else\<close>.  These calls are
  the fields of the record \<open>world\<close>, which the operations of the model take as an argument, together
  with the clock and the random source; \<open>'w\<close> is the state of the world outside the node, passed
  from call to call.

  What the program relies on is the locale \<open>etcd\<close>: there is a view of the world as a revisioned
  key-value store (\<open>est\<close>), and a call that returns has taken effect atomically on the store as it
  was at some moment after the call was made: the other clients may have moved it before and after
  (\<open>rely\<close>).  A call that fails may or may not have taken effect.  The store itself is described by
  \<open>txn_step\<close>, \<open>expire\<close> and \<open>get_view\<close>: keys with a modification revision, a version counter and a
  lease, the leases that are alive (\<open>es_leases\<close>), and those that were ever granted (\<open>es_used\<close>), which
  etcd does not grant again.  \<open>mem_world\<close> is a concrete world, with scripted faults and interference, that satisfies
  the laws.
\<close>

named_theorems etcd_simps

subsection \<open>The store\<close>

record kv =
  kv_key :: string
  kv_value :: data
  kv_modrev :: int
  kv_version :: int
  kv_lease :: int

record est =
  es_kvs :: "kv list"
  es_rev :: int
  es_leases :: "int set"
  es_used :: "int list"

definition NoLease :: int where
  "NoLease = 0"

datatype cmp =
    CmpVersion string int
  | CmpModRevision string int
  | CmpValue string data

datatype op =
    OpPut string data int
  | OpDelete string

definition kv_at :: "est \<Rightarrow> string \<Rightarrow> kv option" where
  "kv_at st k = find (\<lambda>kv. kv_key kv = k) (es_kvs st)"

definition val_at :: "est \<Rightarrow> string \<Rightarrow> data option" where
  "val_at st k = map_option kv_value (kv_at st k)"

definition version_at :: "est \<Rightarrow> string \<Rightarrow> int" where
  "version_at st k = (case kv_at st k of None \<Rightarrow> 0 | Some kv \<Rightarrow> kv_version kv)"

definition modrev_at :: "est \<Rightarrow> string \<Rightarrow> int" where
  "modrev_at st k = (case kv_at st k of None \<Rightarrow> 0 | Some kv \<Rightarrow> kv_modrev kv)"

text \<open>A comparison of the value of a key that does not exist always fails.\<close>

fun eval_cmp :: "est \<Rightarrow> cmp \<Rightarrow> bool" where
  "eval_cmp st (CmpVersion k n) = (version_at st k = n)"
| "eval_cmp st (CmpModRevision k n) = (modrev_at st k = n)"
| "eval_cmp st (CmpValue k d) = (val_at st k = Some d)"

fun ins_kv :: "kv \<Rightarrow> kv list \<Rightarrow> kv list" where
  "ins_kv x [] = [x]"
| "ins_kv x (y # ys) = (if kv_key x \<le> kv_key y then x # y # ys else y # ins_kv x ys)"

definition del_key :: "string \<Rightarrow> kv list \<Rightarrow> kv list" where
  "del_key k kvs = filter (\<lambda>kv. kv_key kv \<noteq> k) kvs"

fun apply_op :: "int \<Rightarrow> op \<Rightarrow> est \<Rightarrow> est" where
  "apply_op r (OpPut k d l) st =
     st\<lparr>es_kvs := ins_kv \<lparr>kv_key = k, kv_value = d, kv_modrev = r,
          kv_version = version_at st k + 1, kv_lease = l\<rparr> (del_key k (es_kvs st))\<rparr>"
| "apply_op r (OpDelete k) st = st\<lparr>es_kvs := del_key k (es_kvs st)\<rparr>"

definition apply_ops :: "int \<Rightarrow> op list \<Rightarrow> est \<Rightarrow> est" where
  "apply_ops r ops st = fold (apply_op r) ops st"

fun effective :: "est \<Rightarrow> op \<Rightarrow> bool" where
  "effective st (OpPut k d l) = True"
| "effective st (OpDelete k) = (kv_at st k \<noteq> None)"

text \<open>A transaction: the comparisons choose a branch, whose operations all get the next revision.\<close>

definition txn_step :: "cmp list \<Rightarrow> op list \<Rightarrow> op list \<Rightarrow> est \<Rightarrow> bool \<times> est" where
  "txn_step cs ts es st =
     (let b = list_all (eval_cmp st) cs;
          ops = (if b then ts else es);
          st' = apply_ops (es_rev st + 1) ops st
      in (b, st'\<lparr>es_rev := if list_ex (effective st) ops then es_rev st + 1 else es_rev st\<rparr>))"

text \<open>When a lease expires or is revoked, the keys attached to it are deleted.\<close>

definition expire :: "int \<Rightarrow> est \<Rightarrow> est" where
  "expire l st = st\<lparr>es_kvs := filter (\<lambda>kv. kv_lease kv \<noteq> l) (es_kvs st), es_rev := es_rev st + 1,
     es_leases := es_leases st - {l}\<rparr>"

text \<open>The three kinds of \<open>Get\<close> the program uses: one key, a prefix with a limit (0 for none), and the
  number of keys of a prefix.  Ranges come in ascending key order.\<close>

datatype get_opt = Single | Prefix int | CountOnly

record get_response =
  gr_kvs :: "kv list"
  gr_count :: int
  gr_rev :: int

definition prefix_kvs :: "est \<Rightarrow> string \<Rightarrow> kv list" where
  "prefix_kvs st p = filter (\<lambda>kv. HasPrefix (kv_key kv) p) (es_kvs st)"

definition get_view :: "est \<Rightarrow> string \<Rightarrow> get_opt \<Rightarrow> get_response" where
  "get_view st k opt = (case opt of
     Single \<Rightarrow> (case kv_at st k of
         None \<Rightarrow> \<lparr>gr_kvs = [], gr_count = 0, gr_rev = es_rev st\<rparr>
       | Some kv \<Rightarrow> \<lparr>gr_kvs = [kv], gr_count = 1, gr_rev = es_rev st\<rparr>)
   | Prefix limit \<Rightarrow> \<lparr>gr_kvs = (if limit \<le> 0 then prefix_kvs st k else take (nat limit) (prefix_kvs st k)),
       gr_count = int (length (prefix_kvs st k)), gr_rev = es_rev st\<rparr>
   | CountOnly \<Rightarrow> \<lparr>gr_kvs = [], gr_count = int (length (prefix_kvs st k)), gr_rev = es_rev st\<rparr>)"

fun op_lease :: "op \<Rightarrow> int" where
  "op_lease (OpPut k d l) = l"
| "op_lease (OpDelete k) = NoLease"

definition leases_ok :: "est \<Rightarrow> op list \<Rightarrow> bool" where
  "leases_ok st ops \<longleftrightarrow> list_all (\<lambda>op. op_lease op = NoLease \<or> op_lease op \<in> es_leases st) ops"

subsection \<open>Reading the store after a write\<close>

lemma find_ins_kv:
  "\<forall>y \<in> set ys. kv_key y \<noteq> kv_key x \<Longrightarrow>
   find (\<lambda>kv. kv_key kv = k) (ins_kv x ys) = (if k = kv_key x then Some x else find (\<lambda>kv. kv_key kv = k) ys)"
  by (induction ys) auto

lemma find_del_key:
  "find (\<lambda>kv. kv_key kv = k) (del_key k' kvs) = (if k = k' then None else find (\<lambda>kv. kv_key kv = k) kvs)"
  by (induction kvs) (auto simp: del_key_def)

lemma kv_at_put [etcd_simps]:
  "kv_at (apply_op r (OpPut k d l) st) k' =
     (if k' = k then Some \<lparr>kv_key = k, kv_value = d, kv_modrev = r, kv_version = version_at st k + 1, kv_lease = l\<rparr>
      else kv_at st k')"
proof -
  have "\<forall>y \<in> set (del_key k (es_kvs st)). kv_key y \<noteq> k"
    by (simp add: del_key_def)
  then show ?thesis
    by (simp add: kv_at_def find_ins_kv find_del_key)
qed

lemma kv_at_delete [etcd_simps]:
  "kv_at (apply_op r (OpDelete k) st) k' = (if k' = k then None else kv_at st k')"
  by (simp add: kv_at_def find_del_key)

lemma kv_at_update [etcd_simps]:
  "kv_at (st\<lparr>es_rev := r\<rparr>) k = kv_at st k" "kv_at (st\<lparr>es_leases := L\<rparr>) k = kv_at st k"
  "kv_at (st\<lparr>es_used := U\<rparr>) k = kv_at st k"
  by (simp_all add: kv_at_def)

lemma apply_ops_Nil [etcd_simps]: "apply_ops r [] st = st"
  by (simp add: apply_ops_def)

lemma apply_ops_Cons [etcd_simps]: "apply_ops r (x # xs) st = apply_ops r xs (apply_op r x st)"
  by (simp add: apply_ops_def)

lemma apply_op_frame [etcd_simps]:
  "es_rev (apply_op r x st) = es_rev st" "es_leases (apply_op r x st) = es_leases st" "es_used (apply_op r x st) = es_used st"
  by (cases x; simp)+

lemma apply_ops_frame [etcd_simps]:
  "es_rev (apply_ops r xs st) = es_rev st" "es_leases (apply_ops r xs st) = es_leases st" "es_used (apply_ops r xs st) = es_used st"
  by (induction xs arbitrary: st) (simp_all add: etcd_simps)

fun op_key :: "op \<Rightarrow> string" where
  "op_key (OpPut k d l) = k"
| "op_key (OpDelete k) = k"

lemma kv_at_apply_op_other: "k \<noteq> op_key x \<Longrightarrow> kv_at (apply_op r x st) k = kv_at st k"
  by (cases x) (auto simp: etcd_simps simp del: apply_op.simps)

lemma kv_at_apply_ops_other:
  "k \<notin> set (map op_key ops) \<Longrightarrow> kv_at (apply_ops r ops st) k = kv_at st k"
  by (induction ops arbitrary: st) (auto simp: etcd_simps kv_at_apply_op_other)

lemma find_filter_None: "find P xs = None \<Longrightarrow> find P (filter Q xs) = None"
  by (auto simp: find_None_iff)

text \<open>The outcome of a transaction, read key by key.\<close>

lemma txn_step_fst [etcd_simps]: "fst (txn_step cs ts es st) = list_all (eval_cmp st) cs"
  by (simp add: txn_step_def Let_def)

lemma kv_at_txn [etcd_simps]:
  "kv_at (snd (txn_step cs ts es st)) k =
     kv_at (apply_ops (es_rev st + 1) (if list_all (eval_cmp st) cs then ts else es) st) k"
  by (simp add: txn_step_def Let_def etcd_simps)

lemma txn_leases [etcd_simps]:
  "es_leases (snd (txn_step cs ts es st)) = es_leases st" "es_used (snd (txn_step cs ts es st)) = es_used st"
  by (simp_all add: txn_step_def Let_def etcd_simps)

lemma kv_at_txn_other:
  "k \<notin> set (map op_key ts) \<Longrightarrow> k \<notin> set (map op_key es) \<Longrightarrow>
   kv_at (snd (txn_step cs ts es st)) k = kv_at st k"
  by (simp add: kv_at_txn kv_at_apply_ops_other)

lemma kv_at_key: "kv_at st k = Some kv \<Longrightarrow> kv_key kv = k"
  by (auto simp: kv_at_def find_Some_iff)

lemma version_at_0: "(\<forall>kv. kv_at st k = Some kv \<longrightarrow> 1 \<le> kv_version kv) \<Longrightarrow> version_at st k = 0 \<longleftrightarrow> kv_at st k = None"
  by (auto simp: version_at_def split: option.splits)

text \<open>The operations of a branch, committed together.\<close>

definition commit :: "op list \<Rightarrow> est \<Rightarrow> est" where
  "commit ops st = snd (txn_step [] ops [] st)"

lemma txn_step_commit: "snd (txn_step cs ts es st) = commit (if list_all (eval_cmp st) cs then ts else es) st"
  by (simp add: commit_def txn_step_def Let_def)

lemma kv_at_commit [etcd_simps]: "kv_at (commit ops st) k = kv_at (apply_ops (es_rev st + 1) ops st) k"
  by (simp add: commit_def kv_at_txn)

lemma commit_Nil [etcd_simps]: "commit [] st = st"
  by (simp add: commit_def txn_step_def apply_ops_def)

lemma commit_leases [etcd_simps]: "es_leases (commit ops st) = es_leases st" "es_used (commit ops st) = es_used st"
  by (simp_all add: commit_def txn_leases)

lemma kv_at_commit_other: "k \<notin> set (map op_key ops) \<Longrightarrow> kv_at (commit ops st) k = kv_at st k"
  by (simp add: kv_at_commit kv_at_apply_ops_other)

lemma val_at_put [etcd_simps]:
  "val_at (apply_op r (OpPut k d l) st) k' = (if k' = k then Some d else val_at st k')"
  by (simp add: val_at_def kv_at_put del: apply_op.simps)

lemma val_at_delete [etcd_simps]:
  "val_at (apply_op r (OpDelete k) st) k' = (if k' = k then None else val_at st k')"
  by (simp add: val_at_def kv_at_delete del: apply_op.simps)

lemma val_at_commit [etcd_simps]: "val_at (commit ops st) k = val_at (apply_ops (es_rev st + 1) ops st) k"
  by (simp add: val_at_def kv_at_commit)

lemma val_at_None [simp]: "val_at st k = None \<longleftrightarrow> kv_at st k = None"
  by (simp add: val_at_def)

lemma val_at_commit_other: "k \<notin> set (map op_key ops) \<Longrightarrow> val_at (commit ops st) k = val_at st k"
  by (simp add: val_at_def kv_at_commit_other)

subsection \<open>Well-formed stores\<close>

definition wf_kv :: "int \<Rightarrow> kv \<Rightarrow> bool" where
  "wf_kv r kv \<longleftrightarrow> 1 \<le> kv_version kv \<and> 1 \<le> kv_modrev kv \<and> kv_modrev kv \<le> r"

definition wf_est :: "est \<Rightarrow> bool" where
  "wf_est st \<longleftrightarrow> 0 \<le> es_rev st \<and> list_all (wf_kv (es_rev st)) (es_kvs st) \<and>
     sorted_wrt (<) (map kv_key (es_kvs st)) \<and> es_leases st \<subseteq> set (es_used st)"

lemma kv_at_set: "kv_at st k = Some kv \<Longrightarrow> kv \<in> set (es_kvs st)"
  by (auto simp: kv_at_def find_Some_iff)

lemma kv_at_expire: "kv_at (expire l st) k = Some kv \<Longrightarrow> kv_lease kv \<noteq> l"
  using kv_at_set [of "expire l st" k kv] by (simp add: expire_def)

lemma wf_kv_at: "wf_est st \<Longrightarrow> kv_at st k = Some kv \<Longrightarrow> wf_kv (es_rev st) kv"
  using kv_at_set [of st k kv] by (auto simp: wf_est_def list_all_iff)

lemma wf_version: "wf_est st \<Longrightarrow> version_at st k = 0 \<longleftrightarrow> kv_at st k = None"
  by (rule version_at_0) (auto dest: wf_kv_at simp: wf_kv_def)

lemma wf_version_nonneg: "wf_est st \<Longrightarrow> 0 \<le> version_at st k"
  using wf_kv_at [of st k] by (auto simp: version_at_def wf_kv_def split: option.splits)

lemma wf_mem_kv_at:
  assumes "wf_est st" "kv \<in> set (es_kvs st)"
  shows "kv_at st (kv_key kv) = Some kv"
proof -
  have "distinct (map kv_key (es_kvs st))"
    using assms(1) by (auto simp: wf_est_def strict_sorted_iff)
  with assms(2) show ?thesis unfolding kv_at_def
  proof (induction "es_kvs st" arbitrary: st)
    case (Cons a xs)
    then show ?case
      using Cons.hyps(1) [of "st\<lparr>es_kvs := xs\<rparr>"] by (auto simp flip: Cons.hyps(2))
  qed simp
qed

lemma set_ins_kv: "set (ins_kv x ys) = insert x (set ys)"
  by (induction ys) auto

lemma sorted_ins_kv:
  "sorted_wrt (<) (map kv_key ys) \<Longrightarrow> \<forall>y \<in> set ys. kv_key y \<noteq> kv_key x \<Longrightarrow>
   sorted_wrt (<) (map kv_key (ins_kv x ys))"
  by (induction ys) (auto simp: set_ins_kv)

lemma sorted_filter_kv:
  "sorted_wrt (<) (map kv_key ys) \<Longrightarrow> sorted_wrt (<) (map kv_key (filter P ys))"
  by (induction ys) auto

text \<open>The invariant during a transaction that writes revision \<open>r\<close>.\<close>

definition wf_mid :: "int \<Rightarrow> est \<Rightarrow> bool" where
  "wf_mid r st \<longleftrightarrow> list_all (wf_kv r) (es_kvs st) \<and> sorted_wrt (<) (map kv_key (es_kvs st))"

lemma wf_mid_op: "wf_mid r st \<Longrightarrow> 1 \<le> r \<Longrightarrow> wf_mid r (apply_op r x st)"
proof (cases x)
  case (OpPut k d l)
  assume wf: "wf_mid r st" "1 \<le> r"
  have "0 \<le> version_at st k"
    using wf kv_at_set [of st k] by (force simp: version_at_def wf_mid_def wf_kv_def list_all_iff split: option.splits)
  with wf OpPut show ?thesis
    by (auto simp: wf_mid_def list_all_iff set_ins_kv del_key_def wf_kv_def intro!: sorted_ins_kv sorted_filter_kv)
next
  case (OpDelete k)
  assume "wf_mid r st"
  with OpDelete show ?thesis
    by (auto simp: wf_mid_def list_all_iff del_key_def intro!: sorted_filter_kv)
qed

lemma wf_mid_ops: "wf_mid r st \<Longrightarrow> 1 \<le> r \<Longrightarrow> wf_mid r (apply_ops r xs st)"
  by (induction xs arbitrary: st) (simp_all add: etcd_simps wf_mid_op)

lemma wf_mid_est: "wf_mid (es_rev st) st \<Longrightarrow> 0 \<le> es_rev st \<Longrightarrow> es_leases st \<subseteq> set (es_used st) \<Longrightarrow> wf_est st"
  by (simp add: wf_mid_def wf_est_def)

lemma wf_mid_mono: "wf_mid r st \<Longrightarrow> r \<le> r' \<Longrightarrow> wf_mid r' st"
  by (auto simp: wf_mid_def wf_kv_def list_all_iff)

lemma wf_est_mid: "wf_est st \<Longrightarrow> wf_mid (es_rev st) st"
  by (simp add: wf_mid_def wf_est_def)

lemma wf_mid_rev [etcd_simps]: "wf_mid r (st\<lparr>es_rev := r'\<rparr>) = wf_mid r st"
  by (simp add: wf_mid_def)

lemma del_key_absent: "kv_at st k = None \<Longrightarrow> del_key k (es_kvs st) = es_kvs st"
  by (auto simp: kv_at_def del_key_def find_None_iff filter_id_conv)

lemma apply_ops_idle:
  "\<not> list_ex (effective st) ops \<Longrightarrow> apply_ops r ops st = st"
proof (induction ops)
  case (Cons x xs)
  then show ?case by (cases x) (simp_all add: etcd_simps del_key_absent)
qed (simp add: etcd_simps)

lemma wf_txn_step: "wf_est st \<Longrightarrow> wf_est (snd (txn_step cs ts es st))"
proof -
  assume wf: "wf_est st"
  let ?ops = "if list_all (eval_cmp st) cs then ts else es"
  have r: "0 \<le> es_rev st" using wf by (simp add: wf_est_def)
  show ?thesis
  proof (cases "list_ex (effective st) ?ops")
    case True
    have "wf_mid (es_rev st + 1) (apply_ops (es_rev st + 1) ?ops st)"
      using wf r by (intro wf_mid_ops wf_mid_mono [OF wf_est_mid]) auto
    then show ?thesis
      using True r wf by (intro wf_mid_est) (simp_all add: txn_step_def Let_def etcd_simps, simp add: wf_est_def)
  next
    case False
    then have "snd (txn_step cs ts es st) = st"
      by (simp only: txn_step_def Let_def snd_conv apply_ops_idle [OF False]) simp
    with wf show ?thesis by simp
  qed
qed

lemma wf_commit: "wf_est st \<Longrightarrow> wf_est (commit ops st)"
  by (simp add: commit_def wf_txn_step)

lemma wf_expire: "wf_est st \<Longrightarrow> wf_est (expire l st)"
  by (auto simp: wf_est_def expire_def wf_kv_def list_all_iff intro!: sorted_filter_kv)

lemma kv_at_expired:
  assumes "wf_est v"
  shows "kv_at (expire l v) k = (case kv_at v k of None \<Rightarrow> None | Some kv \<Rightarrow> if kv_lease kv = l then None else Some kv)"
proof (cases "kv_at (expire l v) k")
  case None
  have "kv_lease kv = l" if "kv_at v k = Some kv" for kv
  proof (rule ccontr)
    assume "kv_lease kv \<noteq> l"
    then have "kv \<in> set (es_kvs (expire l v))" using kv_at_set [OF that] by (simp add: expire_def)
    from wf_mem_kv_at [OF wf_expire [OF assms] this] kv_at_key [OF that] None show False by simp
  qed
  with None show ?thesis by (auto split: option.splits)
next
  case (Some kv)
  then have "kv_at v k = Some kv"
    using kv_at_set [OF Some] kv_at_key [OF Some] wf_mem_kv_at [OF assms, of kv] by (simp add: expire_def)
  with Some kv_at_expire [OF Some] show ?thesis by simp
qed

subsection \<open>Revisions identify values\<close>

text \<open>A later store keeps every value whose modification revision the earlier store had reached:
  an unchanged \<open>ModRevision\<close> means an unchanged value.  The leases used so far stay used.\<close>

definition mvcc_le :: "est \<Rightarrow> est \<Rightarrow> bool" where
  "mvcc_le v v' \<longleftrightarrow> es_rev v \<le> es_rev v' \<and> set (es_used v) \<subseteq> set (es_used v') \<and>
     (\<forall>k kv. kv_at v' k = Some kv \<longrightarrow> kv_modrev kv \<le> es_rev v \<longrightarrow> kv_at v k = Some kv)"

lemma mvcc_refl: "mvcc_le v v"
  by (simp add: mvcc_le_def)

lemma mvcc_trans: "mvcc_le u v \<Longrightarrow> mvcc_le v w \<Longrightarrow> mvcc_le u w"
  by (force simp: mvcc_le_def)

lemma kv_at_apply_ops_old:
  "kv_at (apply_ops r ops st) k = Some kv \<Longrightarrow> kv_modrev kv < r \<Longrightarrow> kv_at st k = Some kv"
proof (induction ops arbitrary: st)
  case (Cons x xs)
  then have "kv_at (apply_op r x st) k = Some kv" by (simp add: etcd_simps)
  with Cons.prems(2) show ?case
    by (cases x) (auto simp: kv_at_put kv_at_delete simp del: apply_op.simps split: if_splits)
qed (simp add: etcd_simps)

lemma mvcc_txn: "mvcc_le st (snd (txn_step cs ts es st))"
  by (auto simp: mvcc_le_def kv_at_txn txn_leases dest: kv_at_apply_ops_old) (auto simp: txn_step_def Let_def)

lemma mvcc_commit: "mvcc_le st (commit ops st)"
  by (simp add: commit_def mvcc_txn)

lemma mvcc_expire:
  assumes "wf_est st"
  shows "mvcc_le st (expire l st)"
proof -
  have "kv_at st k = Some kv" if "kv_at (expire l st) k = Some kv" for k kv
    using kv_at_set [OF that] kv_at_key [OF that] wf_mem_kv_at [OF assms, of kv] by (simp add: expire_def)
  then show ?thesis by (simp add: mvcc_le_def expire_def [of l st])
qed

lemma mvcc_same_rev:
  assumes "mvcc_le v v'" "wf_est v" "kv_at v k = Some kv" "modrev_at v' k = kv_modrev kv"
  shows "kv_at v' k = Some kv"
proof -
  have r: "1 \<le> kv_modrev kv" "kv_modrev kv \<le> es_rev v"
    using wf_kv_at [OF assms(2,3)] by (auto simp: wf_kv_def)
  then obtain kv' where "kv_at v' k = Some kv'" "kv_modrev kv' = kv_modrev kv"
    using assms(4) by (auto simp: modrev_at_def split: option.splits)
  with assms(1,3) r show ?thesis by (auto simp: mvcc_le_def)
qed

subsection \<open>The client\<close>

text \<open>Errors are values: the message of \<open>fmt.Errorf\<close>, a message with a quoted argument (\<open>%q\<close>), an error
  wrapped with \<open>%w\<close>, or an error of the cron parser.\<close>

datatype gerr = Errorf string | ErrorQ string string | Wrap string gerr | CronErr cron_error

record 'w world =
  w_get :: "string \<Rightarrow> get_opt \<Rightarrow> 'w \<Rightarrow> (gerr + get_response) \<times> 'w"
  w_put :: "string \<Rightarrow> data \<Rightarrow> int \<Rightarrow> 'w \<Rightarrow> (gerr + unit) \<times> 'w"
  w_txn :: "cmp list \<Rightarrow> op list \<Rightarrow> op list \<Rightarrow> 'w \<Rightarrow> (gerr + bool) \<times> 'w"
  w_now :: "'w \<Rightarrow> instant \<times> 'w"
  w_rand :: "int \<Rightarrow> 'w \<Rightarrow> int \<times> 'w"

text \<open>What a relation on stores must satisfy to describe the other clients.\<close>

definition env_ok :: "(est \<Rightarrow> est \<Rightarrow> bool) \<Rightarrow> bool" where
  "env_ok rely \<longleftrightarrow> reflp rely \<and> transp rely \<and>
     (\<forall>v v'. rely v v' \<longrightarrow> wf_est v \<longrightarrow> wf_est v' \<and> mvcc_le v v')"

text \<open>A transaction sent to the store takes effect at one moment between call and return.\<close>

definition commits :: "(est \<Rightarrow> est \<Rightarrow> bool) \<Rightarrow> cmp list \<Rightarrow> op list \<Rightarrow> op list \<Rightarrow> est \<Rightarrow> est \<Rightarrow> bool \<Rightarrow> bool" where
  "commits rely cs ts es v v' b \<longleftrightarrow>
     (\<exists>u. rely v u \<and> b = list_all (eval_cmp u) cs \<and> leases_ok u (if b then ts else es) \<and>
          rely (commit (if b then ts else es) u) v')"

locale etcd =
  fixes W :: "'w world"
    and view :: "'w \<Rightarrow> est"
    and rely :: "est \<Rightarrow> est \<Rightarrow> bool"
  assumes env: "env_ok rely"
    and get_ok: "w_get W k opt w = (Inr r, w') \<Longrightarrow>
      \<exists>u. rely (view w) u \<and> r = get_view u k opt \<and> rely u (view w')"
    and get_err: "w_get W k opt w = (Inl e, w') \<Longrightarrow> rely (view w) (view w')"
    and put_ok: "w_put W k d l w = (Inr x, w') \<Longrightarrow> commits rely [] [OpPut k d l] [] (view w) (view w') True"
    and put_err: "w_put W k d l w = (Inl e, w') \<Longrightarrow>
      rely (view w) (view w') \<or> commits rely [] [OpPut k d l] [] (view w) (view w') True"
    and txn_ok: "w_txn W cs ts es w = (Inr b, w') \<Longrightarrow> commits rely cs ts es (view w) (view w') b"
    and txn_err: "w_txn W cs ts es w = (Inl e, w') \<Longrightarrow>
      rely (view w) (view w') \<or> (\<exists>b. commits rely cs ts es (view w) (view w') b)"
    and now: "rely (view w) (view (snd (w_now W w)))"
    and rand: "rely (view w) (view (snd (w_rand W n w)))"
    and rand_range: "0 < n \<Longrightarrow> 0 \<le> fst (w_rand W n w) \<and> fst (w_rand W n w) < n"
begin

lemma rely_refl [simp, intro]: "rely v v"
  using env by (auto simp: env_ok_def reflp_def)

lemma rely_trans [trans]: "rely u v \<Longrightarrow> rely v w \<Longrightarrow> rely u w"
  using env by (auto simp: env_ok_def dest: transpD)

lemma rely_wf: "rely v v' \<Longrightarrow> wf_est v \<Longrightarrow> wf_est v'"
  using env by (auto simp: env_ok_def)

lemma rely_mvcc: "rely v v' \<Longrightarrow> wf_est v \<Longrightarrow> mvcc_le v v'"
  using env by (auto simp: env_ok_def)

lemma commits_wf: "commits rely cs ts es v v' b \<Longrightarrow> wf_est v \<Longrightarrow> wf_est v'"
  by (auto simp: commits_def dest: rely_wf wf_commit)

lemma get_rely: "rely (view w) (view (snd (w_get W k opt w)))"
proof (cases "w_get W k opt w")
  case (Pair r w')
  then show ?thesis by (cases r) (auto dest: get_err get_ok intro: rely_trans)
qed

lemma commits_later: "commits rely cs ts es v v' b \<Longrightarrow> wf_est v \<Longrightarrow> wf_est v' \<and> mvcc_le v v'"
proof -
  assume "commits rely cs ts es v v' b" "wf_est v"
  then obtain u ops where u: "rely v u" "rely (commit ops u) v'" by (auto simp: commits_def)
  with \<open>wf_est v\<close> have wf: "wf_est u" "wf_est (commit ops u)" by (auto intro: rely_wf wf_commit)
  have "mvcc_le v u" "mvcc_le (commit ops u) v'" using u wf \<open>wf_est v\<close> rely_mvcc by blast+
  then show ?thesis
    using mvcc_commit [of u ops] rely_wf [OF u(2) wf(2)] by (blast intro: mvcc_trans)
qed

lemma rely_later: "rely v v' \<Longrightarrow> wf_est v \<Longrightarrow> wf_est v' \<and> mvcc_le v v'"
  by (simp add: rely_wf rely_mvcc)

text \<open>A transaction whose branches both follow the environment's rules is itself such a step, whether
  its call returns or fails.\<close>

lemma commits_refine:
  assumes "commits rely cs ts es v v' b"
    and "\<And>u. rely v u \<Longrightarrow> list_all (eval_cmp u) cs \<Longrightarrow> leases_ok u ts \<Longrightarrow> rely u (commit ts u)"
    and "\<And>u. rely v u \<Longrightarrow> \<not> list_all (eval_cmp u) cs \<Longrightarrow> leases_ok u es \<Longrightarrow> rely u (commit es u)"
  shows "rely v v'"
proof -
  obtain u where u: "rely v u" "b = list_all (eval_cmp u) cs" "rely (commit (if b then ts else es) u) v'"
      "leases_ok u (if b then ts else es)"
    using assms(1) by (auto simp: commits_def)
  then have "rely u (commit (if b then ts else es) u)" using assms(2,3) by auto
  with u show ?thesis using rely_trans by blast
qed

lemma txn_refine:
  assumes "w_txn W cs ts es w = (r, w')"
    and "\<And>u. rely (view w) u \<Longrightarrow> list_all (eval_cmp u) cs \<Longrightarrow> leases_ok u ts \<Longrightarrow> rely u (commit ts u)"
    and "\<And>u. rely (view w) u \<Longrightarrow> \<not> list_all (eval_cmp u) cs \<Longrightarrow> leases_ok u es \<Longrightarrow> rely u (commit es u)"
  shows "rely (view w) (view w')"
proof (cases r)
  case (Inl e)
  with assms txn_err [of cs ts es w e w'] commits_refine show ?thesis by blast
next
  case (Inr b)
  with assms txn_ok [of cs ts es w b w'] commits_refine show ?thesis by blast
qed

lemma put_refine:
  assumes "w_put W k d l w = (r, w')" "\<And>u. rely (view w) u \<Longrightarrow> leases_ok u [OpPut k d l] \<Longrightarrow> rely u (commit [OpPut k d l] u)"
  shows "rely (view w) (view w')"
proof -
  have "rely (view w) (view w') \<or> commits rely [] [OpPut k d l] [] (view w) (view w') True"
    using assms(1) by (cases r) (auto dest: put_err put_ok)
  then show ?thesis using assms(2) by (auto elim: commits_refine)
qed

text \<open>The write-if-unchanged idiom: a value read with its revision is still there when a
  transaction that compares the revision succeeds.\<close>

lemma read_then_commit:
  assumes "mvcc_le u v" "wf_est u" "wf_est v" "kv_at u k = Some kv"
    and "commits rely cs ts es v v' True" "CmpModRevision k (kv_modrev kv) \<in> set cs"
  shows "\<exists>x. rely v x \<and> kv_at x k = Some kv \<and> list_all (eval_cmp x) cs \<and> leases_ok x ts \<and>
    rely (commit ts x) v'"
proof -
  obtain x where x: "rely v x" "list_all (eval_cmp x) cs" "leases_ok x ts" "rely (commit ts x) v'"
    using assms(5) by (auto simp: commits_def)
  have "mvcc_le u x" using assms(1) rely_mvcc [OF x(1) assms(3)] by (rule mvcc_trans)
  moreover have "modrev_at x k = kv_modrev kv"
    using x(2) assms(6) by (auto simp: list_all_iff)
  ultimately have "kv_at x k = Some kv"
    using mvcc_same_rev [OF _ assms(2,4)] by blast
  with x show ?thesis by blast
qed

end

subsection \<open>A concrete world\<close>

text \<open>A store in memory.  Each call first takes an entry of the script, which says what the other
  clients do before the call and whether the request or the reply is lost; when the script is
  empty nothing happens.  The clock advances by a fixed amount per reading, the random numbers are
  given by a seed.\<close>

datatype fault = NoFault | LostRequest | LostReply

record 'e mem =
  mem_store :: est
  mem_script :: "(fault \<times> 'e list) list"
  mem_clock :: instant
  mem_seed :: int

definition next_entry :: "('e \<Rightarrow> est \<Rightarrow> est) \<Rightarrow> 'e mem \<Rightarrow> fault \<times> 'e mem" where
  "next_entry env m = (case mem_script m of
     [] \<Rightarrow> (NoFault, m)
   | (f, es) # rest \<Rightarrow> (f, m\<lparr>mem_store := fold env es (mem_store m), mem_script := rest\<rparr>))"

definition timed_out :: gerr where
  "timed_out = Errorf ''etcdserver: request timed out''"

definition no_lease :: gerr where
  "no_lease = Errorf ''etcdserver: requested lease not found''"

definition mem_get :: "('e \<Rightarrow> est \<Rightarrow> est) \<Rightarrow> string \<Rightarrow> get_opt \<Rightarrow> 'e mem \<Rightarrow> (gerr + get_response) \<times> 'e mem" where
  "mem_get env k opt m = (case next_entry env m of
     (NoFault, m') \<Rightarrow> (Inr (get_view (mem_store m') k opt), m')
   | (_, m') \<Rightarrow> (Inl timed_out, m'))"

definition mem_txn :: "('e \<Rightarrow> est \<Rightarrow> est) \<Rightarrow> cmp list \<Rightarrow> op list \<Rightarrow> op list \<Rightarrow> 'e mem \<Rightarrow> (gerr + bool) \<times> 'e mem" where
  "mem_txn env cs ts es m = (case next_entry env m of
     (LostRequest, m') \<Rightarrow> (Inl timed_out, m')
   | (f, m') \<Rightarrow>
       let (b, st) = txn_step cs ts es (mem_store m') in
       if \<not> leases_ok (mem_store m') (if b then ts else es) then (Inl no_lease, m')
       else ((if f = LostReply then Inl timed_out else Inr b), m'\<lparr>mem_store := st\<rparr>))"

definition mem_put :: "('e \<Rightarrow> est \<Rightarrow> est) \<Rightarrow> string \<Rightarrow> data \<Rightarrow> int \<Rightarrow> 'e mem \<Rightarrow> (gerr + unit) \<times> 'e mem" where
  "mem_put env k d l m = (case mem_txn env [] [OpPut k d l] [] m of
     (Inl e, m') \<Rightarrow> (Inl e, m') | (Inr _, m') \<Rightarrow> (Inr (), m'))"

definition mem_world :: "('e \<Rightarrow> est \<Rightarrow> est) \<Rightarrow> 'e mem world" where
  "mem_world env = \<lparr>w_get = mem_get env, w_put = mem_put env, w_txn = mem_txn env,
     w_now = (\<lambda>m. (mem_clock m, m\<lparr>mem_clock := mem_clock m + 1000000\<rparr>)),
     w_rand = (\<lambda>n m. (mem_seed m mod (if 0 < n then n else 1), m\<lparr>mem_seed := mem_seed m * 7 + 3\<rparr>))\<rparr>"

lemma fold_env: "(\<And>e v. rely v (env e v)) \<Longrightarrow> reflp rely \<Longrightarrow> transp rely \<Longrightarrow> rely v (fold env es v)"
  by (induction es arbitrary: v) (auto dest: reflpD, metis transpD)

lemma next_entry_rely:
  assumes "env_ok rely" "\<And>e v. rely v (env e v)" "next_entry env m = (f, m')"
  shows "rely (mem_store m) (mem_store m')"
  using assms(3) fold_env [of rely env] assms(1,2)
  by (auto simp: next_entry_def env_ok_def dest: reflpD split: list.splits prod.splits)

lemma mem_txn_commits:
  assumes "env_ok rely" "\<And>e v. rely v (env e v)" "mem_txn env cs ts es m = (r, m')"
  shows "case r of Inr b \<Rightarrow> commits rely cs ts es (mem_store m) (mem_store m') b
    | Inl e \<Rightarrow> rely (mem_store m) (mem_store m') \<or> (\<exists>b. commits rely cs ts es (mem_store m) (mem_store m') b)"
proof -
  obtain f m1 where e: "next_entry env m = (f, m1)" by (cases "next_entry env m")
  have r: "rely (mem_store m) (mem_store m1)"
    using next_entry_rely [of rely env m f m1] assms(1,2) e by blast
  have rr: "\<And>v. rely v v" using assms(1) by (auto simp: env_ok_def dest: reflpD)
  obtain b st where t: "txn_step cs ts es (mem_store m1) = (b, st)"
    by (cases "txn_step cs ts es (mem_store m1)")
  then have b: "b = list_all (eval_cmp (mem_store m1)) cs"
    using txn_step_fst [of cs ts es "mem_store m1"] by simp
  have "commits rely cs ts es (mem_store m) st b" if "leases_ok (mem_store m1) (if b then ts else es)"
    unfolding commits_def using that r rr t b txn_step_commit [of cs ts es "mem_store m1"]
    by (intro exI [of _ "mem_store m1"]) simp
  then show ?thesis
    using assms(3) r by (cases f) (auto simp: mem_txn_def e t split: if_splits)
qed

lemma mem_etcd:
  assumes "env_ok rely" "\<And>e v. rely v (env e v)"
  shows "etcd (mem_world env) mem_store rely"
proof unfold_locales
  show "env_ok rely" by (fact assms(1))
  note txn = mem_txn_commits [of rely env, OF assms]
  have rr: "\<And>v. rely v v" using assms(1) by (auto simp: env_ok_def dest: reflpD)
  show "\<exists>u. rely (mem_store w) u \<and> r = get_view u k opt \<and> rely u (mem_store w')"
    if "w_get (mem_world env) k opt w = (Inr r, w')" for k opt w r w'
    using that rr next_entry_rely [of rely env w, OF assms]
    by (auto simp: mem_world_def mem_get_def split: prod.splits fault.splits)
  show "rely (mem_store w) (mem_store w')" if "w_get (mem_world env) k opt w = (Inl e, w')" for k opt w e w'
    using that next_entry_rely [of rely env w, OF assms]
    by (auto simp: mem_world_def mem_get_def split: prod.splits fault.splits)
  show "commits rely cs ts es (mem_store w) (mem_store w') b"
    if "w_txn (mem_world env) cs ts es w = (Inr b, w')" for cs ts es w b w'
    using txn that by (fastforce simp: mem_world_def)
  show "rely (mem_store w) (mem_store w') \<or> (\<exists>b. commits rely cs ts es (mem_store w) (mem_store w') b)"
    if "w_txn (mem_world env) cs ts es w = (Inl e, w')" for cs ts es w e w'
    using txn that by (fastforce simp: mem_world_def)
  have put: "commits rely [] [OpPut k d l] [] v v' b \<Longrightarrow> b" for k d l v v' b
    by (auto simp: commits_def)
  show "commits rely [] [OpPut k d l] [] (mem_store w) (mem_store w') True"
    if "w_put (mem_world env) k d l w = (Inr x, w')" for k d l w x w'
    using that txn [of "[]" "[OpPut k d l]" "[]" w] put
    by (fastforce simp: mem_world_def mem_put_def split: prod.splits sum.splits)
  show "rely (mem_store w) (mem_store w') \<or> commits rely [] [OpPut k d l] [] (mem_store w) (mem_store w') True"
    if "w_put (mem_world env) k d l w = (Inl e, w')" for k d l w e w'
    using that txn [of "[]" "[OpPut k d l]" "[]" w] put
    by (fastforce simp: mem_world_def mem_put_def split: prod.splits sum.splits)
  show "rely (mem_store w) (mem_store (snd (w_now (mem_world env) w)))" for w
    using rr by (simp add: mem_world_def)
  show "rely (mem_store w) (mem_store (snd (w_rand (mem_world env) n w)))" for n w
    using rr by (simp add: mem_world_def)
  show "0 \<le> fst (w_rand (mem_world env) n w) \<and> fst (w_rand (mem_world env) n w) < n" if "0 < n" for n w
    using that by (simp add: mem_world_def)
qed

text \<open>Two environments.  The busy one is any sequence of transactions of other clients, lease grants
  and expiries; the calm one leaves the store alone between the calls of this node.\<close>

definition grant :: "int \<Rightarrow> est \<Rightarrow> est" where
  "grant l st = st\<lparr>es_leases := insert l (es_leases st), es_used := l # es_used st\<rparr>"

lemma wf_grant: "wf_est st \<Longrightarrow> wf_est (grant l st)"
  by (auto simp: wf_est_def grant_def)

lemma mvcc_grant: "mvcc_le st (grant l st)"
  by (auto simp: mvcc_le_def grant_def etcd_simps)

text \<open>A lease that was never granted before.\<close>

definition fresh_lease :: "est \<Rightarrow> int" where
  "fresh_lease st = foldr max (es_used st) 0 + 1"

lemma fresh_lease: "fresh_lease st \<notin> set (es_used st)" "fresh_lease st \<noteq> NoLease"
proof -
  have b: "x \<in> set xs \<Longrightarrow> x \<le> foldr max xs 0" "0 \<le> foldr max xs (0 :: int)" for x xs
    by (induction xs) auto
  show "fresh_lease st \<notin> set (es_used st)" using b(1) [of "fresh_lease st" "es_used st"] by (auto simp: fresh_lease_def)
  show "fresh_lease st \<noteq> NoLease" using b(2) [of "es_used st"] by (simp add: fresh_lease_def NoLease_def)
qed

lemma mem_world_sel [simp]:
  "w_get (mem_world env) = mem_get env" "w_put (mem_world env) = mem_put env"
  "w_txn (mem_world env) = mem_txn env"
  "w_now (mem_world env) = (\<lambda>m. (mem_clock m, m\<lparr>mem_clock := mem_clock m + 1000000\<rparr>))"
  "w_rand (mem_world env) = (\<lambda>n m. (mem_seed m mod (if 0 < n then n else 1), m\<lparr>mem_seed := mem_seed m * 7 + 3\<rparr>))"
  by (simp_all add: mem_world_def)

text \<open>The calls of a world whose script is over.\<close>

lemma mem_get_quiet: "mem_script m = [] \<Longrightarrow> mem_get env k opt m = (Inr (get_view (mem_store m) k opt), m)"
  by (simp add: mem_get_def next_entry_def)

lemma mem_txn_quiet:
  "mem_script m = [] \<Longrightarrow> b = list_all (eval_cmp (mem_store m)) cs \<Longrightarrow>
   leases_ok (mem_store m) (if b then ts else es) \<Longrightarrow>
   mem_txn env cs ts es m = (Inr b, m\<lparr>mem_store := commit (if b then ts else es) (mem_store m)\<rparr>)"
  using txn_step_commit [of cs ts es "mem_store m"] txn_step_fst [of cs ts es "mem_store m"]
  by (auto simp: mem_txn_def next_entry_def Let_def split: prod.splits)

lemma mem_put_quiet:
  "mem_script m = [] \<Longrightarrow> leases_ok (mem_store m) [OpPut k d l] \<Longrightarrow>
   mem_put env k d l m = (Inr (), m\<lparr>mem_store := commit [OpPut k d l] (mem_store m)\<rparr>)"
  by (simp add: mem_put_def mem_txn_quiet)

lemmas quiet = mem_get_quiet mem_txn_quiet mem_put_quiet

inductive any_step :: "est \<Rightarrow> est \<Rightarrow> bool" where
  other_txn: "any_step v (snd (txn_step cs ts es v))"
| lapse: "any_step v (expire l v)"
| granted: "any_step v (grant l v)"

inductive_cases any_stepE: "any_step v v'"

lemma env_ok_steps:
  assumes step: "\<And>v v'. R v v' \<Longrightarrow> wf_est v \<Longrightarrow> wf_est v' \<and> mvcc_le v v'"
  shows "env_ok R\<^sup>*\<^sup>*"
proof -
  have "wf_est v' \<and> mvcc_le v v'" if "R\<^sup>*\<^sup>* v v'" "wf_est v" for v v'
    using that by (induction rule: rtranclp_induct) (auto simp: mvcc_refl dest: step intro: mvcc_trans)
  then show ?thesis by (auto simp: env_ok_def intro: reflpI transpI)
qed

lemma env_ok_any: "env_ok any_step\<^sup>*\<^sup>*"
  by (rule env_ok_steps)
    (auto elim!: any_stepE simp: wf_txn_step wf_expire wf_grant mvcc_txn mvcc_expire mvcc_grant)

lemma env_ok_eq: "env_ok (=)"
  by (auto simp: env_ok_def mvcc_refl intro: reflpI transpI)

datatype event = Interfere "cmp list" "op list" "op list" | Expire int | Grant int

fun run_event :: "event \<Rightarrow> est \<Rightarrow> est" where
  "run_event (Interfere cs ts es) v = snd (txn_step cs ts es v)"
| "run_event (Expire l) v = expire l v"
| "run_event (Grant l) v = grant l v"

lemma run_event_step: "any_step\<^sup>*\<^sup>* v (run_event e v)"
  by (cases e) (auto intro!: r_into_rtranclp any_step.intros)

definition idle :: "unit \<Rightarrow> est \<Rightarrow> est" where
  "idle e v = v"

interpretation busy: etcd "mem_world run_event" mem_store "any_step\<^sup>*\<^sup>*"
  by (rule mem_etcd) (simp_all add: env_ok_any run_event_step)

interpretation calm: etcd "mem_world idle" mem_store "(=)"
  by (rule mem_etcd) (simp_all add: env_ok_eq idle_def)

text \<open>The keys that are attached to a lease are attached to a live one: this is how a lease's end takes its
  keys along for good.\<close>

definition attached :: "est \<Rightarrow> bool" where
  "attached v \<longleftrightarrow> (\<forall>k kv. kv_at v k = Some kv \<longrightarrow> kv_lease kv = NoLease \<or> kv_lease kv \<in> es_leases v)"

lemma attached_commit:
  assumes "attached v" "leases_ok v ops"
  shows "attached (commit ops v)"
proof -
  have "kv_lease kv = NoLease \<or> kv_lease kv \<in> es_leases u" if "kv_at (apply_ops r ops u) k = Some kv" "leases_ok u ops"
      "\<forall>k kv. kv_at u k = Some kv \<longrightarrow> kv_lease kv = NoLease \<or> kv_lease kv \<in> es_leases u" for k kv r u
    using that
  proof (induction ops arbitrary: u)
    case (Cons x xs)
    let ?u = "apply_op r x u"
    have l: "es_leases ?u = es_leases u" by (simp add: etcd_simps)
    have "kv_lease kv = NoLease \<or> kv_lease kv \<in> es_leases ?u" if "kv_at ?u k = Some kv" for k kv
      using that Cons.prems(2,3) l
      by (cases x) (auto simp: kv_at_put kv_at_delete leases_ok_def simp del: apply_op.simps split: if_splits)
    moreover have "leases_ok ?u xs" using Cons.prems(2) l by (simp add: leases_ok_def)
    ultimately have "kv_lease kv = NoLease \<or> kv_lease kv \<in> es_leases ?u"
      using Cons.IH [of ?u] Cons.prems(1) by (simp add: etcd_simps)
    with l show ?case by simp
  qed (simp add: etcd_simps)
  with assms show ?thesis by (simp add: attached_def kv_at_commit commit_leases)
qed

lemma attached_expire: "attached v \<Longrightarrow> wf_est v \<Longrightarrow> attached (expire l v)"
  unfolding attached_def by (auto simp: kv_at_expired split: option.splits if_splits) (auto simp: expire_def)

lemma attached_grant: "attached v \<Longrightarrow> attached (grant l v)"
  by (auto simp: attached_def grant_def etcd_simps)

text \<open>A calm world meets the contract for every environment.\<close>

lemma calm_etcd: "env_ok rely \<Longrightarrow> etcd (mem_world idle) mem_store rely"
  by (rule mem_etcd) (auto simp: idle_def env_ok_def dest: reflpD)

declare apply_op.simps [simp del]

end
