(* ===== verification/Queue.thy ===== *)
theory Queue
  imports Etcd
begin

section \<open>The ticket queue: internal/queue\<close>

text \<open>
  The queue is a set of etcd keys: a pending ticket, a claim that rides on a lease, an overlap lock
  per job, a watermark per job and the published results.  Each operation of \<open>queue.go\<close>, \<open>claim.go\<close>,
  \<open>gc.go\<close> and \<open>snapshot.go\<close> is a function of the queue (its client, node id and lease callback) and of
  the world, and returns the result with the world after it.  An error return is \<open>Inl\<close>; \<open>claim\<close> can
  also panic, because it reads the response of a failed commit.  The comparisons and operations of
  each transaction are definitions of their own, so that the step relation of \<open>Queue_Steps\<close> speaks of
  the same transactions.
\<close>

subsection \<open>Keys\<close>

definition PendingPrefix :: string where "PendingPrefix = ''/cron/tasks/pending/''"
definition ClaimedPrefix :: string where "ClaimedPrefix = ''/cron/tasks/claimed/''"
definition ResultsPrefix :: string where "ResultsPrefix = ''/cron/results/''"
definition OverlapPrefix :: string where "OverlapPrefix = ''/cron/overlap/''"
definition WatermarkPrefix :: string where "WatermarkPrefix = ''/cron/watermark/''"

lemmas prefix_defs = PendingPrefix_def ClaimedPrefix_def ResultsPrefix_def OverlapPrefix_def WatermarkPrefix_def

record 'w queue =
  q_cli :: "'w world"
  q_nodeID :: string
  q_claimLease :: "'w \<Rightarrow> int \<times> 'w"

definition New_queue :: "'w world \<Rightarrow> string \<Rightarrow> ('w \<Rightarrow> int \<times> 'w) \<Rightarrow> 'w queue" where
  "New_queue cli nodeID claimLease = \<lparr>q_cli = cli, q_nodeID = nodeID, q_claimLease = claimLease\<rparr>"

definition stamp :: "ticket \<Rightarrow> string" where
  "stamp t = FormatInt (t_JobID t) @ ''@'' @ t_SchedAt t"

definition PendingKey :: "ticket \<Rightarrow> string" where
  "PendingKey t = PendingPrefix @ stamp t"

definition ClaimedKey :: "ticket \<Rightarrow> string" where
  "ClaimedKey t = ClaimedPrefix @ stamp t"

definition OverlapKey :: "int \<Rightarrow> string" where
  "OverlapKey jobID = OverlapPrefix @ FormatInt jobID"

definition WatermarkKey :: "int \<Rightarrow> string" where
  "WatermarkKey jobID = WatermarkPrefix @ FormatInt jobID"

definition ResultKey :: "ticket \<Rightarrow> string" where
  "ResultKey t = ResultsPrefix @ stamp t @ ''#'' @ FormatInt (t_Attempt t)"

subsection \<open>Enqueueing and watermarks\<close>

definition Enqueue :: "'w queue \<Rightarrow> ticket \<Rightarrow> 'w \<Rightarrow> (gerr + bool) \<times> 'w" where
  "Enqueue q t w =
     (let b = marshal_ticket t;
          key = PendingKey t
      in case w_txn (q_cli q) [CmpVersion key 0] [OpPut key b NoLease] [] w of
           (Inl err, w') \<Rightarrow> (Inl (Wrap ''queue: enqueue: '' err), w')
         | (Inr succeeded, w') \<Rightarrow> (Inr succeeded, w'))"

definition EnqueueFire :: "'w queue \<Rightarrow> ticket \<Rightarrow> string \<Rightarrow> 'w \<Rightarrow> (gerr + bool) \<times> 'w" where
  "EnqueueFire q t fireTime w =
     (let b = marshal_ticket t;
          key = PendingKey t
      in case w_txn (q_cli q) [CmpVersion key 0]
                [OpPut key b NoLease, OpPut (WatermarkKey (t_JobID t)) (Text fireTime) NoLease] [] w of
           (Inl err, w') \<Rightarrow> (Inl (Wrap ''queue: enqueue fire: '' err), w')
         | (Inr succeeded, w') \<Rightarrow> (Inr succeeded, w'))"

definition AdvanceWatermark :: "'w queue \<Rightarrow> int \<Rightarrow> string \<Rightarrow> 'w \<Rightarrow> (gerr + unit) \<times> 'w" where
  "AdvanceWatermark q jobID fireTime w =
     (case w_put (q_cli q) (WatermarkKey jobID) (Text fireTime) NoLease w of
        (Inl err, w') \<Rightarrow> (Inl (Wrap ''queue: advance watermark: '' err), w')
      | (Inr _, w') \<Rightarrow> (Inr (), w'))"

definition Watermark :: "'w queue \<Rightarrow> int \<Rightarrow> 'w \<Rightarrow> (gerr + string option) \<times> 'w" where
  "Watermark q jobID w =
     (case w_get (q_cli q) (WatermarkKey jobID) Single w of
        (Inl err, w') \<Rightarrow> (Inl (Wrap ''queue: watermark: '' err), w')
      | (Inr resp, w') \<Rightarrow> (case gr_kvs resp of
            [] \<Rightarrow> (Inr None, w')
          | kv # _ \<Rightarrow> (Inr (Some (text_of (kv_value kv))), w')))"

definition hex4 :: "int \<Rightarrow> string" where
  "hex4 n = map (\<lambda>i. hex_digit (nat (n div 16 ^ i mod 16))) [3, 2, 1, 0]"

definition manualStamp :: "instant \<Rightarrow> int \<Rightarrow> string" where
  "manualStamp now r = Format_RFC3339Nano now @ ''-m'' @ hex4 r"

definition manualTicket :: "job \<Rightarrow> string \<Rightarrow> ticket" where
  "manualTicket j schedAt = \<lparr>t_JobID = j_ID j, t_Name = j_Name j, t_Command = j_Command j,
     t_TimeoutSec = j_TimeoutSec j, t_MaxRetries = j_MaxRetries j, t_NoOverlap = j_NoOverlap j,
     t_SchedAt = schedAt, t_Attempt = 0, t_NotBefore = [], t_Manual = True\<rparr>"

definition Trigger :: "'w queue \<Rightarrow> job \<Rightarrow> 'w \<Rightarrow> (gerr + unit) \<times> 'w" where
  "Trigger q j w =
     (let (now, w1) = w_now (q_cli q) w;
          (r, w2) = w_rand (q_cli q) 65535 w1;
          t = manualTicket j (manualStamp now r)
      in case Enqueue q t w2 of
           (Inl err, w3) \<Rightarrow> (Inl err, w3)
         | (Inr _, w3) \<Rightarrow> (Inr (), w3))"

subsection \<open>Finishing a run\<close>

text \<open>\<open>1<<uint(attempt)\<close> is a 64-bit shift: a count of 64 or more, which a negative attempt becomes,
  gives zero; the multiplication by \<open>time.Second\<close> wraps.\<close>

definition Backoff :: "int \<Rightarrow> instant \<Rightarrow> instant" where
  "Backoff attempt now =
     (let s = (if 0 \<le> attempt \<and> attempt < 64 then wrap64 (2 ^ nat attempt) else 0);
          d = wrap64 (s * Second);
          d = (if d > 5 * Minute then 5 * Minute else d)
      in now + d)"

definition overlapRelease :: "ticket \<Rightarrow> op list" where
  "overlapRelease t = (if \<not> t_NoOverlap t then [] else [OpDelete (OverlapKey (t_JobID t))])"

definition success_ops :: "ticket \<Rightarrow> result \<Rightarrow> op list" where
  "success_ops t res =
     [OpDelete (PendingKey t), OpDelete (ClaimedKey t), OpPut (ResultKey t) (marshal_result res) NoLease]
     @ overlapRelease t"

definition FinishSuccess :: "'w queue \<Rightarrow> ticket \<Rightarrow> result \<Rightarrow> 'w \<Rightarrow> (gerr + unit) \<times> 'w" where
  "FinishSuccess q t res w =
     (case w_txn (q_cli q) [CmpValue (ClaimedKey t) (Text (q_nodeID q))] (success_ops t res)
             [OpPut (ResultKey t) (marshal_result res) NoLease] w of
        (Inl err, w') \<Rightarrow> (Inl (Wrap ''queue: finish success: '' err), w')
      | (Inr _, w') \<Rightarrow> (Inr (), w'))"

definition giveUp :: "ticket \<Rightarrow> bool" where
  "giveUp t \<longleftrightarrow> t_Attempt t > t_MaxRetries t"

definition failure_result :: "ticket \<Rightarrow> result \<Rightarrow> result" where
  "failure_result t res =
     (let res = (if r_Status res = [] then res\<lparr>r_Status := StatusFailed\<rparr> else res)
      in if giveUp t then res\<lparr>r_Status := StatusFailedPermanent\<rparr> else res)"

definition retry_ticket :: "ticket \<Rightarrow> instant \<Rightarrow> ticket" where
  "retry_ticket t now = t\<lparr>t_NotBefore := Format_RFC3339 (Backoff (t_Attempt t) now)\<rparr>"

definition failure_ops :: "ticket \<Rightarrow> result \<Rightarrow> instant \<Rightarrow> op list" where
  "failure_ops t res now =
     (let pub = OpPut (ResultKey t) (marshal_result (failure_result t res)) NoLease
      in (if giveUp t then [OpDelete (PendingKey t), OpDelete (ClaimedKey t), pub]
          else [OpPut (PendingKey t) (marshal_ticket (retry_ticket t now)) NoLease,
                OpDelete (ClaimedKey t), pub])
         @ overlapRelease t)"

definition FinishFailure :: "'w queue \<Rightarrow> ticket \<Rightarrow> result \<Rightarrow> instant \<Rightarrow> 'w \<Rightarrow> (gerr + unit) \<times> 'w" where
  "FinishFailure q t res now w =
     (case w_txn (q_cli q) [CmpValue (ClaimedKey t) (Text (q_nodeID q))] (failure_ops t res now)
             [OpPut (ResultKey t) (marshal_result (failure_result t res)) NoLease] w of
        (Inl err, w') \<Rightarrow> (Inl (Wrap ''queue: finish failure: '' err), w')
      | (Inr _, w') \<Rightarrow> (Inr (), w'))"

definition closing_result :: "string \<Rightarrow> ticket \<Rightarrow> string \<Rightarrow> instant \<Rightarrow> result" where
  "closing_result nodeID t status now = zero_result\<lparr>r_JobID := t_JobID t, r_SchedAt := t_SchedAt t,
     r_Attempt := t_Attempt t, r_NodeID := nodeID, r_Status := status, r_StartedAt := Format_RFC3339 now\<rparr>"

definition Abandon :: "'w queue \<Rightarrow> ticket \<Rightarrow> 'w \<Rightarrow> (gerr + unit) \<times> 'w" where
  "Abandon q t w =
     (let (now, w1) = w_now (q_cli q) w;
          res = closing_result (q_nodeID q) t StatusAbandoned now
      in case w_txn (q_cli q) [CmpVersion (ClaimedKey t) 0]
                [OpDelete (PendingKey t), OpPut (ResultKey t) (marshal_result res) NoLease] [] w1 of
           (Inl err, w2) \<Rightarrow> (Inl err, w2)
         | (Inr _, w2) \<Rightarrow> (Inr (), w2))"

subsection \<open>Claiming\<close>

definition claimScanLimit :: int where
  "claimScanLimit = 64"

datatype 'a res = Ok 'a | Err gerr | Panic

definition bump :: "ticket \<Rightarrow> ticket" where
  "bump t = t\<lparr>t_Attempt := wrap64 (t_Attempt t + 1)\<rparr>"

definition claim_key :: "kv \<Rightarrow> string" where
  "claim_key kv = ClaimedPrefix @ drop (length PendingPrefix) (kv_key kv)"

definition claim_cmps :: "kv \<Rightarrow> ticket \<Rightarrow> cmp list" where
  "claim_cmps kv t =
     [CmpVersion (claim_key kv) 0, CmpModRevision (kv_key kv) (kv_modrev kv)]
     @ (if t_NoOverlap t then [CmpVersion (OverlapKey (t_JobID t)) 0] else [])"

definition claim_ops :: "string \<Rightarrow> kv \<Rightarrow> ticket \<Rightarrow> int \<Rightarrow> int \<Rightarrow> op list" where
  "claim_ops nodeID kv t l1 l2 =
     [OpPut (claim_key kv) (Text nodeID) l1, OpPut (kv_key kv) (marshal_ticket (bump t)) NoLease]
     @ (if t_NoOverlap t then [OpPut (OverlapKey (t_JobID t)) (Text nodeID) l2] else [])"

text \<open>The lease callback is called once for the claim and, for a ticket that forbids overlap, once
  more for the lock.  The response of \<open>Commit\<close> is \<open>nil\<close> when it fails, and \<open>resp.Succeeded\<close> panics.\<close>

definition claim :: "'w queue \<Rightarrow> kv \<Rightarrow> ticket \<Rightarrow> 'w \<Rightarrow> bool res \<times> 'w" where
  "claim q kv t w =
     (let (l1, w1) = q_claimLease q w;
          (l2, w2) = (if t_NoOverlap t then q_claimLease q w1 else (NoLease, w1))
      in case w_txn (q_cli q) (claim_cmps kv t) (claim_ops (q_nodeID q) kv t l1 l2) [] w2 of
           (Inl err, w3) \<Rightarrow> (Panic, w3)
         | (Inr succeeded, w3) \<Rightarrow> (Ok succeeded, w3))"

definition overlapHeld :: "'w queue \<Rightarrow> int \<Rightarrow> 'w \<Rightarrow> bool \<times> 'w" where
  "overlapHeld q jobID w =
     (case w_get (q_cli q) (OverlapKey jobID) Single w of
        (Inl err, w') \<Rightarrow> (False, w')
      | (Inr resp, w') \<Rightarrow> (gr_kvs resp \<noteq> [], w'))"

definition skipStale :: "'w queue \<Rightarrow> kv \<Rightarrow> ticket \<Rightarrow> 'w \<Rightarrow> (gerr + unit) \<times> 'w" where
  "skipStale q kv t w =
     (let (now, w1) = w_now (q_cli q) w;
          res = closing_result (q_nodeID q) t StatusSkipped now
      in case w_txn (q_cli q) [CmpModRevision (kv_key kv) (kv_modrev kv)]
                [OpDelete (kv_key kv), OpPut (ResultKey t) (marshal_result res) NoLease] [] w1 of
           (Inl err, w2) \<Rightarrow> (Inl err, w2)
         | (Inr _, w2) \<Rightarrow> (Inr (), w2))"

definition notYet :: "ticket \<Rightarrow> instant \<Rightarrow> bool" where
  "notYet t now \<longleftrightarrow> t_NotBefore t \<noteq> [] \<and>
     (case Parse_RFC3339 (t_NotBefore t) of Some nb \<Rightarrow> nb > now | None \<Rightarrow> False)"

fun claimScan :: "'w queue \<Rightarrow> instant \<Rightarrow> kv list \<Rightarrow> 'w \<Rightarrow> ticket option res \<times> 'w" where
  "claimScan q now [] w = (Ok None, w)"
| "claimScan q now (kv # kvs) w =
     (case unmarshal_ticket (kv_value kv) of
        None \<Rightarrow> claimScan q now kvs w
      | Some t \<Rightarrow>
          if notYet t now then claimScan q now kvs w
          else (case claim q kv t w of
              (Err err, w1) \<Rightarrow> (Err err, w1)
            | (Panic, w1) \<Rightarrow> (Panic, w1)
            | (Ok ok, w1) \<Rightarrow>
                if ok then (Ok (Some (bump t)), w1)
                else if t_NoOverlap t then
                  (case overlapHeld q (t_JobID t) w1 of
                     (False, w2) \<Rightarrow> claimScan q now kvs w2
                   | (True, w2) \<Rightarrow> (case skipStale q kv (bump t) w2 of
                         (Inl err, w3) \<Rightarrow> (Err err, w3)
                       | (Inr _, w3) \<Rightarrow> claimScan q now kvs w3))
                else claimScan q now kvs w1))"

definition ClaimNext :: "'w queue \<Rightarrow> instant \<Rightarrow> 'w \<Rightarrow> ticket option res \<times> 'w" where
  "ClaimNext q now w =
     (case w_get (q_cli q) PendingPrefix (Prefix claimScanLimit) w of
        (Inl err, w') \<Rightarrow> (Err (Wrap ''queue: scan: '' err), w')
      | (Inr resp, w') \<Rightarrow> claimScan q now (gr_kvs resp) w')"

subsection \<open>Collecting old results\<close>

definition result_stamp :: "result \<Rightarrow> string" where
  "result_stamp r = (if r_FinishedAt r = [] then r_StartedAt r else r_FinishedAt r)"

definition expired_result :: "duration \<Rightarrow> instant \<Rightarrow> kv \<Rightarrow> bool" where
  "expired_result retention now kv \<longleftrightarrow>
     (case unmarshal_result (kv_value kv) of
        None \<Rightarrow> False
      | Some r \<Rightarrow> result_stamp r \<noteq> [] \<and>
          (case Parse_RFC3339 (result_stamp r) of
             None \<Rightarrow> False
           | Some t \<Rightarrow> Sub now t > retention))"

function gcBatches :: "'w queue \<Rightarrow> string list \<Rightarrow> nat \<Rightarrow> 'w \<Rightarrow> (int \<times> gerr option) \<times> 'w" where
  "gcBatches q doomed i w =
     (if i < length doomed then
        (let e = (if i + 100 > length doomed then length doomed else i + 100);
             ops = map OpDelete (take (e - i) (drop i doomed))
         in case w_txn (q_cli q) [] ops [] w of
              (Inl err, w') \<Rightarrow> ((int i, Some err), w')
            | (Inr _, w') \<Rightarrow> gcBatches q doomed (i + 100) w')
      else ((int (length doomed), None), w))"
  by pat_completeness auto
termination by (relation "measure (\<lambda>(q, doomed, i, w). length doomed - i)") auto

declare gcBatches.simps [simp del]

definition GCResults :: "'w queue \<Rightarrow> duration \<Rightarrow> instant \<Rightarrow> 'w \<Rightarrow> (int \<times> gerr option) \<times> 'w" where
  "GCResults q retention now w =
     (case w_get (q_cli q) ResultsPrefix (Prefix 1000) w of
        (Inl err, w') \<Rightarrow> ((0, Some err), w')
      | (Inr resp, w') \<Rightarrow>
          gcBatches q (map kv_key (filter (expired_result retention now) (gr_kvs resp))) 0 w')"

subsection \<open>Snapshots\<close>

record Claim =
  c_JobID :: int
  c_SchedAt :: string
  c_NodeID :: string

definition PendingTickets :: "'w queue \<Rightarrow> int \<Rightarrow> 'w \<Rightarrow> (gerr + ticket list) \<times> 'w" where
  "PendingTickets q limit w =
     (let limit = (if limit \<le> 0 then 50 else limit)
      in case w_get (q_cli q) PendingPrefix (Prefix limit) w of
           (Inl err, w') \<Rightarrow> (Inl err, w')
         | (Inr resp, w') \<Rightarrow> (Inr (List.map_filter (\<lambda>kv. unmarshal_ticket (kv_value kv)) (gr_kvs resp)), w'))"

definition CountPending :: "'w queue \<Rightarrow> 'w \<Rightarrow> (gerr + int) \<times> 'w" where
  "CountPending q w =
     (case w_get (q_cli q) PendingPrefix CountOnly w of
        (Inl err, w') \<Rightarrow> (Inl err, w')
      | (Inr resp, w') \<Rightarrow> (Inr (gr_count resp), w'))"

definition claim_of_kv :: "kv \<Rightarrow> Claim option" where
  "claim_of_kv kv =
     (let body = TrimPrefix (kv_key kv) ClaimedPrefix
      in case Index body (CHR ''@'') of
           None \<Rightarrow> None
         | Some i \<Rightarrow> if i > 0 then
               (case ParseInt (take i body) of
                  None \<Rightarrow> None
                | Some jid \<Rightarrow> Some \<lparr>c_JobID = jid, c_SchedAt = drop (i + 1) body, c_NodeID = text_of (kv_value kv)\<rparr>)
             else None)"

definition Claims :: "'w queue \<Rightarrow> 'w \<Rightarrow> (gerr + Claim list) \<times> 'w" where
  "Claims q w =
     (case w_get (q_cli q) ClaimedPrefix (Prefix 0) w of
        (Inl err, w') \<Rightarrow> (Inl err, w')
      | (Inr resp, w') \<Rightarrow> (Inr (List.map_filter claim_of_kv (gr_kvs resp)), w'))"

subsection \<open>Keys identify tickets\<close>

named_theorems key_simps

lemma FormatInt_at: "CHR ''@'' \<notin> set (FormatInt i)" "CHR ''#'' \<notin> set (FormatInt i)"
  by (rule FormatInt_no; simp add: is_digit_def)+

lemma split_unique: "c \<notin> set xs \<Longrightarrow> c \<notin> set xs' \<Longrightarrow> xs @ c # ys = xs' @ c # ys' \<longleftrightarrow> xs = xs' \<and> ys = ys'"
proof (induction xs arbitrary: xs')
  case Nil
  then show ?case by (cases xs') auto
next
  case (Cons a xs)
  then show ?case by (cases xs') auto
qed

lemma split_unique_last: "c \<notin> set ys \<Longrightarrow> c \<notin> set ys' \<Longrightarrow> xs @ c # ys = xs' @ c # ys' \<longleftrightarrow> xs = xs' \<and> ys = ys'"
  using split_unique [of c "rev ys" "rev ys'" "rev xs" "rev xs'"]
  by (metis append.assoc append_Cons append_Nil rev.simps(2) rev_append rev_is_rev_conv set_rev)

lemma stamp_eq [key_simps]:
  "stamp t = stamp t' \<longleftrightarrow> t_JobID t = t_JobID t' \<and> t_SchedAt t = t_SchedAt t'"
  using split_unique [of "CHR ''@''" "FormatInt (t_JobID t)" "FormatInt (t_JobID t')"]
  by (simp add: stamp_def FormatInt_at)

lemma PendingKey_eq [key_simps]: "PendingKey t = PendingKey t' \<longleftrightarrow> stamp t = stamp t'"
  by (simp add: PendingKey_def)

lemma ClaimedKey_eq [key_simps]: "ClaimedKey t = ClaimedKey t' \<longleftrightarrow> stamp t = stamp t'"
  by (simp add: ClaimedKey_def)

lemma ResultKey_eq:
  "ResultKey t = ResultKey t' \<longleftrightarrow> stamp t = stamp t' \<and> t_Attempt t = t_Attempt t'"
  using split_unique_last [of "CHR ''#''" "FormatInt (t_Attempt t)" "FormatInt (t_Attempt t')"]
  by (simp add: ResultKey_def FormatInt_at)

lemma OverlapKey_eq [key_simps]: "OverlapKey i = OverlapKey j \<longleftrightarrow> i = j"
  by (simp add: OverlapKey_def)

lemma WatermarkKey_eq [key_simps]: "WatermarkKey i = WatermarkKey j \<longleftrightarrow> i = j"
  by (simp add: WatermarkKey_def)

lemma prefix_apart [key_simps]:
  "PendingPrefix @ x \<noteq> ClaimedPrefix @ y" "ClaimedPrefix @ y \<noteq> PendingPrefix @ x"
  "PendingPrefix @ x \<noteq> ResultsPrefix @ y" "ResultsPrefix @ y \<noteq> PendingPrefix @ x"
  "PendingPrefix @ x \<noteq> OverlapPrefix @ y" "OverlapPrefix @ y \<noteq> PendingPrefix @ x"
  "PendingPrefix @ x \<noteq> WatermarkPrefix @ y" "WatermarkPrefix @ y \<noteq> PendingPrefix @ x"
  "ClaimedPrefix @ x \<noteq> ResultsPrefix @ y" "ResultsPrefix @ y \<noteq> ClaimedPrefix @ x"
  "ClaimedPrefix @ x \<noteq> OverlapPrefix @ y" "OverlapPrefix @ y \<noteq> ClaimedPrefix @ x"
  "ClaimedPrefix @ x \<noteq> WatermarkPrefix @ y" "WatermarkPrefix @ y \<noteq> ClaimedPrefix @ x"
  "ResultsPrefix @ x \<noteq> OverlapPrefix @ y" "OverlapPrefix @ y \<noteq> ResultsPrefix @ x"
  "ResultsPrefix @ x \<noteq> WatermarkPrefix @ y" "WatermarkPrefix @ y \<noteq> ResultsPrefix @ x"
  "OverlapPrefix @ x \<noteq> WatermarkPrefix @ y" "WatermarkPrefix @ y \<noteq> OverlapPrefix @ x"
  by (simp_all add: prefix_defs)

lemma prefix_ne [key_simps]: "ClaimedPrefix \<noteq> PendingPrefix" "PendingPrefix \<noteq> ClaimedPrefix"
  by (simp_all add: prefix_defs)

lemmas key_defs = PendingKey_def ClaimedKey_def ResultKey_def OverlapKey_def WatermarkKey_def

lemma keys_apart [key_simps]:
  "PendingKey t \<noteq> ClaimedKey u" "ClaimedKey u \<noteq> PendingKey t"
  "PendingKey t \<noteq> ResultKey u" "ResultKey u \<noteq> PendingKey t"
  "PendingKey t \<noteq> OverlapKey i" "OverlapKey i \<noteq> PendingKey t"
  "PendingKey t \<noteq> WatermarkKey i" "WatermarkKey i \<noteq> PendingKey t"
  "ClaimedKey t \<noteq> ResultKey u" "ResultKey u \<noteq> ClaimedKey t"
  "ClaimedKey t \<noteq> OverlapKey i" "OverlapKey i \<noteq> ClaimedKey t"
  "ClaimedKey t \<noteq> WatermarkKey i" "WatermarkKey i \<noteq> ClaimedKey t"
  "ResultKey t \<noteq> OverlapKey i" "OverlapKey i \<noteq> ResultKey t"
  "ResultKey t \<noteq> WatermarkKey i" "WatermarkKey i \<noteq> ResultKey t"
  "OverlapKey j \<noteq> WatermarkKey i" "WatermarkKey i \<noteq> OverlapKey j"
  by (simp_all add: key_defs prefix_apart)

lemma bump_simps [simp]:
  "stamp (bump t) = stamp t" "PendingKey (bump t) = PendingKey t" "ClaimedKey (bump t) = ClaimedKey t"
  "t_JobID (bump t) = t_JobID t" "t_SchedAt (bump t) = t_SchedAt t" "t_NoOverlap (bump t) = t_NoOverlap t"
  "t_MaxRetries (bump t) = t_MaxRetries t" "t_NotBefore (bump t) = t_NotBefore t"
  by (simp_all add: bump_def stamp_def PendingKey_def ClaimedKey_def)

lemma retry_simps [simp]:
  "stamp (retry_ticket t now) = stamp t" "PendingKey (retry_ticket t now) = PendingKey t"
  "t_JobID (retry_ticket t now) = t_JobID t" "t_NoOverlap (retry_ticket t now) = t_NoOverlap t"
  "t_Attempt (retry_ticket t now) = t_Attempt t"
  by (simp_all add: retry_ticket_def stamp_def PendingKey_def)

lemma claim_key_pending [simp]: "kv_key kv = PendingKey t \<Longrightarrow> claim_key kv = ClaimedKey t"
  by (simp add: claim_key_def PendingKey_def ClaimedKey_def)

lemma claim_of_ClaimedKey:
  "is_int64 (t_JobID t) \<Longrightarrow> kv_key kv = ClaimedKey t \<Longrightarrow> kv_value kv = Text n \<Longrightarrow>
   claim_of_kv kv = Some \<lparr>c_JobID = t_JobID t, c_SchedAt = t_SchedAt t, c_NodeID = n\<rparr>"
  by (simp add: claim_of_kv_def ClaimedKey_def stamp_def Index_append FormatInt_at ParseInt_FormatInt Let_def)

subsection \<open>The queue in its environment\<close>

text \<open>The contract of the queue's surroundings: etcd, and a lease callback that does not write to it.\<close>

text \<open>The leases of a claim and its lock are what the node's callback answered at some moment.\<close>

definition claim_leases :: "'w queue \<Rightarrow> ticket \<Rightarrow> int \<Rightarrow> int \<Rightarrow> bool" where
  "claim_leases q t l1 l2 \<longleftrightarrow> (\<exists>w. l1 = fst (q_claimLease q w)) \<and> (t_NoOverlap t \<longrightarrow> (\<exists>w. l2 = fst (q_claimLease q w)))"

locale queue_env = etcd "q_cli q" view rely
  for q :: "'w queue" and view :: "'w \<Rightarrow> est" and rely :: "est \<Rightarrow> est \<Rightarrow> bool" +
  assumes lease_rely: "rely (view w) (view (snd (q_claimLease q w)))"
begin

lemma Enqueue_commits:
  "Enqueue q t w = (Inr b, w') \<Longrightarrow>
   commits rely [CmpVersion (PendingKey t) 0] [OpPut (PendingKey t) (marshal_ticket t) NoLease] [] (view w) (view w') b"
  by (auto simp: Enqueue_def Let_def split: prod.splits sum.splits dest: txn_ok)

lemma EnqueueFire_commits:
  "EnqueueFire q t s w = (Inr b, w') \<Longrightarrow>
   commits rely [CmpVersion (PendingKey t) 0]
     [OpPut (PendingKey t) (marshal_ticket t) NoLease, OpPut (WatermarkKey (t_JobID t)) (Text s) NoLease] []
     (view w) (view w') b"
  by (auto simp: EnqueueFire_def Let_def split: prod.splits sum.splits dest: txn_ok)

lemma FinishSuccess_commits:
  "FinishSuccess q t res w = (Inr x, w') \<Longrightarrow>
   \<exists>b. commits rely [CmpValue (ClaimedKey t) (Text (q_nodeID q))] (success_ops t res)
     [OpPut (ResultKey t) (marshal_result res) NoLease] (view w) (view w') b"
  by (auto simp: FinishSuccess_def split: prod.splits sum.splits dest: txn_ok)

lemma FinishFailure_commits:
  "FinishFailure q t res now w = (Inr x, w') \<Longrightarrow>
   \<exists>b. commits rely [CmpValue (ClaimedKey t) (Text (q_nodeID q))] (failure_ops t res now)
     [OpPut (ResultKey t) (marshal_result (failure_result t res)) NoLease] (view w) (view w') b"
  by (auto simp: FinishFailure_def split: prod.splits sum.splits dest: txn_ok)

lemma Abandon_commits:
  assumes "Abandon q t w = (Inr x, w')"
  shows "\<exists>b now. commits rely [CmpVersion (ClaimedKey t) 0]
    [OpDelete (PendingKey t),
     OpPut (ResultKey t) (marshal_result (closing_result (q_nodeID q) t StatusAbandoned now)) NoLease] []
    (view (snd (w_now (q_cli q) w))) (view w') b"
  using assms by (auto simp: Abandon_def Let_def split: prod.splits sum.splits dest: txn_ok)

lemma claim_commits:
  assumes "claim q kv t w = (Ok b, w')"
  shows "\<exists>l1 l2 w1. rely (view w) (view w1) \<and> claim_leases q t l1 l2 \<and>
    commits rely (claim_cmps kv t) (claim_ops (q_nodeID q) kv t l1 l2) [] (view w1) (view w') b"
proof -
  obtain l1 w1 where l1: "q_claimLease q w = (l1, w1)" by (cases "q_claimLease q w")
  obtain l2 w2 where l2: "(if t_NoOverlap t then q_claimLease q w1 else (NoLease, w1)) = (l2, w2)"
    by (cases "if t_NoOverlap t then q_claimLease q w1 else (NoLease, w1)")
  have "rely (view w) (view w1)" using lease_rely [of w] l1 by simp
  also have "rely (view w1) (view w2)" using lease_rely [of w1] l2 by (auto split: if_splits)
  finally have "rely (view w) (view w2)" .
  moreover have "claim_leases q t l1 l2" using l1 l2 by (auto simp: claim_leases_def image_iff) (metis fst_conv)+
  moreover have "w_txn (q_cli q) (claim_cmps kv t) (claim_ops (q_nodeID q) kv t l1 l2) [] w2 = (Inr b, w')"
    using assms l1 l2 by (simp add: claim_def Let_def split: prod.splits sum.splits)
  ultimately show ?thesis using txn_ok by blast
qed

end

text \<open>A scan claims what it saw: a ticket read in a list of key-value pairs is claimed only if it is
  still the same, and everything the scan does in between only moves the store forward.\<close>

definition claimed_at :: "string \<Rightarrow> instant \<Rightarrow> kv \<Rightarrow> ticket \<Rightarrow> est \<Rightarrow> est \<Rightarrow> bool" where
  "claimed_at nodeID now kv t u u' \<longleftrightarrow>
     kv_at u (kv_key kv) = Some kv \<and> unmarshal_ticket (kv_value kv) = Some t \<and> \<not> notYet t now \<and>
     kv_at u (claim_key kv) = None \<and> (t_NoOverlap t \<longrightarrow> kv_at u (OverlapKey (t_JobID t)) = None) \<and>
     val_at u' (claim_key kv) = Some (Text nodeID) \<and>
     val_at u' (kv_key kv) = Some (marshal_ticket (bump t)) \<and>
     (t_NoOverlap t \<longrightarrow> val_at u' (OverlapKey (t_JobID t)) = Some (Text nodeID)) \<and>
     (\<forall>k. k \<noteq> kv_key kv \<longrightarrow> k \<noteq> claim_key kv \<longrightarrow> (t_NoOverlap t \<longrightarrow> k \<noteq> OverlapKey (t_JobID t)) \<longrightarrow>
        kv_at u' k = kv_at u k)"

text \<open>The claim of a queue, with the leases its callback answered.\<close>

definition claims_at :: "'w queue \<Rightarrow> instant \<Rightarrow> kv \<Rightarrow> ticket \<Rightarrow> est \<Rightarrow> est \<Rightarrow> bool" where
  "claims_at q now kv t u u' \<longleftrightarrow> claimed_at (q_nodeID q) now kv t u u' \<and>
     (\<exists>l1 l2. claim_leases q t l1 l2 \<and> u' = commit (claim_ops (q_nodeID q) kv t l1 l2) u)"

lemma pending_key_split: "HasPrefix k PendingPrefix \<Longrightarrow> \<exists>x. k = PendingPrefix @ x"
  by (metis HasPrefix_iff prefixE)

lemma claimed_at_commit:
  assumes "wf_est u" "HasPrefix (kv_key kv) PendingPrefix" "kv_at u (kv_key kv) = Some kv"
    and "unmarshal_ticket (kv_value kv) = Some t" "\<not> notYet t now" "list_all (eval_cmp u) (claim_cmps kv t)"
  shows "claimed_at n now kv t u (commit (claim_ops n kv t l1 l2) u)"
proof -
  obtain x where k: "kv_key kv = PendingPrefix @ x" using assms(2) pending_key_split by blast
  then have "claim_key kv \<noteq> kv_key kv" "OverlapKey j \<noteq> kv_key kv" "OverlapKey j \<noteq> claim_key kv" for j
    by (simp_all add: claim_key_def OverlapKey_def key_simps)
  moreover have "kv_at u (claim_key kv) = None" "t_NoOverlap t \<Longrightarrow> kv_at u (OverlapKey (t_JobID t)) = None"
    using assms(1,6) by (auto simp: claim_cmps_def wf_version split: if_splits)
  ultimately show ?thesis
    using assms(3-5)
    by (auto simp: claimed_at_def claim_ops_def etcd_simps)
qed

context queue_env
begin

lemma claim_sound:
  assumes "claim q kv t w = (Ok True, w')" "wf_est u" "mvcc_le u (view w)" "wf_est (view w)"
    and "kv_at u (kv_key kv) = Some kv" "HasPrefix (kv_key kv) PendingPrefix"
    and "unmarshal_ticket (kv_value kv) = Some t" "\<not> notYet t now"
  shows "\<exists>x x'. rely (view w) x \<and> wf_est x \<and> claims_at q now kv t x x' \<and> rely x' (view w')"
proof -
  obtain l1 l2 w1 where w1: "rely (view w) (view w1)" "claim_leases q t l1 l2"
    "commits rely (claim_cmps kv t) (claim_ops (q_nodeID q) kv t l1 l2) [] (view w1) (view w') True"
    using claim_commits [OF assms(1)] by blast
  have later: "wf_est (view w1)" "mvcc_le u (view w1)"
    using rely_later [OF w1(1) assms(4)] assms(3) mvcc_trans by blast+
  obtain x where x: "rely (view w1) x" "kv_at x (kv_key kv) = Some kv" "list_all (eval_cmp x) (claim_cmps kv t)"
    "leases_ok x (claim_ops (q_nodeID q) kv t l1 l2)" "rely (commit (claim_ops (q_nodeID q) kv t l1 l2) x) (view w')"
    using read_then_commit [OF later(2) assms(2) later(1) assms(5) w1(3)] by (auto simp: claim_cmps_def)
  have "wf_est x" using rely_wf [OF x(1) later(1)] .
  moreover have "claimed_at (q_nodeID q) now kv t x (commit (claim_ops (q_nodeID q) kv t l1 l2) x)"
    using claimed_at_commit [OF \<open>wf_est x\<close> assms(6) x(2) assms(7,8) x(3)] .
  ultimately show ?thesis using x(5) w1(2) rely_trans [OF w1(1) x(1)] by (auto simp: claims_at_def)
qed

lemma claim_later:
  assumes "claim q kv t w = (r, w')" "wf_est (view w)"
  shows "wf_est (view w') \<and> mvcc_le (view w) (view w')"
proof -
  obtain l1 w1 where l1: "q_claimLease q w = (l1, w1)" by (cases "q_claimLease q w")
  obtain l2 w2 where l2: "(if t_NoOverlap t then q_claimLease q w1 else (NoLease, w1)) = (l2, w2)"
    by (cases "if t_NoOverlap t then q_claimLease q w1 else (NoLease, w1)")
  have "rely (view w) (view w2)"
    using lease_rely [of w] lease_rely [of w1] l1 l2 by (auto split: if_splits intro: rely_trans)
  then have later: "wf_est (view w2) \<and> mvcc_le (view w) (view w2)" using rely_later assms(2) by blast
  obtain y where "w_txn (q_cli q) (claim_cmps kv t) (claim_ops (q_nodeID q) kv t l1 l2) [] w2 = (y, w')"
    using assms(1) l1 l2 by (auto simp: claim_def Let_def split: prod.splits sum.splits)
  then have "wf_est (view w') \<and> mvcc_le (view w2) (view w')"
    using later by (cases y) (auto dest!: txn_err txn_ok dest: commits_later rely_later)
  with later show ?thesis using mvcc_trans by blast
qed

lemma overlapHeld_later:
  assumes "overlapHeld q i w = (b, w')" "wf_est (view w)"
  shows "wf_est (view w') \<and> mvcc_le (view w) (view w')"
  using assms get_rely [of w "OverlapKey i" Single] rely_later
  by (auto simp: overlapHeld_def split: prod.splits sum.splits)

lemma skipStale_later:
  assumes "skipStale q kv t w = (r, w')" "wf_est (view w)"
  shows "wf_est (view w') \<and> mvcc_le (view w) (view w')"
proof -
  obtain n w1 where n: "w_now (q_cli q) w = (n, w1)" by (cases "w_now (q_cli q) w")
  then have later: "wf_est (view w1) \<and> mvcc_le (view w) (view w1)"
    using rely_later [OF now assms(2)] by (metis snd_conv)
  obtain y cs ts where "w_txn (q_cli q) cs ts [] w1 = (y, w')"
    using assms(1) n by (auto simp: skipStale_def Let_def split: prod.splits sum.splits)
  then have "wf_est (view w') \<and> mvcc_le (view w1) (view w')"
    using later by (cases y) (auto dest!: txn_err txn_ok dest: commits_later rely_later)
  with later show ?thesis using mvcc_trans by blast
qed

end

context queue_env
begin

lemma claimScan_sound:
  assumes "claimScan q now kvs w = (Ok (Some t'), w')"
    and "wf_est u" "mvcc_le u (view w)" "wf_est (view w)"
    and "\<forall>kv \<in> set kvs. kv_at u (kv_key kv) = Some kv \<and> HasPrefix (kv_key kv) PendingPrefix"
  shows "\<exists>kv t x x'. kv \<in> set kvs \<and> mvcc_le (view w) x \<and> wf_est x \<and> claims_at q now kv t x x' \<and>
    t' = bump t \<and> rely x' (view w')"
  using assms
proof (induction kvs arbitrary: w)
  case (Cons kv kvs)
  show ?case
  proof (cases "unmarshal_ticket (kv_value kv)")
    case None
    with Cons.prems have "claimScan q now kvs w = (Ok (Some t'), w')" by simp
    from Cons.IH [OF this Cons.prems(2,3,4)] Cons.prems(5) show ?thesis by auto
  next
    case (Some t)
    show ?thesis
    proof (cases "notYet t now")
      case True
      with Cons.prems Some have "claimScan q now kvs w = (Ok (Some t'), w')" by simp
      from Cons.IH [OF this Cons.prems(2,3,4)] Cons.prems(5) show ?thesis by auto
    next
      case False
      obtain r w1 where c: "claim q kv t w = (r, w1)" by (cases "claim q kv t w")
      have l1: "wf_est (view w1)" "mvcc_le (view w) (view w1)" using claim_later [OF c Cons.prems(4)] by auto
      show ?thesis
      proof (cases "r = Ok True")
        case True
        with c Cons.prems(1) Some False have "t' = bump t" "w' = w1" by auto
        moreover obtain x x' where "rely (view w) x" "wf_est x" "claims_at q now kv t x x'" "rely x' (view w1)"
          using claim_sound [of kv t w w1 u now] c True Cons.prems(2-5) Some False by auto
        ultimately show ?thesis using rely_mvcc [of "view w" x] Cons.prems(4)
          by (intro exI [of _ kv] exI [of _ t] exI [of _ x] exI [of _ x']) simp
      next
        case nope: False
        have "\<exists>w2. claimScan q now kvs w2 = (Ok (Some t'), w') \<and> wf_est (view w2) \<and> mvcc_le (view w1) (view w2)"
          using Cons.prems(1) c nope Some False l1 mvcc_refl
          by (auto split: res.splits if_splits prod.splits bool.splits sum.splits
              dest!: overlapHeld_later skipStale_later intro: mvcc_trans)
        then obtain w2 where w2: "claimScan q now kvs w2 = (Ok (Some t'), w')" "wf_est (view w2)"
            "mvcc_le (view w1) (view w2)" by blast
        have le: "mvcc_le (view w) (view w2)" using l1(2) w2(3) by (rule mvcc_trans)
        from Cons.IH [OF w2(1) Cons.prems(2) mvcc_trans [OF Cons.prems(3) le] w2(2)] Cons.prems(5)
        show ?thesis using mvcc_trans [OF le] list.set_intros(2) by (metis (no_types, lifting))
      qed
    qed
  qed
qed simp

lemma pending_scan:
  assumes "w_get (q_cli q) PendingPrefix (Prefix n) w = (Inr resp, w1)" "wf_est (view w)"
  shows "\<exists>u. rely (view w) u \<and> rely u (view w1) \<and> wf_est u \<and> gr_kvs resp = gr_kvs (get_view u PendingPrefix (Prefix n)) \<and>
    (\<forall>kv \<in> set (gr_kvs resp). kv_at u (kv_key kv) = Some kv \<and> HasPrefix (kv_key kv) PendingPrefix)"
proof -
  obtain u where u: "rely (view w) u" "resp = get_view u PendingPrefix (Prefix n)" "rely u (view w1)"
    using get_ok [OF assms(1)] by blast
  have "wf_est u" using rely_wf [OF u(1) assms(2)] .
  moreover have "set (gr_kvs resp) \<subseteq> set (prefix_kvs u PendingPrefix)"
    by (auto simp: u(2) get_view_def dest: in_set_takeD)
  ultimately show ?thesis
    using u wf_mem_kv_at [of u] by (fastforce simp: prefix_kvs_def)
qed

lemma ClaimNext_commits:
  assumes "ClaimNext q now w = (Ok (Some t'), w')" "wf_est (view w)"
  shows "\<exists>kv t x x'. HasPrefix (kv_key kv) PendingPrefix \<and> mvcc_le (view w) x \<and> wf_est x \<and>
    claims_at q now kv t x x' \<and> t' = bump t \<and> rely x' (view w')"
proof -
  obtain resp w1 where g: "w_get (q_cli q) PendingPrefix (Prefix claimScanLimit) w = (Inr resp, w1)"
    and s: "claimScan q now (gr_kvs resp) w1 = (Ok (Some t'), w')"
    using assms(1) by (auto simp: ClaimNext_def split: prod.splits sum.splits)
  obtain u where u: "rely (view w) u" "rely u (view w1)" "wf_est u"
    "\<forall>kv \<in> set (gr_kvs resp). kv_at u (kv_key kv) = Some kv \<and> HasPrefix (kv_key kv) PendingPrefix"
    using pending_scan [OF g assms(2)] by blast
  have w1: "wf_est (view w1)" "mvcc_le u (view w1)" using rely_later [OF u(2,3)] by auto
  have le: "mvcc_le (view w) (view w1)" using rely_mvcc [OF rely_trans [OF u(1,2)] assms(2)] .
  from claimScan_sound [OF s u(3) w1(2,1) u(4)] le u(4) show ?thesis
    using mvcc_trans [OF le] by blast
qed

lemma ClaimNext_claims:
  assumes "ClaimNext q now w = (Ok (Some t'), w')" "wf_est (view w)"
  shows "\<exists>kv t x x'. HasPrefix (kv_key kv) PendingPrefix \<and> mvcc_le (view w) x \<and> wf_est x \<and>
    claimed_at (q_nodeID q) now kv t x x' \<and> t' = bump t \<and> rely x' (view w')"
  using ClaimNext_commits [OF assms] unfolding claims_at_def by blast

end

subsection \<open>The scan without interference\<close>

text \<open>A queue on a quiet in-memory store, whose claim lease does not change.\<close>

definition local_queue :: "string \<Rightarrow> int \<Rightarrow> unit mem queue" where
  "local_queue nodeID l = New_queue (mem_world idle) nodeID (\<lambda>m. (l, m))"

lemma local_queue_sel [simp]:
  "q_cli (local_queue n l) = mem_world idle" "q_nodeID (local_queue n l) = n"
  "q_claimLease (local_queue n l) = (\<lambda>m. (l, m))"
  by (simp_all add: local_queue_def New_queue_def)

lemma local_queue_env: "env_ok rely \<Longrightarrow> queue_env (local_queue n l) mem_store rely"
  unfolding queue_env_def queue_env_axioms_def
  by (auto simp: calm_etcd env_ok_def dest: reflpD)

interpretation lq: queue_env "local_queue n l" mem_store "(=)" for n l
  by (rule local_queue_env [OF env_ok_eq])

definition claimable :: "est \<Rightarrow> instant \<Rightarrow> kv \<Rightarrow> bool" where
  "claimable st now kv \<longleftrightarrow>
     (case unmarshal_ticket (kv_value kv) of
        None \<Rightarrow> False
      | Some t \<Rightarrow> \<not> notYet t now \<and> kv_at st (claim_key kv) = None \<and>
          (t_NoOverlap t \<longrightarrow> kv_at st (OverlapKey (t_JobID t)) = None))"

definition live_lease :: "est \<Rightarrow> int \<Rightarrow> bool" where
  "live_lease st l \<longleftrightarrow> l = NoLease \<or> l \<in> es_leases st"

lemma claim_quiet:
  assumes "mem_script m = []" "wf_est (mem_store m)" "live_lease (mem_store m) l"
    and "kv_at (mem_store m) (kv_key kv) = Some kv" "unmarshal_ticket (kv_value kv) = Some t" "\<not> notYet t now"
  shows "claim (local_queue n l) kv t m =
    (if claimable (mem_store m) now kv
     then (Ok True, m\<lparr>mem_store := commit (claim_ops n kv t l (if t_NoOverlap t then l else NoLease)) (mem_store m)\<rparr>)
     else (Ok False, m))"
proof -
  have "list_all (eval_cmp (mem_store m)) (claim_cmps kv t) \<longleftrightarrow> claimable (mem_store m) now kv"
    using assms(2,4-6) by (auto simp: claim_cmps_def claimable_def wf_version modrev_at_def)
  moreover have "leases_ok (mem_store m) (claim_ops n kv t l x)" if "x = NoLease \<or> x = l" for x
    using assms(3) that by (auto simp: leases_ok_def claim_ops_def live_lease_def)
  moreover have "leases_ok (mem_store m) []" by (simp add: leases_ok_def)
  ultimately show ?thesis
    using assms(1) by (auto simp: claim_def mem_txn_quiet commit_Nil)
qed

lemma skip_keeps:
  assumes "wf_est st" "HasPrefix (kv_key kv) PendingPrefix"
    and "k \<noteq> kv_key kv" "HasPrefix k PendingPrefix \<or> HasPrefix k ClaimedPrefix \<or> HasPrefix k OverlapPrefix"
  shows "kv_at (commit [OpDelete (kv_key kv), OpPut (ResultKey t) d l] st) k = kv_at st k"
proof -
  have "ResultKey t \<noteq> k"
    using assms(4) by (auto simp: ResultKey_def HasPrefix_iff prefix_def key_simps)
  with assms(3) show ?thesis by (simp add: kv_at_commit_other)
qed

text \<open>The store after a ticket was skipped: what the rest of the scan looks at is as before.\<close>

definition skipped :: "string \<Rightarrow> kv \<Rightarrow> ticket \<Rightarrow> unit mem \<Rightarrow> unit mem" where
  "skipped n kv t m = m\<lparr>mem_clock := mem_clock m + 1000000, mem_store := commit [OpDelete (kv_key kv),
     OpPut (ResultKey (bump t)) (marshal_result (closing_result n (bump t) StatusSkipped (mem_clock m))) NoLease] (mem_store m)\<rparr>"

lemma skipStale_quiet:
  "mem_script m = [] \<Longrightarrow> kv_at (mem_store m) (kv_key kv) = Some kv \<Longrightarrow>
   skipStale (local_queue n l) kv (bump t) m = (Inr (), skipped n kv t m)"
  by (simp add: skipStale_def skipped_def mem_txn_quiet modrev_at_def leases_ok_def Let_def)

lemma skipped_store [simp]:
  "mem_script (skipped n kv t m) = mem_script m" "es_leases (mem_store (skipped n kv t m)) = es_leases (mem_store m)"
  "wf_est (mem_store m) \<Longrightarrow> wf_est (mem_store (skipped n kv t m))"
  by (simp_all add: skipped_def wf_commit commit_leases)

lemma skipped_kv_at:
  assumes "wf_est (mem_store m)" "HasPrefix (kv_key kv) PendingPrefix" "k \<noteq> kv_key kv"
    and "HasPrefix k PendingPrefix \<or> HasPrefix k ClaimedPrefix \<or> HasPrefix k OverlapPrefix"
  shows "kv_at (mem_store (skipped n kv t m)) k = kv_at (mem_store m) k"
  using skip_keeps [OF assms] by (simp add: skipped_def)

lemma skipped_claimable:
  assumes "wf_est (mem_store m)" "HasPrefix (kv_key kv) PendingPrefix"
  shows "claimable (mem_store (skipped n kv t m)) now x = claimable (mem_store m) now x"
proof -
  have "claim_key x \<noteq> kv_key kv" "OverlapKey j \<noteq> kv_key kv" "HasPrefix (claim_key x) ClaimedPrefix"
    "HasPrefix (OverlapKey j) OverlapPrefix" for j
    using assms(2) by (auto simp: claim_key_def OverlapKey_def HasPrefix_iff prefix_def key_simps)
  then show ?thesis
    unfolding claimable_def using skipped_kv_at [OF assms] by (simp split: option.splits)
qed

text \<open>One turn of the scan: it claims the ticket and ends, or goes on with the store as it was or with the
  ticket skipped.\<close>

lemma claimScan_turn:
  assumes "mem_script m = []" "wf_est (mem_store m)" "live_lease (mem_store m) l" "kv_at (mem_store m) (kv_key kv) = Some kv"
  shows "if claimable (mem_store m) now kv
    then \<exists>t l2. unmarshal_ticket (kv_value kv) = Some t \<and> claimScan (local_queue n l) now (kv # kvs) m =
      (Ok (Some (bump t)), m\<lparr>mem_store := commit (claim_ops n kv t l l2) (mem_store m)\<rparr>)
    else \<exists>m'. claimScan (local_queue n l) now (kv # kvs) m = claimScan (local_queue n l) now kvs m' \<and>
      (m' = m \<or> (\<exists>t. unmarshal_ticket (kv_value kv) = Some t \<and> m' = skipped n kv t m))"
proof (cases "\<exists>t. unmarshal_ticket (kv_value kv) = Some t \<and> \<not> notYet t now")
  case True
  then obtain t where t: "unmarshal_ticket (kv_value kv) = Some t" "\<not> notYet t now" by blast
  note claim = claim_quiet [OF assms t, of n] and skip = skipStale_quiet [OF assms(1,4), of n l t]
  show ?thesis
  proof (cases "claimable (mem_store m) now kv")
    case True
    with claim t show ?thesis by (auto simp del: bump_simps)
  next
    case False
    then have "claimScan (local_queue n l) now (kv # kvs) m = claimScan (local_queue n l) now kvs
      (if t_NoOverlap t \<and> kv_at (mem_store m) (OverlapKey (t_JobID t)) \<noteq> None then skipped n kv t m else m)"
      using claim skip t assms(1) by (auto simp: overlapHeld_def mem_get_quiet get_view_def)
    moreover have "(if b then x else m) = m \<or> (if b then x else m) = x" for b and x :: "unit mem" by simp
    ultimately show ?thesis using False t(1) by (simp only: if_False) blast
  qed
qed (auto simp: claimable_def split: option.splits)

lemma claimScan_quiet:
  assumes "mem_script m = []" "wf_est (mem_store m)" "live_lease (mem_store m) l" "distinct (map kv_key kvs)"
    and "\<forall>kv \<in> set kvs. kv_at (mem_store m) (kv_key kv) = Some kv \<and> HasPrefix (kv_key kv) PendingPrefix"
  shows "fst (claimScan (local_queue n l) now kvs m) = Ok (case find (claimable (mem_store m) now) kvs of
      None \<Rightarrow> None
    | Some kv \<Rightarrow> map_option bump (unmarshal_ticket (kv_value kv)))"
  using assms
proof (induction kvs arbitrary: m)
  case (Cons kv kvs)
  note p = Cons.prems
  have k: "kv_at (mem_store m) (kv_key kv) = Some kv" "HasPrefix (kv_key kv) PendingPrefix" using p(5) by simp_all
  show ?case
  proof (cases "claimable (mem_store m) now kv")
    case True
    with claimScan_turn [OF p(1-3) k(1), of now n kvs] show ?thesis by auto
  next
    case False
    with claimScan_turn [OF p(1-3) k(1), of now n kvs] obtain m' where
      m': "claimScan (local_queue n l) now (kv # kvs) m = claimScan (local_queue n l) now kvs m'" "m' = m \<or> (\<exists>t. m' = skipped n kv t m)"
      by auto
    have c: "claimable (mem_store m') now = claimable (mem_store m) now" using m'(2) skipped_claimable [OF p(2) k(2)] by auto
    have "kv_at (mem_store m') (kv_key x) = Some x" if "x \<in> set kvs" for x
      using that p(4,5) m'(2) skipped_kv_at [OF p(2) k(2), of "kv_key x"] by (auto simp: image_iff)
    then have "fst (claimScan (local_queue n l) now kvs m') = Ok (case find (claimable (mem_store m') now) kvs of
        None \<Rightarrow> None | Some kv \<Rightarrow> map_option bump (unmarshal_ticket (kv_value kv)))"
      using p m'(2) by (intro Cons.IH) (auto simp: live_lease_def)
    with False m'(1) c show ?thesis by simp
  qed
qed simp

subsection \<open>What the operations do to the store\<close>

context queue_env
begin

lemma put_if_absent:
  assumes "commits rely [CmpVersion k 0] ts [] (view w) (view w') b" "wf_est (view w)"
  shows "\<exists>u u'. rely (view w) u \<and> rely u' (view w') \<and> b = (kv_at u k = None) \<and> u' = (if b then commit ts u else u)"
proof -
  obtain u where u: "rely (view w) u" "b = list_all (eval_cmp u) [CmpVersion k 0]"
    "rely (commit (if b then ts else []) u) (view w')"
    using assms(1) by (auto simp: commits_def)
  have "wf_est u" using rely_wf [OF u(1) assms(2)] .
  with u have "b = (kv_at u k = None)" by (simp add: wf_version)
  with u show ?thesis by (auto simp: commit_Nil)
qed

lemma Enqueue_outcome:
  assumes "wf_est (view w)" "Enqueue q t w = (Inr created, w')"
  shows "\<exists>u u'. rely (view w) u \<and> rely u' (view w') \<and> created = (kv_at u (PendingKey t) = None) \<and>
    (if created then val_at u' (PendingKey t) = Some (marshal_ticket t) \<and>
       (\<forall>k. k \<noteq> PendingKey t \<longrightarrow> kv_at u' k = kv_at u k)
     else u' = u)"
proof -
  obtain u u' where u: "rely (view w) u" "rely u' (view w')" "created = (kv_at u (PendingKey t) = None)"
    "u' = (if created then commit [OpPut (PendingKey t) (marshal_ticket t) NoLease] u else u)"
    using put_if_absent [OF Enqueue_commits [OF assms(2)] assms(1)] by blast
  then show ?thesis
    by (intro exI [of _ u] exI [of _ u']) (auto simp: etcd_simps)
qed

lemma EnqueueFire_outcome:
  assumes "wf_est (view w)" "EnqueueFire q t fire w = (Inr created, w')"
  shows "\<exists>u u'. rely (view w) u \<and> rely u' (view w') \<and> created = (kv_at u (PendingKey t) = None) \<and>
    (if created then val_at u' (PendingKey t) = Some (marshal_ticket t) \<and>
       val_at u' (WatermarkKey (t_JobID t)) = Some (Text fire) \<and>
       modrev_at u' (PendingKey t) = modrev_at u' (WatermarkKey (t_JobID t)) \<and>
       (\<forall>k. k \<noteq> PendingKey t \<longrightarrow> k \<noteq> WatermarkKey (t_JobID t) \<longrightarrow> kv_at u' k = kv_at u k)
     else u' = u)"
proof -
  obtain u u' where u: "rely (view w) u" "rely u' (view w')" "created = (kv_at u (PendingKey t) = None)"
    "u' = (if created then commit [OpPut (PendingKey t) (marshal_ticket t) NoLease,
       OpPut (WatermarkKey (t_JobID t)) (Text fire) NoLease] u else u)"
    using put_if_absent [OF EnqueueFire_commits [OF assms(2)] assms(1)] by blast
  then show ?thesis
    by (intro exI [of _ u] exI [of _ u']) (auto simp: etcd_simps key_simps modrev_at_def)
qed

text \<open>The outcome of finishing: the owner's transaction, or only the published result.\<close>

lemma finish_outcome:
  assumes "commits rely [CmpValue c d] ts [OpPut r x NoLease] (view w) (view w') b"
  shows "\<exists>u u'. rely (view w) u \<and> rely u' (view w') \<and>
    (if val_at u c = Some d then u' = commit ts u else u' = commit [OpPut r x NoLease] u)"
  using assms by (auto simp: commits_def)

lemma FinishSuccess_outcome:
  assumes "FinishSuccess q t res w = (Inr x, w')"
  shows "\<exists>u u'. rely (view w) u \<and> rely u' (view w') \<and>
    val_at u' (ResultKey t) = Some (marshal_result res) \<and>
    (if val_at u (ClaimedKey t) = Some (Text (q_nodeID q))
     then kv_at u' (PendingKey t) = None \<and> kv_at u' (ClaimedKey t) = None \<and>
       (t_NoOverlap t \<longrightarrow> kv_at u' (OverlapKey (t_JobID t)) = None)
     else (\<forall>k. k \<noteq> ResultKey t \<longrightarrow> kv_at u' k = kv_at u k))"
proof -
  obtain b where "commits rely [CmpValue (ClaimedKey t) (Text (q_nodeID q))] (success_ops t res)
      [OpPut (ResultKey t) (marshal_result res) NoLease] (view w) (view w') b"
    using FinishSuccess_commits [OF assms] by blast
  from finish_outcome [OF this] obtain u u' where u: "rely (view w) u" "rely u' (view w')"
    "u' = (if val_at u (ClaimedKey t) = Some (Text (q_nodeID q)) then commit (success_ops t res) u
           else commit [OpPut (ResultKey t) (marshal_result res) NoLease] u)" by (metis (full_types))
  then show ?thesis
    by (intro exI [of _ u] exI [of _ u'])
      (auto simp: etcd_simps key_simps success_ops_def overlapRelease_def)
qed

lemma FinishFailure_outcome:
  assumes "FinishFailure q t res now w = (Inr x, w')"
  shows "\<exists>u u'. rely (view w) u \<and> rely u' (view w') \<and>
    val_at u' (ResultKey t) = Some (marshal_result (failure_result t res)) \<and>
    (if val_at u (ClaimedKey t) = Some (Text (q_nodeID q))
     then kv_at u' (ClaimedKey t) = None \<and> (t_NoOverlap t \<longrightarrow> kv_at u' (OverlapKey (t_JobID t)) = None) \<and>
       val_at u' (PendingKey t) =
         (if t_Attempt t > t_MaxRetries t then None else Some (marshal_ticket (retry_ticket t now)))
     else (\<forall>k. k \<noteq> ResultKey t \<longrightarrow> kv_at u' k = kv_at u k))"
proof -
  let ?pub = "OpPut (ResultKey t) (marshal_result (failure_result t res)) NoLease"
  obtain b where "commits rely [CmpValue (ClaimedKey t) (Text (q_nodeID q))] (failure_ops t res now)
      [?pub] (view w) (view w') b"
    using FinishFailure_commits [OF assms] by blast
  from finish_outcome [OF this] obtain u u' where u: "rely (view w) u" "rely u' (view w')"
    "u' = (if val_at u (ClaimedKey t) = Some (Text (q_nodeID q)) then commit (failure_ops t res now) u
           else commit [?pub] u)" by (metis (full_types))
  then show ?thesis
    by (intro exI [of _ u] exI [of _ u'])
      (auto simp: etcd_simps key_simps failure_ops_def overlapRelease_def giveUp_def Let_def)
qed

lemma Abandon_outcome:
  assumes "wf_est (view w)" "Abandon q t w = (Inr x, w')"
  shows "\<exists>u u'. rely (view w) u \<and> rely u' (view w') \<and>
    (if kv_at u (ClaimedKey t) = None
     then kv_at u' (PendingKey t) = None \<and>
       (\<exists>r. val_at u' (ResultKey t) = Some (marshal_result r) \<and> r_Status r = StatusAbandoned)
     else u' = u)"
proof -
  obtain b n where c: "commits rely [CmpVersion (ClaimedKey t) 0]
      [OpDelete (PendingKey t),
       OpPut (ResultKey t) (marshal_result (closing_result (q_nodeID q) t StatusAbandoned n)) NoLease] []
      (view (snd (w_now (q_cli q) w))) (view w') b"
    using Abandon_commits [OF assms(2)] by blast
  from put_if_absent [OF this rely_wf [OF now assms(1)]]
  obtain u u' where u: "rely (view (snd (w_now (q_cli q) w))) u" "rely u' (view w')" "b = (kv_at u (ClaimedKey t) = None)"
    "u' = (if b then commit [OpDelete (PendingKey t),
       OpPut (ResultKey t) (marshal_result (closing_result (q_nodeID q) t StatusAbandoned n)) NoLease] u else u)"
    by blast
  moreover have "r_Status (closing_result (q_nodeID q) t StatusAbandoned n) = StatusAbandoned"
    by (simp add: closing_result_def)
  ultimately show ?thesis
    using rely_trans [OF now u(1)]
    by (intro exI [of _ u] exI [of _ u']) (auto simp: etcd_simps key_simps)
qed

end

subsection \<open>Quiet runs of the other operations\<close>

lemma leases_ok_NoLease [simp]: "leases_ok st [] = True"
  "leases_ok st (OpPut k d NoLease # ops) = leases_ok st ops" "leases_ok st (OpDelete k # ops) = leases_ok st ops"
  by (simp_all add: leases_ok_def)

lemma leases_ok_deletes: "leases_ok st (map OpDelete ks)"
  by (induction ks) simp_all

lemma kv_at_deletes: "kv_at (commit (map OpDelete ks) st) k = (if k \<in> set ks then None else kv_at st k)"
proof -
  have "kv_at (apply_ops r (map OpDelete ks) st) k = (if k \<in> set ks then None else kv_at st k)" for r
    by (induction ks arbitrary: st) (auto simp: etcd_simps)
  then show ?thesis by (simp add: kv_at_commit)
qed

lemma ClaimNext_quiet:
  assumes "mem_script m = []" "wf_est (mem_store m)" "live_lease (mem_store m) l"
  shows "fst (ClaimNext (local_queue n l) now m) =
    Ok (case find (claimable (mem_store m) now) (take 64 (prefix_kvs (mem_store m) PendingPrefix)) of
          None \<Rightarrow> None
        | Some kv \<Rightarrow> map_option bump (unmarshal_ticket (kv_value kv)))"
proof -
  let ?kvs = "take 64 (prefix_kvs (mem_store m) PendingPrefix)"
  have "distinct (map kv_key (es_kvs (mem_store m)))"
    using assms(2) by (auto simp: wf_est_def strict_sorted_iff)
  then have "distinct (map kv_key ?kvs)"
    by (simp add: prefix_kvs_def distinct_map_filter flip: take_map)
  moreover have "\<forall>kv \<in> set ?kvs. kv_at (mem_store m) (kv_key kv) = Some kv \<and> HasPrefix (kv_key kv) PendingPrefix"
    using wf_mem_kv_at [OF assms(2)] by (auto simp: prefix_kvs_def dest: in_set_takeD)
  ultimately have "fst (claimScan (local_queue n l) now ?kvs m) = Ok (case find (claimable (mem_store m) now) ?kvs of
          None \<Rightarrow> None
        | Some kv \<Rightarrow> map_option bump (unmarshal_ticket (kv_value kv)))"
    by (intro claimScan_quiet assms)
  then show ?thesis
    using assms(1) by (simp add: ClaimNext_def mem_get_quiet get_view_def claimScanLimit_def)
qed

lemma gcBatches_quiet:
  "q_cli q = mem_world idle \<Longrightarrow> mem_script m = [] \<Longrightarrow>
   \<exists>m'. gcBatches q doomed i m = ((int (length doomed), None), m') \<and>
     (\<forall>k. kv_at (mem_store m') k = (if k \<in> set (drop i doomed) then None else kv_at (mem_store m) k))"
proof (induction q doomed i m rule: gcBatches.induct)
  case (1 q doomed i m)
  show ?case
  proof (cases "i < length doomed")
    case True
    define e where "e = (if i + 100 > length doomed then length doomed else i + 100)"
    define ks where "ks = take (e - i) (drop i doomed)"
    have split: "set (drop i doomed) = set ks \<union> set (drop (i + 100) doomed)"
    proof (cases "i + 100 > length doomed")
      case False
      then have "drop i doomed = ks @ drop (i + 100) doomed"
        using append_take_drop_id [of 100 "drop i doomed"] by (simp add: ks_def e_def add.commute)
      then show ?thesis by simp
    qed (simp add: ks_def e_def)
    let ?m = "m\<lparr>mem_store := commit (map OpDelete ks) (mem_store m)\<rparr>"
    have run: "w_txn (q_cli q) [] (map OpDelete ks) [] m = (Inr True, ?m)"
      using 1(2,3) by (simp add: mem_txn_quiet leases_ok_deletes)
    have "gcBatches q doomed i m = gcBatches q doomed (i + 100) ?m"
      using True run by (subst gcBatches.simps) (simp add: e_def [symmetric] ks_def [symmetric] Let_def)
    moreover have "\<exists>m'. gcBatches q doomed (i + 100) ?m = ((int (length doomed), None), m') \<and>
        (\<forall>k. kv_at (mem_store m') k = (if k \<in> set (drop (i + 100) doomed) then None else kv_at (mem_store ?m) k))"
      using 1(1) [OF True e_def ks_def [THEN arg_cong [where f = "map OpDelete"]], of "Inr True" ?m True] run 1(2,3)
      by simp
    ultimately show ?thesis using split by (auto simp: kv_at_deletes)
  next
    case False
    then show ?thesis by (subst gcBatches.simps) simp
  qed
qed

lemma Backoff_eq:
  assumes "0 \<le> a" "a \<le> 33"
  shows "Backoff a now = now + min (2 ^ nat a * Second) (5 * Minute)"
proof -
  define p :: int where "p = 2 ^ nat a"
  have "p \<le> 2 ^ 33" unfolding p_def using assms by (intro power_increasing) auto
  moreover have "1 \<le> p" by (simp add: p_def)
  ultimately have "is_int64 p" "is_int64 (p * Second)"
    by (simp_all add: int64_defs)
  then have "is_int64 (2 ^ nat a)" "is_int64 (2 ^ nat a * Second)"
    by (simp_all add: p_def)
  then show ?thesis
    using assms by (simp add: Backoff_def wrap64_id Let_def min_def)
qed

subsection \<open>Properties\<close>

text \<open>The concrete stores of the witnesses.\<close>

definition mem_of :: "est \<Rightarrow> instant \<Rightarrow> unit mem" where
  "mem_of st now = \<lparr>mem_store = st, mem_script = [], mem_clock = now, mem_seed = 0\<rparr>"

definition empty_store :: est where
  "empty_store = \<lparr>es_kvs = [], es_rev = 0, es_leases = {7}, es_used = [7]\<rparr>"

definition demo_ticket :: ticket where
  "demo_ticket = zero_ticket\<lparr>t_JobID := 3, t_Name := ''backup'', t_Command := ''true'', t_MaxRetries := 2,
     t_SchedAt := ''2026-01-01T00:00:00Z''\<rparr>"

definition pending_store :: est where
  "pending_store = commit [OpPut (PendingKey demo_ticket) (marshal_ticket demo_ticket) NoLease] empty_store"

definition claimed_store :: est where
  "claimed_store = commit [OpPut (PendingKey demo_ticket) (marshal_ticket (bump demo_ticket)) NoLease,
     OpPut (ClaimedKey demo_ticket) (Text ''n1'') 7] empty_store"

lemma mem_of_sel [simp]: "mem_store (mem_of st now) = st" "mem_script (mem_of st now) = []" "mem_clock (mem_of st now) = now"
  by (simp_all add: mem_of_def)

lemma wf_empty_store [simp]: "wf_est empty_store"
  by (simp add: wf_est_def empty_store_def)

lemma kv_at_empty_store [simp]: "kv_at empty_store k = None"
  by (simp add: kv_at_def empty_store_def)

lemma wf_demo_stores [simp]: "wf_est pending_store" "wf_est claimed_store"
  by (simp_all add: pending_store_def claimed_store_def wf_commit)

lemma demo_int64: "ticket_int64 demo_ticket" "ticket_int64 (bump demo_ticket)"
  by (simp_all add: ticket_int64_def demo_ticket_def zero_ticket_def bump_def is_int64_def max_int64_def
      min_int64_def is_int64_wrap64 [unfolded is_int64_def max_int64_def min_int64_def])

lemma pending_kvs_demo: "prefix_kvs pending_store PendingPrefix =
    [\<lparr>kv_key = PendingKey demo_ticket, kv_value = marshal_ticket demo_ticket, kv_modrev = 1, kv_version = 1, kv_lease = NoLease\<rparr>]"
proof -
  have "HasPrefix (PendingKey demo_ticket) PendingPrefix" by (simp add: PendingKey_def)
  then show ?thesis
    by (simp add: pending_store_def commit_def txn_step_def Let_def apply_ops_def apply_op.simps prefix_kvs_def
        del_key_def version_at_def) (simp add: empty_store_def)
qed

lemma claimNext_demo: "fst (ClaimNext (local_queue ''n1'' 7) 0 (mem_of pending_store 0)) = Ok (Some (bump demo_ticket))"
proof -
  have "\<not> notYet demo_ticket 0" by (simp add: notYet_def demo_ticket_def zero_ticket_def)
  moreover have "kv_at pending_store (ClaimedKey demo_ticket) = None"
    by (simp add: pending_store_def etcd_simps key_simps)
  moreover have "\<not> t_NoOverlap demo_ticket" by (simp add: demo_ticket_def zero_ticket_def)
  moreover have "live_lease pending_store 7"
    by (simp add: live_lease_def pending_store_def commit_leases) (simp add: empty_store_def)
  ultimately show ?thesis
    by (simp add: ClaimNext_quiet pending_kvs_demo claimable_def unmarshal_marshal_ticket demo_int64)
qed

text \<open>C5. Enqueueing is put-if-absent: when \<open>Enqueue\<close> returns, there was a moment during the call at
  which the pending key was absent exactly when the result is \<open>true\<close>; then the ticket was stored in one
  step that changed no other key, otherwise nothing was changed.  A ticket that is already queued is
  never overwritten.\<close>

theorem Enqueue_put_if_absent:
  assumes "queue_env q view rely" "wf_est (view w)" "Enqueue q t w = (Inr created, w')"
  shows "\<exists>u u'. rely (view w) u \<and> rely u' (view w') \<and> created = (kv_at u (PendingKey t) = None) \<and>
    (if created then val_at u' (PendingKey t) = Some (marshal_ticket t) \<and>
       (\<forall>k. k \<noteq> PendingKey t \<longrightarrow> kv_at u' k = kv_at u k)
     else u' = u)"
  using assms by (rule queue_env.Enqueue_outcome)

theorem Enqueue_put_if_absent_witness:
  "\<exists>m. Enqueue (local_queue ''n1'' 7) demo_ticket (mem_of empty_store 0) = (Inr True, m) \<and>
     val_at (mem_store m) (PendingKey demo_ticket) = Some (marshal_ticket demo_ticket)"
proof -
  obtain m where m: "Enqueue (local_queue ''n1'' 7) demo_ticket (mem_of empty_store 0) = (Inr True, m)"
    by (simp add: Enqueue_def mem_txn_quiet version_at_def)
  then show ?thesis
    using Enqueue_put_if_absent [OF local_queue_env [OF env_ok_eq] _ m] by auto
qed

text \<open>C6. A scheduled fire and its watermark are written together or not at all: when \<open>EnqueueFire\<close>
  creates the ticket, the ticket and the job's watermark appear in the same revision and no other key
  changes; when the ticket is already queued, neither is touched.\<close>

theorem EnqueueFire_atomic:
  assumes "queue_env q view rely" "wf_est (view w)" "EnqueueFire q t fire w = (Inr created, w')"
  shows "\<exists>u u'. rely (view w) u \<and> rely u' (view w') \<and> created = (kv_at u (PendingKey t) = None) \<and>
    (if created then val_at u' (PendingKey t) = Some (marshal_ticket t) \<and>
       val_at u' (WatermarkKey (t_JobID t)) = Some (Text fire) \<and>
       modrev_at u' (PendingKey t) = modrev_at u' (WatermarkKey (t_JobID t)) \<and>
       (\<forall>k. k \<noteq> PendingKey t \<longrightarrow> k \<noteq> WatermarkKey (t_JobID t) \<longrightarrow> kv_at u' k = kv_at u k)
     else u' = u)"
  using assms by (rule queue_env.EnqueueFire_outcome)

theorem EnqueueFire_atomic_witness:
  "\<exists>m. EnqueueFire (local_queue ''n1'' 7) demo_ticket ''2026-01-01T00:00:00Z'' (mem_of empty_store 0) = (Inr True, m) \<and>
     val_at (mem_store m) (WatermarkKey 3) = Some (Text ''2026-01-01T00:00:00Z'')"
proof -
  obtain m where m: "EnqueueFire (local_queue ''n1'' 7) demo_ticket ''2026-01-01T00:00:00Z'' (mem_of empty_store 0) = (Inr True, m)"
    by (simp add: EnqueueFire_def mem_txn_quiet version_at_def)
  moreover have "t_JobID demo_ticket = 3" by (simp add: demo_ticket_def)
  ultimately show ?thesis
    using EnqueueFire_atomic [OF local_queue_env [OF env_ok_eq] _ m] by auto
qed

text \<open>C7. A claim is exclusive and is made on the ticket as it was read: when \<open>ClaimNext\<close> returns a
  ticket there was a moment at which the pending key held exactly the ticket that was scanned, it was
  due, its claim key was absent and, for a ticket that forbids overlap, so was the job's lock; one step
  then wrote the node's id to the claim (and the lock) and the ticket with its attempt count one higher,
  and changed no other key.\<close>

theorem ClaimNext_sound:
  assumes "queue_env q view rely" "ClaimNext q now w = (Ok (Some t'), w')" "wf_est (view w)"
  shows "\<exists>kv t x x'. HasPrefix (kv_key kv) PendingPrefix \<and> mvcc_le (view w) x \<and> wf_est x \<and>
    claimed_at (q_nodeID q) now kv t x x' \<and> t' = bump t \<and> rely x' (view w')"
  using assms by (rule queue_env.ClaimNext_claims)

theorem ClaimNext_sound_witness:
  "\<exists>m kv t x. ClaimNext (local_queue ''n1'' 7) 0 (mem_of pending_store 0) = (Ok (Some (bump demo_ticket)), m) \<and>
     claimed_at ''n1'' 0 kv t x (mem_store m)"
proof -
  obtain m where m: "ClaimNext (local_queue ''n1'' 7) 0 (mem_of pending_store 0) = (Ok (Some (bump demo_ticket)), m)"
    using claimNext_demo by (metis prod.collapse)
  from ClaimNext_sound [OF local_queue_env [OF env_ok_eq] m] m show ?thesis by auto
qed

text \<open>C8. Without interference a scan misses nothing within its window: it returns the first of the 64
  pending tickets with the smallest keys that decodes, is due, is unclaimed and whose overlap lock, if
  it needs one, is free; and it returns none only if there is none.\<close>

theorem ClaimNext_complete:
  assumes "mem_script m = []" "wf_est (mem_store m)" "live_lease (mem_store m) l"
  shows "fst (ClaimNext (local_queue n l) now m) =
    Ok (case find (claimable (mem_store m) now) (take 64 (prefix_kvs (mem_store m) PendingPrefix)) of
          None \<Rightarrow> None
        | Some kv \<Rightarrow> map_option bump (unmarshal_ticket (kv_value kv)))"
  using assms by (rule ClaimNext_quiet)

theorem ClaimNext_complete_witness:
  "fst (ClaimNext (local_queue ''n1'' 7) 0 (mem_of empty_store 0)) = Ok None"
  using ClaimNext_complete [of "mem_of empty_store 0" 7 "''n1''" 0]
  by (simp add: live_lease_def empty_store_def prefix_kvs_def wf_est_def)

text \<open>C12. Finishing a successful run re-verifies ownership: at some moment during \<open>FinishSuccess\<close> either the
  claim still named this node, and one step removed the ticket, the claim and the overlap lock and
  published the result, or the claim was gone or another node's, and only the result was written: the
  replacement's ticket and claim are untouched.\<close>

theorem FinishSuccess_owner:
  assumes "queue_env q view rely" "FinishSuccess q t res w = (Inr x, w')"
  shows "\<exists>u u'. rely (view w) u \<and> rely u' (view w') \<and>
    val_at u' (ResultKey t) = Some (marshal_result res) \<and>
    (if val_at u (ClaimedKey t) = Some (Text (q_nodeID q))
     then kv_at u' (PendingKey t) = None \<and> kv_at u' (ClaimedKey t) = None \<and>
       (t_NoOverlap t \<longrightarrow> kv_at u' (OverlapKey (t_JobID t)) = None)
     else (\<forall>k. k \<noteq> ResultKey t \<longrightarrow> kv_at u' k = kv_at u k))"
  using assms by (rule queue_env.FinishSuccess_outcome)

lemma claimed_store_owner: "val_at claimed_store (ClaimedKey (bump demo_ticket)) = Some (Text ''n1'')"
  by (simp add: claimed_store_def etcd_simps key_simps)

theorem FinishSuccess_owner_witness:
  "\<exists>m. FinishSuccess (local_queue ''n1'' 7) (bump demo_ticket) zero_result (mem_of claimed_store 0) = (Inr (), m) \<and>
     kv_at (mem_store m) (PendingKey demo_ticket) = None"
proof -
  obtain m where m: "FinishSuccess (local_queue ''n1'' 7) (bump demo_ticket) zero_result (mem_of claimed_store 0) = (Inr (), m)"
    using claimed_store_owner by (simp add: FinishSuccess_def mem_txn_quiet success_ops_def overlapRelease_def)
  from FinishSuccess_owner [OF local_queue_env [OF env_ok_eq] m] m show ?thesis
    using claimed_store_owner by auto
qed

text \<open>C13. A failed run is retried exactly as often as the job allows: at some moment during
  \<open>FinishFailure\<close> either the claim still named this node, and one step removed the claim and the lock,
  published the result and then either removed the ticket for good (the attempt exceeds the retry limit,
  and the result says \<open>failed_permanent\<close>) or put it back with its back-off time; or the claim was not
  this node's and only the result was written.\<close>

theorem FinishFailure_retries:
  assumes "queue_env q view rely" "FinishFailure q t res now w = (Inr x, w')"
  shows "(\<exists>u u'. rely (view w) u \<and> rely u' (view w') \<and>
    val_at u' (ResultKey t) = Some (marshal_result (failure_result t res)) \<and>
    (if val_at u (ClaimedKey t) = Some (Text (q_nodeID q))
     then kv_at u' (ClaimedKey t) = None \<and> (t_NoOverlap t \<longrightarrow> kv_at u' (OverlapKey (t_JobID t)) = None) \<and>
       val_at u' (PendingKey t) =
         (if t_Attempt t > t_MaxRetries t then None else Some (marshal_ticket (retry_ticket t now)))
     else (\<forall>k. k \<noteq> ResultKey t \<longrightarrow> kv_at u' k = kv_at u k))) \<and>
    (r_Status (failure_result t res) = StatusFailedPermanent \<longleftrightarrow>
       t_Attempt t > t_MaxRetries t \<or> r_Status res = StatusFailedPermanent)"
  using queue_env.FinishFailure_outcome [OF assms] by (auto simp: failure_result_def giveUp_def Let_def)

theorem FinishFailure_retries_witness:
  "\<exists>m. FinishFailure (local_queue ''n1'' 7) (bump demo_ticket) zero_result 0 (mem_of claimed_store 0) = (Inr (), m) \<and>
     val_at (mem_store m) (PendingKey demo_ticket) = Some (marshal_ticket (retry_ticket (bump demo_ticket) 0))"
proof -
  obtain m where m: "FinishFailure (local_queue ''n1'' 7) (bump demo_ticket) zero_result 0 (mem_of claimed_store 0) = (Inr (), m)"
    using claimed_store_owner
    by (simp add: FinishFailure_def mem_txn_quiet failure_ops_def overlapRelease_def Let_def)
  moreover have "\<not> t_Attempt (bump demo_ticket) > t_MaxRetries (bump demo_ticket)" by code_simp
  ultimately show ?thesis
    using FinishFailure_retries [OF local_queue_env [OF env_ok_eq] m] claimed_store_owner by auto
qed

text \<open>The retry delay doubles with every attempt, from one second, and is capped at five minutes, for
  every attempt up to 33; the attempts a validated job can reach are at most 10.\<close>

theorem Backoff_doubles:
  assumes "0 \<le> attempt" "attempt \<le> 33"
  shows "Backoff attempt now = now + min (2 ^ nat attempt * Second) (5 * Minute)"
  using assms by (rule Backoff_eq)

theorem Backoff_doubles_witness: "Backoff 3 0 = 8 * Second \<and> Backoff 10 0 = 5 * Minute"
  using Backoff_doubles [of 3 0] Backoff_doubles [of 10 0] by simp

text \<open>Only an unclaimed ticket is abandoned: at some moment during \<open>Abandon\<close> either the ticket was
  unclaimed, and one step removed it and published a result that says so, or it was claimed and nothing
  was changed.\<close>

theorem Abandon_unclaimed:
  assumes "queue_env q view rely" "wf_est (view w)" "Abandon q t w = (Inr x, w')"
  shows "\<exists>u u'. rely (view w) u \<and> rely u' (view w') \<and>
    (if kv_at u (ClaimedKey t) = None
     then kv_at u' (PendingKey t) = None \<and>
       (\<exists>r. val_at u' (ResultKey t) = Some (marshal_result r) \<and> r_Status r = StatusAbandoned)
     else u' = u)"
  using assms by (rule queue_env.Abandon_outcome)

theorem Abandon_unclaimed_witness:
  "\<exists>m. Abandon (local_queue ''n1'' 7) demo_ticket (mem_of claimed_store 0) = (Inr (), m) \<and> mem_store m = claimed_store"
proof -
  have k: "kv_at claimed_store (ClaimedKey demo_ticket) \<noteq> None"
    using claimed_store_owner by (auto simp: val_at_def)
  then have "version_at claimed_store (ClaimedKey demo_ticket) \<noteq> 0" by (simp add: wf_version)
  then obtain m where m: "Abandon (local_queue ''n1'' 7) demo_ticket (mem_of claimed_store 0) = (Inr (), m)"
    by (simp add: Abandon_def mem_txn_quiet Let_def)
  from Abandon_unclaimed [OF local_queue_env [OF env_ok_eq] _ m] m k show ?thesis by auto
qed

text \<open>C28. Garbage collection is exact: without interference \<open>GCResults\<close> deletes, among the first thousand
  results, precisely those whose finishing time (or starting time, when there is none) is further back
  than the retention, reports their number, and leaves every other key alone, whatever the number of
  batches.\<close>

theorem GCResults_exact:
  assumes "mem_script m = []"
  shows "\<exists>m'. GCResults (local_queue n l) retention now m =
      ((int (length (filter (expired_result retention now) (take 1000 (prefix_kvs (mem_store m) ResultsPrefix)))), None), m') \<and>
    (\<forall>k. kv_at (mem_store m') k =
       (if \<exists>kv \<in> set (take 1000 (prefix_kvs (mem_store m) ResultsPrefix)). kv_key kv = k \<and> expired_result retention now kv
        then None else kv_at (mem_store m) k))"
proof -
  let ?kvs = "take 1000 (prefix_kvs (mem_store m) ResultsPrefix)"
  let ?doomed = "map kv_key (filter (expired_result retention now) ?kvs)"
  have "GCResults (local_queue n l) retention now m = gcBatches (local_queue n l) ?doomed 0 m"
    using assms by (simp add: GCResults_def mem_get_quiet get_view_def)
  moreover have "k \<in> set ?doomed \<longleftrightarrow> (\<exists>kv \<in> set ?kvs. kv_key kv = k \<and> expired_result retention now kv)" for k
    by auto
  ultimately show ?thesis
    using gcBatches_quiet [of "local_queue n l" m ?doomed 0] assms by simp
qed

definition old_result :: result where
  "old_result = zero_result\<lparr>r_FinishedAt := ''1970-01-01T00:00:00Z''\<rparr>"

definition aged_store :: est where
  "aged_store = commit [OpPut (ResultKey demo_ticket) (marshal_result old_result) NoLease] empty_store"

lemma aged_kvs: "prefix_kvs aged_store ResultsPrefix =
    [\<lparr>kv_key = ResultKey demo_ticket, kv_value = marshal_result old_result, kv_modrev = 1, kv_version = 1, kv_lease = NoLease\<rparr>]"
proof -
  have "HasPrefix (ResultKey demo_ticket) ResultsPrefix" by (simp add: ResultKey_def)
  then show ?thesis
    by (simp add: aged_store_def commit_def txn_step_def Let_def apply_ops_def apply_op.simps prefix_kvs_def
        del_key_def version_at_def) (simp add: empty_store_def)
qed

lemma aged_expired: "kv_value kv = marshal_result old_result \<Longrightarrow> expired_result Hour (2 * Hour) kv"
proof -
  have "result_int64 old_result" by (simp add: old_result_def zero_result_def result_int64_def int64_defs)
  then have "unmarshal_result (marshal_result old_result) = Some old_result" by (rule unmarshal_marshal_result)
  moreover have "result_stamp old_result = ''1970-01-01T00:00:00Z''" by (simp add: result_stamp_def old_result_def)
  moreover have "Parse_RFC3339 ''1970-01-01T00:00:00Z'' = Some 0" "Hour < Sub (2 * Hour) 0" by code_simp+
  ultimately show "kv_value kv = marshal_result old_result \<Longrightarrow> expired_result Hour (2 * Hour) kv"
    by (simp add: expired_result_def)
qed

theorem GCResults_exact_witness:
  "\<exists>m'. GCResults (local_queue ''n1'' 7) Hour (2 * Hour) (mem_of aged_store 0) = ((1, None), m') \<and>
     kv_at (mem_store m') (ResultKey demo_ticket) = None"
  using GCResults_exact [of "mem_of aged_store 0" "''n1''" 7 Hour "2 * Hour"] by (auto simp: aged_kvs aged_expired [simplified])

text \<open>The in-flight list names the tickets that are claimed: the key of a claim reads back as the job
  and the fire it was made for, with the node that holds it.\<close>

theorem claim_key_roundtrip:
  assumes "is_int64 (t_JobID t)" "kv_key kv = ClaimedKey t" "kv_value kv = Text n"
  shows "claim_of_kv kv = Some \<lparr>c_JobID = t_JobID t, c_SchedAt = t_SchedAt t, c_NodeID = n\<rparr>"
  using assms by (rule claim_of_ClaimedKey)

theorem claim_key_roundtrip_witness:
  "claim_of_kv \<lparr>kv_key = ClaimedKey demo_ticket, kv_value = Text ''n1'', kv_modrev = 4, kv_version = 1, kv_lease = 7\<rparr> =
     Some \<lparr>c_JobID = 3, c_SchedAt = ''2026-01-01T00:00:00Z'', c_NodeID = ''n1''\<rparr>"
  using claim_key_roundtrip [of demo_ticket _ "''n1''"] demo_int64(1)
  by (simp add: ticket_int64_def) (simp add: demo_ticket_def)

end
