(* ===== verification/Queue_Steps.thy ===== *)
theory Queue_Steps
  imports Queue
begin

section \<open>The queue protocol as a step relation\<close>

text \<open>
  Everything a cluster of nodes can do to the queue's keys, one atomic step at a time: the
  transactions of \<open>internal/queue\<close> with the conditions under which they commit, lease grants and
  expiries, and writes to keys outside the queue.  The parameter \<open>P\<close> is the set of job ids whose
  tickets all allow overlap.  The invariants are proved by rule induction over the steps; the
  refinement lemmas show that each operation of the queue, run in an environment that follows the
  protocol, moves the store along the protocol, whether the call returns, fails or panics.  Together
  they carry the invariants over to every interleaving of the operations.  The environment is a parameter
  (\<open>rely\<close>) between the queue's own steps and the whole protocol, so that the same lemmas serve the queue
  alone and the queue as a part of a cluster.
\<close>

subsection \<open>Steps\<close>

definition allowed :: "(int \<Rightarrow> bool) \<Rightarrow> ticket \<Rightarrow> bool" where
  "allowed P t \<longleftrightarrow> ticket_int64 t \<and> (P (t_JobID t) \<longrightarrow> \<not> t_NoOverlap t)"

definition foreign :: "string \<Rightarrow> bool" where
  "foreign k \<longleftrightarrow> \<not> HasPrefix k PendingPrefix \<and> \<not> HasPrefix k ClaimedPrefix"

text \<open>The leases a transaction attaches are granted, so the keys of the queue's tickets, which have
  none, cannot expire.\<close>

inductive queue_step :: "(int \<Rightarrow> bool) \<Rightarrow> est \<Rightarrow> est \<Rightarrow> bool" for P where
  enqueue: "allowed P t \<Longrightarrow> kv_at v (PendingKey t) = None \<Longrightarrow> list_all (foreign \<circ> op_key) ops \<Longrightarrow>
    queue_step P v (commit (OpPut (PendingKey t) (marshal_ticket t) NoLease # ops) v)"
| claim: "kv_at v (kv_key kv) = Some kv \<Longrightarrow> HasPrefix (kv_key kv) PendingPrefix \<Longrightarrow>
    unmarshal_ticket (kv_value kv) = Some t \<Longrightarrow> list_all (eval_cmp v) (claim_cmps kv t) \<Longrightarrow>
    queue_step P v (commit (claim_ops n kv t l1 l2) v)"
| skip: "kv_at v (kv_key kv) = Some kv \<Longrightarrow> HasPrefix (kv_key kv) PendingPrefix \<Longrightarrow>
    unmarshal_ticket (kv_value kv) = Some t \<Longrightarrow> t_NoOverlap t \<Longrightarrow> list_all (foreign \<circ> op_key) ops \<Longrightarrow>
    queue_step P v (commit (OpDelete (kv_key kv) # ops) v)"
| finish: "val_at v (ClaimedKey t) = Some (Text n) \<Longrightarrow> list_all (foreign \<circ> op_key) ops \<Longrightarrow>
    queue_step P v (commit (OpDelete (PendingKey t) # OpDelete (ClaimedKey t) # ops) v)"
| again: "val_at v (ClaimedKey t) = Some (Text n) \<Longrightarrow> allowed P t \<Longrightarrow> list_all (foreign \<circ> op_key) ops \<Longrightarrow>
    queue_step P v (commit (OpPut (PendingKey t) (marshal_ticket (retry_ticket t now)) NoLease # OpDelete (ClaimedKey t) # ops) v)"
| abandon: "kv_at v (ClaimedKey t) = None \<Longrightarrow> list_all (foreign \<circ> op_key) ops \<Longrightarrow>
    queue_step P v (commit (OpDelete (PendingKey t) # ops) v)"
| elsewhere: "list_all (foreign \<circ> op_key) ops \<Longrightarrow> queue_step P v (commit ops v)"
| lapse: "l \<noteq> NoLease \<Longrightarrow> queue_step P v (expire l v)"
| granted: "queue_step P v (grant l v)"

inductive_cases queue_stepE: "queue_step P v v'"

lemma queue_step_later: "queue_step P v v' \<Longrightarrow> wf_est v \<Longrightarrow> wf_est v' \<and> mvcc_le v v'"
  by (erule queue_step.cases)
    (auto simp: wf_commit wf_expire wf_grant mvcc_commit mvcc_expire mvcc_grant)

lemma env_ok_queue: "env_ok (queue_step P)\<^sup>*\<^sup>*"
  by (rule env_ok_steps) (rule queue_step_later)

lemma foreign_keys [simp]:
  "foreign (ResultKey t)" "foreign (OverlapKey i)" "foreign (WatermarkKey i)"
  "\<not> foreign (PendingKey t)" "\<not> foreign (ClaimedKey t)"
  by (auto simp: foreign_def key_defs HasPrefix_iff prefix_def key_simps)

subsection \<open>Invariants\<close>

text \<open>Every pending key holds the ticket it is named after, without a lease, and a claimed ticket of a
  job that allows overlap is still in the queue.\<close>

definition typed_pending :: "(int \<Rightarrow> bool) \<Rightarrow> est \<Rightarrow> bool" where
  "typed_pending P v \<longleftrightarrow> (\<forall>k kv. kv_at v k = Some kv \<longrightarrow> HasPrefix k PendingPrefix \<longrightarrow>
     kv_lease kv = NoLease \<and>
     (\<exists>t. unmarshal_ticket (kv_value kv) = Some t \<and> k = PendingKey t \<and> allowed P t))"

definition claimed_pending :: "(int \<Rightarrow> bool) \<Rightarrow> est \<Rightarrow> bool" where
  "claimed_pending P v \<longleftrightarrow>
     (\<forall>t. P (t_JobID t) \<longrightarrow> kv_at v (ClaimedKey t) \<noteq> None \<longrightarrow> kv_at v (PendingKey t) \<noteq> None)"

lemma allowed_bump: "allowed P t \<Longrightarrow> allowed P (bump t)"
  by (simp add: allowed_def ticket_int64_def) (simp add: bump_def is_int64_wrap64)

lemma allowed_retry: "allowed P t \<Longrightarrow> allowed P (retry_ticket t now)"
  by (simp add: allowed_def ticket_int64_def) (simp add: retry_ticket_def)

lemma PendingKey_prefix [simp]: "HasPrefix (PendingKey t) PendingPrefix"
  by (simp add: PendingKey_def)

text \<open>Operations on other keys keep what the queue's keys hold.\<close>

lemma foreign_ops_keep:
  assumes "list_all (foreign \<circ> op_key) ops" "\<not> foreign k"
  shows "kv_at (apply_ops r ops v) k = kv_at v k"
  using assms by (intro kv_at_apply_ops_other) (auto simp: list_all_iff)

lemma not_foreign_pending: "HasPrefix k PendingPrefix \<Longrightarrow> \<not> foreign k"
  by (simp add: foreign_def)

lemmas step_simps = kv_at_commit kv_at_put kv_at_delete apply_ops_Cons foreign_ops_keep not_foreign_pending key_simps

lemma typed_pendingD:
  "typed_pending P v \<Longrightarrow> kv_at v k = Some kv \<Longrightarrow> HasPrefix k PendingPrefix \<Longrightarrow> unmarshal_ticket (kv_value kv) = Some t \<Longrightarrow>
   k = PendingKey t \<and> allowed P t"
  unfolding typed_pending_def by fastforce

lemma typed_pending_lease:
  "typed_pending P v \<Longrightarrow> kv_at v (PendingKey t) = Some kv \<Longrightarrow> kv_lease kv = NoLease"
  unfolding typed_pending_def PendingKey_def by fastforce

lemma typed_pending_put:
  assumes "typed_pending P v" "allowed P t"
    and "\<And>k. HasPrefix k PendingPrefix \<Longrightarrow> kv_at v' k = (if k = PendingKey t then
      Some \<lparr>kv_key = k, kv_value = marshal_ticket t, kv_modrev = r, kv_version = n, kv_lease = NoLease\<rparr> else kv_at v k)"
  shows "typed_pending P v'"
proof -
  have u: "unmarshal_ticket (marshal_ticket t) = Some t"
    using assms(2) by (simp add: allowed_def unmarshal_marshal_ticket)
  have "kv_lease kv = NoLease \<and> (\<exists>t. unmarshal_ticket (kv_value kv) = Some t \<and> k = PendingKey t \<and> allowed P t)"
    if "kv_at v' k = Some kv" "HasPrefix k PendingPrefix" for k kv
    using that u assms(1,2) assms(3) [OF that(2)]
    by (cases "k = PendingKey t") (auto simp: typed_pending_def)
  then show ?thesis by (auto simp: typed_pending_def)
qed

lemma typed_pending_sub:
  assumes "typed_pending P v" "\<And>k kv. HasPrefix k PendingPrefix \<Longrightarrow> kv_at v' k = Some kv \<Longrightarrow> kv_at v k = Some kv"
  shows "typed_pending P v'"
  using assms unfolding typed_pending_def by blast

lemma pending_claim_ops:
  assumes "kv_key kv = PendingKey t"
  shows "kv_at (commit (claim_ops n kv t l1 l2) v) k =
    (if k = PendingKey t then Some \<lparr>kv_key = k, kv_value = marshal_ticket (bump t), kv_modrev = es_rev v + 1,
        kv_version = version_at v k + 1, kv_lease = NoLease\<rparr>
     else if k = ClaimedKey t then Some \<lparr>kv_key = k, kv_value = Text n, kv_modrev = es_rev v + 1,
        kv_version = version_at v k + 1, kv_lease = l1\<rparr>
     else if t_NoOverlap t \<and> k = OverlapKey (t_JobID t) then Some \<lparr>kv_key = k, kv_value = Text n,
        kv_modrev = es_rev v + 1, kv_version = version_at v k + 1, kv_lease = l2\<rparr>
     else kv_at v k)"
  using assms by (auto simp: claim_ops_def version_at_def etcd_simps key_simps)

lemma typed_pending_step:
  assumes "queue_step P v v'" "typed_pending P v" "wf_est v"
  shows "typed_pending P v'"
  using assms
proof (cases rule: queue_step.cases)
  case (enqueue t ops)
  then show ?thesis using assms(2)
    by (intro typed_pending_put [of P v t v' "es_rev v + 1" "version_at v (PendingKey t) + 1"]) (simp_all add: step_simps)
next
  case (claim kv t n l1 l2)
  then have "kv_key kv = PendingKey t" "allowed P t"
    using typed_pendingD [OF assms(2)] by auto
  with claim show ?thesis using assms(2) pending_claim_ops [of kv t n l1 l2 v]
    by (intro typed_pending_put [of P v "bump t" v' "es_rev v + 1" "version_at v (PendingKey t) + 1"])
      (auto simp: allowed_bump ClaimedKey_def OverlapKey_def HasPrefix_iff prefix_def prefix_apart)
next
  case (skip kv t ops)
  then show ?thesis using assms(2)
    by (intro typed_pending_sub [of P v v']) (auto simp: step_simps split: if_splits)
next
  case (finish t n ops)
  then show ?thesis using assms(2)
    by (intro typed_pending_sub [of P v v']) (auto simp: step_simps split: if_splits)
next
  case (again t n ops now)
  then show ?thesis using assms(2)
    by (intro typed_pending_put [of P v "retry_ticket t now" v' "es_rev v + 1" "version_at v (PendingKey t) + 1"])
      (auto simp: step_simps allowed_retry ClaimedKey_def HasPrefix_iff prefix_def)
next
  case (abandon t ops)
  then show ?thesis using assms(2)
    by (intro typed_pending_sub [of P v v']) (auto simp: step_simps split: if_splits)
next
  case (elsewhere ops)
  then show ?thesis using assms(2)
    by (intro typed_pending_sub [of P v v']) (auto simp: step_simps split: if_splits)
next
  case (lapse l)
  have "kv_at v k = Some kv" if "kv_at (expire l v) k = Some kv" for k kv
    using kv_at_set [OF that] kv_at_key [OF that] wf_mem_kv_at [OF assms(3), of kv] by (simp add: expire_def)
  with lapse show ?thesis using assms(2) by (intro typed_pending_sub [of P v v']) auto
next
  case (granted l)
  then show ?thesis using assms(2)
    by (intro typed_pending_sub [of P v v']) (auto simp: grant_def etcd_simps)
qed

lemma claimed_pending_step:
  assumes "queue_step P v v'" "typed_pending P v" "claimed_pending P v" "wf_est v"
  shows "claimed_pending P v'"
  unfolding claimed_pending_def
proof (intro allI impI)
  fix s
  assume s: "P (t_JobID s)" "kv_at v' (ClaimedKey s) \<noteq> None"
  have old: "kv_at v (ClaimedKey s) \<noteq> None \<Longrightarrow> kv_at v (PendingKey s) \<noteq> None"
    using assms(3) s(1) by (auto simp: claimed_pending_def)
  from assms(1) show "kv_at v' (PendingKey s) \<noteq> None"
  proof (cases rule: queue_step.cases)
    case (claim kv t n l1 l2)
    then have k: "kv_key kv = PendingKey t" using typed_pendingD [OF assms(2)] by auto
    with s(2) claim(1) old show ?thesis by (auto simp: pending_claim_ops key_simps split: if_splits)
  next
    case (skip kv t ops)
    then have "kv_key kv = PendingKey t" "\<not> P (t_JobID t)"
      using typed_pendingD [OF assms(2)] by (auto simp: allowed_def)
    with skip(1,6) s old show ?thesis by (auto simp: step_simps split: if_splits)
  next
    case (abandon t ops)
    have "kv_at v (ClaimedKey s) \<noteq> None" using abandon s(2) by (simp add: step_simps)
    with abandon(2) have "ClaimedKey s \<noteq> ClaimedKey t" by metis
    then have "PendingKey s \<noteq> PendingKey t" by (simp add: PendingKey_eq ClaimedKey_eq)
    with abandon s(2) old show ?thesis by (simp add: step_simps)
  next
    case (lapse l)
    then have "kv_at v (ClaimedKey s) \<noteq> None"
      using s(2) kv_at_expired [OF assms(4)] by (auto split: option.splits)
    with old obtain kv where kv: "kv_at v (PendingKey s) = Some kv" by blast
    with typed_pending_lease [OF assms(2) kv] lapse show ?thesis
      by (simp add: kv_at_expired [OF assms(4)])
  qed (use s old in \<open>auto simp: step_simps grant_def kv_at_update split: if_splits\<close>)
qed

definition queue_inv :: "(int \<Rightarrow> bool) \<Rightarrow> est \<Rightarrow> bool" where
  "queue_inv P v \<longleftrightarrow> wf_est v \<and> typed_pending P v \<and> claimed_pending P v"

lemma queue_inv_step: "queue_step P v v' \<Longrightarrow> queue_inv P v \<Longrightarrow> queue_inv P v'"
  unfolding queue_inv_def using queue_step_later typed_pending_step claimed_pending_step by blast

lemma queue_inv_steps: "(queue_step P)\<^sup>*\<^sup>* v v' \<Longrightarrow> queue_inv P v \<Longrightarrow> queue_inv P v'"
  by (induction rule: rtranclp_induct) (auto intro: queue_inv_step)

lemma queue_inv_init: "wf_est v \<Longrightarrow> (\<And>k. \<not> foreign k \<Longrightarrow> kv_at v k = None) \<Longrightarrow> queue_inv P v"
  by (auto simp: queue_inv_def typed_pending_def claimed_pending_def not_foreign_pending)

subsection \<open>Every operation follows the protocol\<close>

text \<open>The keys the queue writes, and the steps that write no other key: what the queue needs its
  environment to allow.  The environment itself follows the protocol.\<close>

definition queue_key :: "string \<Rightarrow> bool" where
  "queue_key k \<longleftrightarrow> HasPrefix k PendingPrefix \<or> HasPrefix k ClaimedPrefix \<or> HasPrefix k ResultsPrefix \<or>
     HasPrefix k OverlapPrefix \<or> HasPrefix k WatermarkPrefix"

definition queue_own :: "(int \<Rightarrow> bool) \<Rightarrow> est \<Rightarrow> est \<Rightarrow> bool" where
  "queue_own P v v' \<longleftrightarrow> queue_step P v v' \<and> (\<exists>ops. v' = commit ops v \<and> list_all (queue_key \<circ> op_key) ops \<and> leases_ok v ops)"

lemma queue_keys [simp]:
  "queue_key (PendingKey t)" "queue_key (ClaimedKey t)" "queue_key (ResultKey t)" "queue_key (OverlapKey i)" "queue_key (WatermarkKey i)"
  "queue_key (claim_key kv)" "HasPrefix k PendingPrefix \<Longrightarrow> queue_key k"
  by (auto simp: queue_key_def key_defs claim_key_def HasPrefix_iff prefix_def)

lemma queue_ownI:
  "queue_step P v (commit ops v) \<Longrightarrow> list_all (queue_key \<circ> op_key) ops \<Longrightarrow> leases_ok v ops \<Longrightarrow> queue_own P v (commit ops v)"
  by (auto simp: queue_own_def)

locale queue_protocol = queue_env q view rely
  for q :: "'w queue" and view :: "'w \<Rightarrow> est" and rely :: "est \<Rightarrow> est \<Rightarrow> bool" and P :: "int \<Rightarrow> bool" +
  assumes own: "queue_own P v v' \<Longrightarrow> rely v v'"
    and follow: "rely v v' \<Longrightarrow> (queue_step P)\<^sup>*\<^sup>* v v'"
begin

lemmas own_step = own [OF queue_ownI]

lemma elsewhere_steps:
  "list_all (foreign \<circ> op_key) ops \<Longrightarrow> list_all (queue_key \<circ> op_key) ops \<Longrightarrow> leases_ok u ops \<Longrightarrow> rely u (commit ops u)"
  by (intro own_step queue_step.elsewhere)

lemma idle_steps: "rely u (commit [] u)"
  by (simp add: commit_Nil)

lemma reachable_wf: "rely (view w) u \<Longrightarrow> wf_est (view w) \<Longrightarrow> wf_est u"
  by (rule rely_wf)

lemma enqueue_steps:
  assumes "allowed P t" "list_all (foreign \<circ> op_key) ops \<and> list_all (queue_key \<circ> op_key) ops" "wf_est (view w)"
    and "w_txn (q_cli q) [CmpVersion (PendingKey t) 0] (OpPut (PendingKey t) (marshal_ticket t) NoLease # ops) [] w = (r, w')"
  shows "rely (view w) (view w')"
  using assms(4)
proof (rule txn_refine)
  fix u assume u: "rely (view w) u" "list_all (eval_cmp u) [CmpVersion (PendingKey t) 0]"
    "leases_ok u (OpPut (PendingKey t) (marshal_ticket t) NoLease # ops)"
  then have "kv_at u (PendingKey t) = None" using reachable_wf [OF u(1) assms(3)] by (simp add: wf_version)
  then show "rely u (commit (OpPut (PendingKey t) (marshal_ticket t) NoLease # ops) u)"
    using assms(1,2) u(3) by (intro own_step queue_step.enqueue) simp_all
qed (rule idle_steps)

lemma Enqueue_steps:
  assumes "allowed P t" "wf_est (view w)"
  shows "rely (view w) (view (snd (Enqueue q t w)))"
  using enqueue_steps [OF assms(1) _ assms(2), of "[]"]
  by (auto simp: Enqueue_def Let_def split: prod.splits sum.splits)

lemma EnqueueFire_steps:
  assumes "allowed P t" "wf_est (view w)"
  shows "rely (view w) (view (snd (EnqueueFire q t s w)))"
  using enqueue_steps [OF assms(1) _ assms(2), of "[OpPut (WatermarkKey (t_JobID t)) (Text s) NoLease]"]
  by (auto simp: EnqueueFire_def Let_def split: prod.splits sum.splits)

lemma AdvanceWatermark_steps: "rely (view w) (view (snd (AdvanceWatermark q i s w)))"
proof -
  obtain r w' where "w_put (q_cli q) (WatermarkKey i) (Text s) NoLease w = (r, w')"
    by (cases "w_put (q_cli q) (WatermarkKey i) (Text s) NoLease w")
  with put_refine [OF this] elsewhere_steps show ?thesis
    by (auto simp: AdvanceWatermark_def split: sum.splits)
qed

lemma Watermark_steps: "rely (view w) (view (snd (Watermark q i w)))"
  using get_rely [of w "WatermarkKey i" Single]
  by (auto simp: Watermark_def split: prod.splits sum.splits list.splits)

lemma Trigger_steps:
  assumes "\<And>s. allowed P (manualTicket j s)" "wf_est (view w)"
  shows "rely (view w) (view (snd (Trigger q j w)))"
proof -
  obtain n w1 where n: "w_now (q_cli q) w = (n, w1)" by (cases "w_now (q_cli q) w")
  obtain r w2 where r: "w_rand (q_cli q) 65535 w1 = (r, w2)" by (cases "w_rand (q_cli q) 65535 w1")
  have "rely (view w) (view w2)"
    using now [of w] rand [of w1 65535] n r by (auto intro: rely_trans)
  moreover have "rely (view w2) (view (snd (Enqueue q (manualTicket j (manualStamp n r)) w2)))"
    using Enqueue_steps [OF assms(1)] reachable_wf [OF calculation assms(2)] by blast
  ultimately show ?thesis
    using n r by (auto simp: Trigger_def Let_def split: prod.splits sum.splits intro: rely_trans)
qed

text \<open>The snapshots only read.\<close>

lemma PendingTickets_steps: "rely (view w) (view (snd (PendingTickets q n w)))"
  using get_rely [of w PendingPrefix "Prefix (if n \<le> 0 then 50 else n)"]
  by (auto simp: PendingTickets_def Let_def split: prod.splits sum.splits)

lemma finish_steps:
  assumes "w_txn (q_cli q) [CmpValue (ClaimedKey t) (Text n)] ts [OpPut (ResultKey t) d NoLease] w = (r, w')"
    and "\<And>u. val_at u (ClaimedKey t) = Some (Text n) \<Longrightarrow> queue_step P u (commit ts u)" "list_all (queue_key \<circ> op_key) ts"
  shows "rely (view w) (view w')"
  using assms(1)
proof (rule txn_refine)
  show "rely u (commit ts u)" if "list_all (eval_cmp u) [CmpValue (ClaimedKey t) (Text n)]" "leases_ok u ts" for u
    using assms(2) [of u] assms(3) that by (intro own_step) auto
qed (simp add: elsewhere_steps)

lemma overlapRelease_foreign: "list_all (foreign \<circ> op_key) (overlapRelease t)" "list_all (queue_key \<circ> op_key) (overlapRelease t)"
  by (simp_all add: overlapRelease_def)

lemma finish_keys: "list_all (queue_key \<circ> op_key) (success_ops t res)" "list_all (queue_key \<circ> op_key) (failure_ops t res now)"
  by (simp_all add: success_ops_def failure_ops_def overlapRelease_foreign Let_def)

lemma FinishSuccess_steps: "rely (view w) (view (snd (FinishSuccess q t res w)))"
proof -
  have "queue_step P u (commit (success_ops t res) u)" if "val_at u (ClaimedKey t) = Some (Text (q_nodeID q))" for u
    using queue_step.finish [OF that, of "OpPut (ResultKey t) (marshal_result res) NoLease # overlapRelease t"]
    by (simp add: success_ops_def overlapRelease_foreign)
  from finish_steps [OF _ this finish_keys(1), where w = w and d = "marshal_result res"] show ?thesis
    by (auto simp: FinishSuccess_def split: prod.splits sum.splits)
qed

lemma FinishFailure_steps:
  assumes "allowed P t"
  shows "rely (view w) (view (snd (FinishFailure q t res now w)))"
proof -
  let ?rest = "OpPut (ResultKey t) (marshal_result (failure_result t res)) NoLease # overlapRelease t"
  have "queue_step P u (commit (failure_ops t res now) u)" if "val_at u (ClaimedKey t) = Some (Text (q_nodeID q))" for u
    using queue_step.finish [OF that, of ?rest] queue_step.again [OF that assms, of ?rest now]
    by (simp add: failure_ops_def overlapRelease_foreign Let_def)
  from finish_steps [OF _ this finish_keys(2), where w = w and d = "marshal_result (failure_result t res)"] show ?thesis
    by (auto simp: FinishFailure_def split: prod.splits sum.splits)
qed

lemma Abandon_steps:
  assumes "wf_est (view w)"
  shows "rely (view w) (view (snd (Abandon q t w)))"
proof -
  obtain n w1 where n: "w_now (q_cli q) w = (n, w1)" by (cases "w_now (q_cli q) w")
  let ?ops = "[OpDelete (PendingKey t), OpPut (ResultKey t) (marshal_result (closing_result (q_nodeID q) t StatusAbandoned n)) NoLease]"
  obtain r w2 where r: "w_txn (q_cli q) [CmpVersion (ClaimedKey t) 0] ?ops [] w1 = (r, w2)"
    by (cases "w_txn (q_cli q) [CmpVersion (ClaimedKey t) 0] ?ops [] w1")
  have w1: "rely (view w) (view w1)" using now [of w] n by simp
  have "rely (view w1) (view w2)"
    using r
  proof (rule txn_refine)
    fix u assume u: "rely (view w1) u" "list_all (eval_cmp u) [CmpVersion (ClaimedKey t) 0]" "leases_ok u ?ops"
    then have "kv_at u (ClaimedKey t) = None"
      using reachable_wf [OF rely_trans [OF w1 u(1)] assms] by (simp add: wf_version)
    then show "rely u (commit ?ops u)" using u(3) by (intro own_step queue_step.abandon) simp_all
  qed (rule idle_steps)
  then show ?thesis
    using n r w1 by (auto simp: Abandon_def split: sum.splits intro: rely_trans)
qed

end

context queue_protocol
begin

lemma lease_steps: "q_claimLease q w = (l, w') \<Longrightarrow> rely (view w) (view w')"
  using lease_rely [of w] by simp

text \<open>A pair read earlier, in a state of the protocol.\<close>

definition seen :: "kv \<Rightarrow> est \<Rightarrow> bool" where
  "seen kv v \<longleftrightarrow> (\<exists>u. wf_est u \<and> rely u v \<and> kv_at u (kv_key kv) = Some kv) \<and>
     HasPrefix (kv_key kv) PendingPrefix"

lemma seen_later: "seen kv v \<Longrightarrow> rely v v' \<Longrightarrow> seen kv v'"
  by (auto simp: seen_def intro: rely_trans)

lemma seen_unchanged: "seen kv v \<Longrightarrow> modrev_at v (kv_key kv) = kv_modrev kv \<Longrightarrow> kv_at v (kv_key kv) = Some kv"
  unfolding seen_def using mvcc_same_rev rely_mvcc by blast

lemma claim_steps:
  assumes "claim q kv t w = (r, w')" "seen kv (view w)" "unmarshal_ticket (kv_value kv) = Some t"
  shows "rely (view w) (view w')"
proof -
  obtain l1 w1 where l1: "q_claimLease q w = (l1, w1)" by (cases "q_claimLease q w")
  obtain l2 w2 where l2: "(if t_NoOverlap t then q_claimLease q w1 else (NoLease, w1)) = (l2, w2)"
    by (cases "if t_NoOverlap t then q_claimLease q w1 else (NoLease, w1)")
  have w2: "rely (view w) (view w2)"
    using l1 l2 by (auto split: if_splits dest!: lease_steps intro: rely_trans)
  obtain y where y: "w_txn (q_cli q) (claim_cmps kv t) (claim_ops (q_nodeID q) kv t l1 l2) [] w2 = (y, w')"
    using assms(1) l1 l2 by (auto simp: claim_def Let_def split: prod.splits sum.splits)
  then have "rely (view w2) (view w')"
  proof (rule txn_refine)
    fix u assume u: "rely (view w2) u" "list_all (eval_cmp u) (claim_cmps kv t)" "leases_ok u (claim_ops (q_nodeID q) kv t l1 l2)"
    have "seen kv u" using seen_later [OF assms(2)] w2 u(1) by (blast intro: rely_trans)
    moreover have "kv_at u (kv_key kv) = Some kv"
      using seen_unchanged [OF calculation] u(2) by (simp add: claim_cmps_def)
    ultimately have "queue_step P u (commit (claim_ops (q_nodeID q) kv t l1 l2) u)"
      using assms(3) u(2) by (auto simp: seen_def intro: queue_step.claim)
    moreover have "list_all (queue_key \<circ> op_key) (claim_ops (q_nodeID q) kv t l1 l2)"
      using assms(2) by (simp add: claim_ops_def seen_def)
    ultimately show "rely u (commit (claim_ops (q_nodeID q) kv t l1 l2) u)" using u(3) by (rule own_step)
  qed (rule idle_steps)
  with w2 show ?thesis by (rule rely_trans)
qed

lemma skipStale_steps:
  assumes "skipStale q kv (bump t) w = (r, w')" "seen kv (view w)" "unmarshal_ticket (kv_value kv) = Some t" "t_NoOverlap t"
  shows "rely (view w) (view w')"
proof -
  obtain n w1 where n: "w_now (q_cli q) w = (n, w1)" by (cases "w_now (q_cli q) w")
  then have w1: "rely (view w) (view w1)" using now [of w] by simp
  let ?ops = "[OpDelete (kv_key kv),
    OpPut (ResultKey (bump t)) (marshal_result (closing_result (q_nodeID q) (bump t) StatusSkipped n)) NoLease]"
  obtain y where y: "w_txn (q_cli q) [CmpModRevision (kv_key kv) (kv_modrev kv)] ?ops [] w1 = (y, w')"
    using assms(1) n by (auto simp: skipStale_def Let_def split: prod.splits sum.splits)
  then have "rely (view w1) (view w')"
  proof (rule txn_refine)
    fix u assume u: "rely (view w1) u" "list_all (eval_cmp u) [CmpModRevision (kv_key kv) (kv_modrev kv)]" "leases_ok u ?ops"
    have "seen kv u" using seen_later [OF assms(2)] w1 u(1) by (blast intro: rely_trans)
    moreover have "kv_at u (kv_key kv) = Some kv"
      using seen_unchanged [OF calculation] u(2) by simp
    ultimately show "rely u (commit ?ops u)"
      using assms(3,4) u(3) by (intro own_step queue_step.skip [of u kv t]) (simp_all add: seen_def)
  qed (rule idle_steps)
  with w1 show ?thesis by (rule rely_trans)
qed

lemma overlapHeld_steps: "overlapHeld q i w = (b, w') \<Longrightarrow> rely (view w) (view w')"
  using get_rely [of w "OverlapKey i" Single] by (auto simp: overlapHeld_def split: prod.splits sum.splits)

lemma claimScan_steps:
  "\<forall>kv \<in> set kvs. seen kv (view w) \<Longrightarrow> rely (view w) (view (snd (claimScan q now kvs w)))"
proof (induction kvs arbitrary: w)
  case (Cons kv kvs)
  have rest: "rely (view w) (view (snd (claimScan q now kvs w')))"
    if "rely (view w) (view w')" for w'
    using Cons.IH [of w'] Cons.prems seen_later [OF _ that] rely_trans [OF that] by simp
  show ?case
  proof (cases "unmarshal_ticket (kv_value kv)")
    case None
    then show ?thesis using rest [of w] by simp
  next
    case (Some t)
    obtain r w1 where c: "claim q kv t w = (r, w1)" by (cases "claim q kv t w")
    then have w1: "rely (view w) (view w1)" using claim_steps Cons.prems Some by simp
    obtain b w2 where o: "overlapHeld q (t_JobID t) w1 = (b, w2)" by (cases "overlapHeld q (t_JobID t) w1")
    then have w2: "rely (view w) (view w2)" using overlapHeld_steps w1 by (blast intro: rely_trans)
    obtain x w3 where s: "skipStale q kv (bump t) w2 = (x, w3)" by (cases "skipStale q kv (bump t) w2")
    have w3: "t_NoOverlap t \<Longrightarrow> rely (view w) (view w3)"
      using skipStale_steps [OF s] seen_later [OF _ w2] Cons.prems Some w2 by (simp add: rely_trans)
    show ?thesis
      using Some c o s w1 w2 w3 rest by (auto split: res.splits bool.splits sum.splits)
  qed
qed simp

lemma ClaimNext_steps:
  assumes "wf_est (view w)"
  shows "rely (view w) (view (snd (ClaimNext q now w)))"
proof (cases "w_get (q_cli q) PendingPrefix (Prefix claimScanLimit) w")
  case (Pair r w1)
  have w1: "rely (view w) (view w1)"
    using get_rely [of w PendingPrefix "Prefix claimScanLimit"] Pair by simp
  show ?thesis
  proof (cases r)
    case (Inl e)
    then show ?thesis using Pair w1 by (simp add: ClaimNext_def)
  next
    case (Inr resp)
    have "\<forall>kv \<in> set (gr_kvs resp). seen kv (view w1)"
      using pending_scan [of _ w resp w1, OF Pair [unfolded Inr] assms] by (auto simp: seen_def)
    from rely_trans [OF w1 claimScan_steps [OF this]] show ?thesis
      using Pair Inr by (simp add: ClaimNext_def)
  qed
qed

text \<open>A ticket handed to a worker is one the protocol allows.\<close>

lemma claimScan_from:
  "claimScan q now kvs w = (Ok (Some t), w') \<Longrightarrow> \<exists>kv \<in> set kvs. map_option bump (unmarshal_ticket (kv_value kv)) = Some t"
  by (induction kvs arbitrary: w)
    (fastforce split: option.splits if_splits prod.splits res.splits bool.splits sum.splits)+

lemma ClaimNext_allowed:
  assumes "ClaimNext q now w = (Ok (Some t), w')" "queue_inv P (view w)"
  shows "allowed P t"
proof -
  obtain resp w1 where g: "w_get (q_cli q) PendingPrefix (Prefix claimScanLimit) w = (Inr resp, w1)"
    and s: "claimScan q now (gr_kvs resp) w1 = (Ok (Some t), w')"
    using assms(1) by (auto simp: ClaimNext_def split: prod.splits sum.splits)
  obtain u where u: "rely (view w) u" "\<forall>kv \<in> set (gr_kvs resp). kv_at u (kv_key kv) = Some kv \<and> HasPrefix (kv_key kv) PendingPrefix"
    using pending_scan [OF g] assms(2) by (auto simp: queue_inv_def)
  obtain kv t0 where "kv \<in> set (gr_kvs resp)" "unmarshal_ticket (kv_value kv) = Some t0" "t = bump t0"
    using claimScan_from [OF s] by auto
  moreover have "typed_pending P u" using queue_inv_steps [OF follow [OF u(1)] assms(2)] by (simp add: queue_inv_def)
  ultimately show ?thesis using typed_pendingD u(2) allowed_bump by blast
qed

lemma gcBatches_steps:
  "list_all (\<lambda>k. foreign k \<and> queue_key k) doomed \<Longrightarrow> rely (view w) (view (snd (gcBatches q doomed i w)))"
proof (induction "length doomed - i" arbitrary: i w rule: less_induct)
  case less
  show ?case
  proof (cases "i < length doomed")
    case True
    define e where "e = (if i + 100 > length doomed then length doomed else i + 100)"
    define ops where "ops = map OpDelete (take (e - i) (drop i doomed))"
    have "list_all (foreign \<circ> op_key) ops" "list_all (queue_key \<circ> op_key) ops"
      using less.prems by (auto simp: ops_def list_all_iff dest!: in_set_takeD in_set_dropD)
    note el = elsewhere_steps [OF this]
    obtain r w1 where r: "w_txn (q_cli q) [] ops [] w = (r, w1)" by (cases "w_txn (q_cli q) [] ops [] w")
    have w1: "rely (view w) (view w1)" by (rule txn_refine [OF r]) (simp_all add: el commit_Nil)
    have "gcBatches q doomed i w = (case r of Inl err \<Rightarrow> ((int i, Some err), w1) | Inr _ \<Rightarrow> gcBatches q doomed (i + 100) w1)"
      using True r by (subst gcBatches.simps) (simp add: e_def [symmetric] ops_def [symmetric] Let_def)
    moreover have "rely (view w1) (view (snd (gcBatches q doomed (i + 100) w1)))"
      using less.hyps [of "i + 100" w1] less.prems True by simp
    ultimately show ?thesis using w1 by (auto split: sum.splits intro: rely_trans)
  next
    case False
    then show ?thesis by (subst gcBatches.simps) simp
  qed
qed

lemma GCResults_steps: "rely (view w) (view (snd (GCResults q ret now w)))"
proof (cases "w_get (q_cli q) ResultsPrefix (Prefix 1000) w")
  case (Pair r w1)
  have w1: "rely (view w) (view w1)"
    using get_rely [of w ResultsPrefix "Prefix 1000"] Pair by simp
  show ?thesis
  proof (cases r)
    case (Inl e)
    then show ?thesis using Pair w1 by (simp add: GCResults_def)
  next
    case (Inr resp)
    have results_foreign: "HasPrefix k ResultsPrefix \<Longrightarrow> foreign k \<and> queue_key k" for k
      by (auto simp: foreign_def queue_key_def HasPrefix_iff prefix_def key_simps)
    have "\<exists>u. resp = get_view u ResultsPrefix (Prefix 1000)"
      using get_ok [OF Pair [unfolded Inr]] by blast
    then have "list_all (\<lambda>k. foreign k \<and> queue_key k) (map kv_key (filter (expired_result ret now) (gr_kvs resp)))"
      by (auto simp: list_all_iff get_view_def prefix_kvs_def results_foreign dest!: in_set_takeD)
    from rely_trans [OF w1 gcBatches_steps [OF this]] show ?thesis
      using Pair Inr by (simp add: GCResults_def)
  qed
qed

end

lemma local_queue_protocol: "queue_protocol (local_queue n l) mem_store (queue_step P)\<^sup>*\<^sup>* P"
  using local_queue_env [OF env_ok_queue] by (auto simp: queue_protocol_def queue_protocol_axioms_def queue_own_def)

interpretation lqp: queue_protocol "local_queue n l" mem_store "(queue_step P)\<^sup>*\<^sup>*" P for n l P
  by (rule local_queue_protocol)

subsection \<open>Properties\<close>

lemma demo_allowed: "allowed (\<lambda>i. i = 3) demo_ticket"
  using demo_int64(1) by (simp add: allowed_def) (simp add: demo_ticket_def zero_ticket_def)

text \<open>C9. Every operation of the queue refines the protocol: in an environment whose other clients follow
  the step relation, each operation moves the store by steps of the relation only, whether it returns,
  reports an error or panics, and whatever interleaves with its calls.\<close>

theorem queue_operations_refine:
  assumes "queue_protocol q view (queue_step P)\<^sup>*\<^sup>* P" "wf_est (view w)" "allowed P t"
  shows "(queue_step P)\<^sup>*\<^sup>* (view w) (view (snd (Enqueue q t w))) \<and>
    (queue_step P)\<^sup>*\<^sup>* (view w) (view (snd (EnqueueFire q t s w))) \<and>
    (queue_step P)\<^sup>*\<^sup>* (view w) (view (snd (AdvanceWatermark q i s w))) \<and>
    (queue_step P)\<^sup>*\<^sup>* (view w) (view (snd (ClaimNext q now w))) \<and>
    (queue_step P)\<^sup>*\<^sup>* (view w) (view (snd (FinishSuccess q t res w))) \<and>
    (queue_step P)\<^sup>*\<^sup>* (view w) (view (snd (FinishFailure q t res now w))) \<and>
    (queue_step P)\<^sup>*\<^sup>* (view w) (view (snd (Abandon q t w))) \<and>
    (queue_step P)\<^sup>*\<^sup>* (view w) (view (snd (GCResults q retention now w)))"
  using queue_protocol.Enqueue_steps [OF assms(1,3,2)] queue_protocol.EnqueueFire_steps [OF assms(1,3,2)]
    queue_protocol.AdvanceWatermark_steps [OF assms(1)] queue_protocol.ClaimNext_steps [OF assms(1,2)]
    queue_protocol.FinishSuccess_steps [OF assms(1)] queue_protocol.FinishFailure_steps [OF assms(1,3)]
    queue_protocol.Abandon_steps [OF assms(1,2)] queue_protocol.GCResults_steps [OF assms(1)]
  by (intro conjI) simp_all

theorem queue_operations_refine_witness:
  "(queue_step (\<lambda>i. i = 3))\<^sup>*\<^sup>* pending_store
     (mem_store (snd (ClaimNext (local_queue ''n1'' 7) 0 (mem_of pending_store 0))))"
  using queue_operations_refine [OF local_queue_protocol _ demo_allowed, of "mem_of pending_store 0" "''n1''" 7] by simp

text \<open>C10. A claimed ticket never leaves the queue: in every state the protocol can reach from an empty
  queue, each pending key holds the ticket it is named after, and while a ticket of a job whose tickets
  allow overlap is claimed, it is still pending, so the death of its worker cannot lose it.\<close>

theorem claimed_stays_pending:
  assumes "wf_est v0" "\<And>k. \<not> foreign k \<Longrightarrow> kv_at v0 k = None" "(queue_step P)\<^sup>*\<^sup>* v0 v"
    and "P (t_JobID t)" "kv_at v (ClaimedKey t) \<noteq> None"
  shows "\<exists>kv t'. kv_at v (PendingKey t) = Some kv \<and> unmarshal_ticket (kv_value kv) = Some t' \<and>
    PendingKey t' = PendingKey t \<and> \<not> t_NoOverlap t'"
proof -
  have inv: "queue_inv P v" using queue_inv_steps [OF assms(3) queue_inv_init] assms(1,2) by blast
  then obtain kv where kv: "kv_at v (PendingKey t) = Some kv"
    using assms(4,5) by (auto simp: queue_inv_def claimed_pending_def)
  then obtain t' where "unmarshal_ticket (kv_value kv) = Some t'" "PendingKey t = PendingKey t'" "allowed P t'"
    using inv by (force simp: queue_inv_def typed_pending_def)
  moreover from this have "t_JobID t' = t_JobID t" by (simp add: PendingKey_eq stamp_eq)
  ultimately show ?thesis using kv assms(4) by (intro exI [of _ kv] exI [of _ t']) (simp add: allowed_def)
qed

lemma demo_claim_step:
  "\<exists>v. (queue_step (\<lambda>i. i = 3))\<^sup>*\<^sup>* empty_store v \<and> kv_at v (ClaimedKey demo_ticket) \<noteq> None"
proof -
  let ?P = "\<lambda>i :: int. i = 3"
  let ?kv = "\<lparr>kv_key = PendingKey demo_ticket, kv_value = marshal_ticket demo_ticket, kv_modrev = 1, kv_version = 1, kv_lease = NoLease\<rparr>"
  note a = demo_allowed
  have 1: "queue_step ?P empty_store pending_store"
    unfolding pending_store_def using a by (intro queue_step.enqueue) simp_all
  have kv: "kv_at pending_store (kv_key ?kv) = Some ?kv"
    using wf_mem_kv_at [OF wf_demo_stores(1), of ?kv] pending_kvs_demo by (auto simp: prefix_kvs_def filter_eq_Cons_iff)
  moreover have "\<not> t_NoOverlap demo_ticket" by (simp add: demo_ticket_def zero_ticket_def)
  moreover have "kv_at pending_store (ClaimedKey demo_ticket) = None"
    by (simp add: pending_store_def etcd_simps key_simps)
  ultimately have 2: "queue_step ?P pending_store (commit (claim_ops ''n1'' ?kv demo_ticket 7 0) pending_store)"
    by (intro queue_step.claim)
      (simp_all add: unmarshal_marshal_ticket demo_int64 claim_cmps_def version_at_def modrev_at_def)
  from 1 2 have "(queue_step ?P)\<^sup>*\<^sup>* empty_store (commit (claim_ops ''n1'' ?kv demo_ticket 7 0) pending_store)"
    by (meson converse_rtranclp_into_rtranclp r_into_rtranclp)
  then show ?thesis by (auto simp: pending_claim_ops key_simps)
qed

theorem claimed_stays_pending_witness:
  "\<exists>v kv. (queue_step (\<lambda>i. i = 3))\<^sup>*\<^sup>* empty_store v \<and> kv_at v (ClaimedKey demo_ticket) \<noteq> None \<and>
     kv_at v (PendingKey demo_ticket) = Some kv"
proof -
  obtain v where v: "(queue_step (\<lambda>i. i = 3))\<^sup>*\<^sup>* empty_store v" "kv_at v (ClaimedKey demo_ticket) \<noteq> None"
    using demo_claim_step by blast
  have "t_JobID demo_ticket = 3" by (simp add: demo_ticket_def)
  with claimed_stays_pending [OF wf_empty_store _ v(1), of demo_ticket] v show ?thesis by auto
qed

text \<open>C11. A dead worker's ticket is taken over, for a job whose tickets allow overlap: in every state with the
  invariant, when the lease of the claim of such a ticket runs out the claim is gone, the ticket is still
  there under its pending key, and any node with a live lease that then tries, undisturbed, to claim it
  succeeds, with the attempt count one higher and the claim attached to its own lease.  (The ticket of a job that
  forbids overlap may be gone by then: a scan can drop it while it runs.)\<close>

theorem expired_claim_reclaimed:
  assumes "queue_inv P v" "P (t_JobID t)" "kv_at v (ClaimedKey t) = Some c" "kv_lease c = l" "l \<noteq> NoLease"
  shows "\<exists>kv t'. kv_at (expire l v) (PendingKey t) = Some kv \<and> unmarshal_ticket (kv_value kv) = Some t' \<and>
    kv_at (expire l v) (ClaimedKey t) = None \<and>
    (live_lease (expire l v) l' \<longrightarrow>
      (\<exists>m' c'. claim (local_queue n l') kv t' (mem_of (expire l v) now) = (Ok True, m') \<and>
        val_at (mem_store m') (PendingKey t) = Some (marshal_ticket (bump t')) \<and>
        kv_at (mem_store m') (ClaimedKey t) = Some c' \<and> kv_value c' = Text n \<and> kv_lease c' = l'))"
proof -
  have wf: "wf_est v" and ty: "typed_pending P v" and cp: "claimed_pending P v"
    using assms(1) by (auto simp: queue_inv_def)
  obtain kv where kv: "kv_at v (PendingKey t) = Some kv"
    using cp assms(2,3) by (auto simp: claimed_pending_def)
  then obtain t' where t': "unmarshal_ticket (kv_value kv) = Some t'" "PendingKey t = PendingKey t'" "allowed P t'"
    using ty by (force simp: typed_pending_def)
  have st: "stamp t' = stamp t" using t'(2) by (simp add: PendingKey_eq)
  then have no: "\<not> t_NoOverlap t'" using t'(3) assms(2) by (simp add: allowed_def stamp_eq)
  have key: "kv_key kv = PendingKey t'" using kv_at_key [OF kv] t'(2) by simp
  have p: "kv_at (expire l v) (PendingKey t) = Some kv"
    using kv typed_pending_lease [OF ty kv] assms(5) by (simp add: kv_at_expired [OF wf])
  have c: "kv_at (expire l v) (ClaimedKey t) = None"
    using assms(3,4) by (simp add: kv_at_expired [OF wf])
  have ck: "ClaimedKey t' = ClaimedKey t" using st by (simp add: ClaimedKey_eq)
  have "claim (local_queue n l') kv t' (mem_of (expire l v) now) =
      (Ok True, (mem_of (expire l v) now)\<lparr>mem_store := commit (claim_ops n kv t' l' NoLease) (expire l v)\<rparr>)"
    if "live_lease (expire l v) l'"
  proof -
    have "list_all (eval_cmp (expire l v)) (claim_cmps kv t')"
      using c p no key ck t'(2) by (simp add: claim_cmps_def version_at_def modrev_at_def)
    moreover have "leases_ok (expire l v) (claim_ops n kv t' l' NoLease)"
      using that no by (auto simp: claim_ops_def leases_ok_def live_lease_def)
    ultimately show ?thesis using no by (simp add: claim_def mem_txn_quiet)
  qed
  moreover have "val_at (commit (claim_ops n kv t' l' NoLease) (expire l v)) (PendingKey t) = Some (marshal_ticket (bump t'))"
    by (simp add: val_at_def pending_claim_ops [OF key] t'(2))
  moreover have "\<exists>c'. kv_at (commit (claim_ops n kv t' l' NoLease) (expire l v)) (ClaimedKey t) = Some c' \<and>
      kv_value c' = Text n \<and> kv_lease c' = l'"
    by (simp add: pending_claim_ops [OF key] keys_apart flip: ck)
  ultimately show ?thesis
    using p t'(1) c by (intro exI [of _ kv] exI [of _ t']) simp
qed

text \<open>A store with two live leases, 7 of a node that holds the claim of a ticket and 8 of another node.\<close>

definition two_leases :: est where
  "two_leases = commit [OpPut (PendingKey demo_ticket) (marshal_ticket demo_ticket) NoLease,
     OpPut (ClaimedKey demo_ticket) (Text ''n1'') 7] (grant 8 empty_store)"

lemma kv_at_grant [simp]: "kv_at (grant l st) = kv_at st"
  by (auto simp: kv_at_def grant_def)

lemma two_leases_kvs:
  "kv_at two_leases k = (if k = ClaimedKey demo_ticket then Some \<lparr>kv_key = k, kv_value = Text ''n1'', kv_modrev = 1, kv_version = 1, kv_lease = 7\<rparr>
     else if k = PendingKey demo_ticket then Some \<lparr>kv_key = k, kv_value = marshal_ticket demo_ticket,
       kv_modrev = 1, kv_version = 1, kv_lease = NoLease\<rparr> else None)"
proof -
  have "es_rev (grant 8 empty_store) = 0" by (simp add: grant_def empty_store_def)
  then show ?thesis by (simp add: two_leases_def etcd_simps key_simps version_at_def)
qed

lemma two_leases_inv: "queue_inv (\<lambda>i. i = 3) two_leases"
proof -
  have "typed_pending (\<lambda>i. i = 3) empty_store" by (simp add: typed_pending_def)
  moreover have "kv_at two_leases k = (if k = PendingKey demo_ticket then Some \<lparr>kv_key = k, kv_value = marshal_ticket demo_ticket,
      kv_modrev = 1, kv_version = 1, kv_lease = NoLease\<rparr> else kv_at empty_store k)" if "HasPrefix k PendingPrefix" for k
  proof -
    have "k \<noteq> ClaimedKey demo_ticket" using that by (auto simp: ClaimedKey_def HasPrefix_iff prefix_def key_simps)
    then show ?thesis by (simp add: two_leases_kvs)
  qed
  ultimately have "typed_pending (\<lambda>i. i = 3) two_leases" using typed_pending_put [of "\<lambda>i. i = 3" empty_store demo_ticket two_leases 1 1] demo_allowed by blast
  moreover have "claimed_pending (\<lambda>i. i = 3) two_leases"
    by (auto simp: claimed_pending_def two_leases_kvs key_simps split: if_splits)
  ultimately show ?thesis by (simp add: queue_inv_def) (simp add: two_leases_def wf_commit wf_grant)
qed

lemma two_leases_live: "live_lease (expire 7 two_leases) 8"
  by (simp add: live_lease_def expire_def two_leases_def commit_leases) (simp add: grant_def)

theorem expired_claim_reclaimed_witness:
  "\<exists>kv t' m' c'. kv_at (expire 7 two_leases) (PendingKey demo_ticket) = Some kv \<and>
     claim (local_queue ''n2'' 8) kv t' (mem_of (expire 7 two_leases) 0) = (Ok True, m') \<and>
     kv_at (mem_store m') (ClaimedKey demo_ticket) = Some c' \<and> kv_value c' = Text ''n2'' \<and> kv_lease c' = 8"
proof -
  have "\<exists>c. kv_at two_leases (ClaimedKey demo_ticket) = Some c \<and> kv_lease c = 7" by (simp add: two_leases_kvs)
  moreover have "t_JobID demo_ticket = 3" by (simp add: demo_ticket_def)
  ultimately show ?thesis
    using expired_claim_reclaimed [OF two_leases_inv, of demo_ticket _ 7 8 "''n2''" 0] two_leases_live
    by (force simp: NoLease_def)
qed

subsection \<open>What a scan does to a running ticket\<close>

text \<open>What a scan without interference goes by: the store is quiet and the list is part of it.\<close>

definition scan_ok :: "unit mem \<Rightarrow> int \<Rightarrow> kv list \<Rightarrow> bool" where
  "scan_ok m l kvs \<longleftrightarrow> mem_script m = [] \<and> wf_est (mem_store m) \<and> live_lease (mem_store m) l \<and> distinct (map kv_key kvs) \<and>
     (\<forall>kv \<in> set kvs. kv_at (mem_store m) (kv_key kv) = Some kv \<and> HasPrefix (kv_key kv) PendingPrefix \<and>
       (\<forall>t. unmarshal_ticket (kv_value kv) = Some t \<longrightarrow> kv_key kv = PendingKey t))"

lemma scan_ok_skipped:
  assumes "scan_ok m l (kv # kvs)"
  shows "scan_ok (skipped n kv t m) l kvs"
proof -
  have "kv_at (mem_store (skipped n kv t m)) (kv_key x) = Some x" if "x \<in> set kvs" for x
    using that assms skipped_kv_at [of m kv "kv_key x" n t] by (auto simp: scan_ok_def image_iff)
  with assms show ?thesis by (auto simp: scan_ok_def live_lease_def)
qed

lemma scan_ok_turn:
  assumes "scan_ok m l (kv # kvs)" "\<not> claimable (mem_store m) now kv"
  obtains m' where "claimScan (local_queue n l) now (kv # kvs) m = claimScan (local_queue n l) now kvs m'" "scan_ok m' l kvs"
    "m' = m \<or> (\<exists>t. unmarshal_ticket (kv_value kv) = Some t \<and> kv_key kv = PendingKey t \<and> m' = skipped n kv t m)"
proof -
  from assms obtain m' where m': "claimScan (local_queue n l) now (kv # kvs) m = claimScan (local_queue n l) now kvs m'"
    "m' = m \<or> (\<exists>t. unmarshal_ticket (kv_value kv) = Some t \<and> m' = skipped n kv t m)"
    using claimScan_turn [of m l kv now n kvs] by (auto simp: scan_ok_def)
  moreover have "scan_ok m' l kvs" using m'(2) scan_ok_skipped [OF assms(1)] assms(1) by (auto simp: scan_ok_def)
  ultimately show thesis using that assms(1) by (auto simp: scan_ok_def)
qed

text \<open>Tickets that cannot be claimed are passed: what the rest of the scan looks at stays.\<close>

lemma claimScan_passes:
  assumes "scan_ok m l (kvs0 @ kvs)" "find (claimable (mem_store m) now) kvs0 = None"
  shows "\<exists>m'. claimScan (local_queue n l) now (kvs0 @ kvs) m = claimScan (local_queue n l) now kvs m' \<and> scan_ok m' l kvs \<and>
    (\<forall>k. HasPrefix k ClaimedPrefix \<or> HasPrefix k OverlapPrefix \<longrightarrow> kv_at (mem_store m') k = kv_at (mem_store m) k)"
  using assms
proof (induction kvs0 arbitrary: m)
  case (Cons kv kvs0)
  then have c: "\<not> claimable (mem_store m) now kv" "find (claimable (mem_store m) now) kvs0 = None" by (auto split: if_splits)
  have kv: "wf_est (mem_store m)" "HasPrefix (kv_key kv) PendingPrefix" using Cons.prems(1) by (auto simp: scan_ok_def)
  have "scan_ok m l (kv # kvs0 @ kvs)" using Cons.prems(1) by simp
  from this c(1) obtain m' where
    m': "claimScan (local_queue n l) now (kv # kvs0 @ kvs) m = claimScan (local_queue n l) now (kvs0 @ kvs) m'" "scan_ok m' l (kvs0 @ kvs)"
    and sk: "m' = m \<or> (\<exists>t. unmarshal_ticket (kv_value kv) = Some t \<and> kv_key kv = PendingKey t \<and> m' = skipped n kv t m)"
    by (rule scan_ok_turn)
  have "claimable (mem_store m') now = claimable (mem_store m) now" using sk skipped_claimable [OF kv] by auto
  from Cons.IH [OF m'(2)] this c(2) obtain m2 where m2: "claimScan (local_queue n l) now (kvs0 @ kvs) m' = claimScan (local_queue n l) now kvs m2"
    "scan_ok m2 l kvs" "\<forall>k. HasPrefix k ClaimedPrefix \<or> HasPrefix k OverlapPrefix \<longrightarrow> kv_at (mem_store m2) k = kv_at (mem_store m') k" by auto
  have "kv_at (mem_store m') k = kv_at (mem_store m) k" if "HasPrefix k ClaimedPrefix \<or> HasPrefix k OverlapPrefix" for k
  proof -
    have "k \<noteq> kv_key kv" using that kv(2) by (auto simp: HasPrefix_iff prefix_def key_simps)
    with sk skipped_kv_at [OF kv] that show ?thesis by auto
  qed
  with m'(1) m2 show ?case by (intro exI [of _ m2]) simp
qed auto

text \<open>The keys of a ticket that is not in the list are not touched.\<close>

lemma claimScan_keeps:
  assumes "scan_ok m l kvs" "PendingKey t \<notin> kv_key ` set kvs" "k = PendingKey t \<or> k = ClaimedKey t \<or> k = ResultKey (bump t)"
  shows "kv_at (mem_store (snd (claimScan (local_queue n l) now kvs m))) k = kv_at (mem_store m) k"
  using assms(1,2)
proof (induction kvs arbitrary: m)
  case (Cons kv kvs)
  have kv: "\<And>t. unmarshal_ticket (kv_value kv) = Some t \<Longrightarrow> kv_key kv = PendingKey t" using Cons.prems(1) by (simp add: scan_ok_def)
  have st: "stamp t' \<noteq> stamp t" if "kv_key kv = PendingKey t'" for t' using Cons.prems(2) that by (auto simp: PendingKey_eq)
  show ?case
  proof (cases "claimable (mem_store m) now kv")
    case True
    with claimScan_turn [of m l kv now n kvs] Cons.prems(1) obtain t' l2 where c: "unmarshal_ticket (kv_value kv) = Some t'"
      "claimScan (local_queue n l) now (kv # kvs) m = (Ok (Some (bump t')), m\<lparr>mem_store := commit (claim_ops n kv t' l l2) (mem_store m)\<rparr>)"
      by (auto simp: scan_ok_def)
    with assms(3) st [OF kv [OF c(1)]] show ?thesis
      by (auto simp: pending_claim_ops [OF kv [OF c(1)]] PendingKey_eq ClaimedKey_eq keys_apart)
  next
    case False
    with Cons.prems(1) obtain m' where m': "claimScan (local_queue n l) now (kv # kvs) m = claimScan (local_queue n l) now kvs m'" "scan_ok m' l kvs"
      "m' = m \<or> (\<exists>t. unmarshal_ticket (kv_value kv) = Some t \<and> kv_key kv = PendingKey t \<and> m' = skipped n kv t m)"
      by (rule scan_ok_turn)
    have "kv_at (mem_store m') k = kv_at (mem_store m) k"
    proof (cases "m' = m")
      case False
      then obtain t' where t': "kv_key kv = PendingKey t'" "m' = skipped n kv t' m" using m'(3) by blast
      have "PendingKey t' \<noteq> PendingKey t" "ResultKey (bump t') \<noteq> ResultKey (bump t)"
        using st [OF t'(1)] by (simp_all add: PendingKey_eq ResultKey_eq)
      with t' assms(3) show ?thesis by (auto simp: skipped_def kv_at_commit_other keys_apart)
    qed simp
    with Cons.IH [OF m'(2)] Cons.prems(2) m'(1) show ?thesis by simp
  qed
qed simp

lemma claimScan_drops:
  assumes "scan_ok m l (kv # kvs)" "unmarshal_ticket (kv_value kv) = Some t" "t_NoOverlap t" "\<not> notYet t now"
    and "kv_at (mem_store m) (ClaimedKey t) \<noteq> None" "kv_at (mem_store m) (OverlapKey (t_JobID t)) \<noteq> None"
  shows "claimScan (local_queue n l) now (kv # kvs) m = claimScan (local_queue n l) now kvs (skipped n kv t m)"
proof -
  have kv: "mem_script m = []" "wf_est (mem_store m)" "live_lease (mem_store m) l" "kv_at (mem_store m) (kv_key kv) = Some kv"
    using assms(1) by (auto simp: scan_ok_def)
  have "\<not> claimable (mem_store m) now kv" using assms(2,3,6) by (simp add: claimable_def)
  then show ?thesis
    using claim_quiet [OF kv assms(2,4), of n] skipStale_quiet [OF kv(1,4), of n l t] kv(1) assms
    by (auto simp: overlapHeld_def mem_get_quiet get_view_def)
qed

text \<open>C39. A scan drops a ticket that is running: take any ticket that forbids overlap, is due, is pending among the
  64 smallest keys and in flight (its claim and its job's lock are held), on any store with the invariant.
  If the scan of any node with a live lease reaches it (no ticket before it can be claimed) and is not disturbed, the
  claim fails because the ticket is in flight, the lock it finds is the one of that very run, and the scan
  deletes the pending ticket and publishes a \<open>skipped\<close> result for an attempt that never started, while
  the claim of the running node stays.  If the lease of that claim then runs out, neither a claim nor a
  ticket is left to take over.\<close>

theorem scan_drops_running_ticket:
  assumes "mem_script m = []" "queue_inv P (mem_store m)" "live_lease (mem_store m) l"
    and "take 64 (prefix_kvs (mem_store m) PendingPrefix) = kvs0 @ kv # kvs" "find (claimable (mem_store m) now) kvs0 = None"
    and "unmarshal_ticket (kv_value kv) = Some t" "t_NoOverlap t" "\<not> notYet t now"
    and "kv_at (mem_store m) (ClaimedKey t) = Some c" "kv_at (mem_store m) (OverlapKey (t_JobID t)) \<noteq> None"
  shows "\<exists>m' r. snd (ClaimNext (local_queue n l) now m) = m' \<and>
    kv_at (mem_store m') (PendingKey t) = None \<and> kv_at (mem_store m') (ClaimedKey t) = Some c \<and>
    val_at (mem_store m') (ResultKey (bump t)) = Some (marshal_result r) \<and> r_Status r = StatusSkipped \<and>
    kv_at (expire (kv_lease c) (mem_store m')) (PendingKey t) = None \<and>
    kv_at (expire (kv_lease c) (mem_store m')) (ClaimedKey t) = None"
proof -
  let ?kvs = "take 64 (prefix_kvs (mem_store m) PendingPrefix)"
  have wf: "wf_est (mem_store m)" and ty: "typed_pending P (mem_store m)" using assms(2) by (auto simp: queue_inv_def)
  have "distinct (map kv_key (es_kvs (mem_store m)))" using wf by (auto simp: wf_est_def strict_sorted_iff)
  then have "distinct (map kv_key ?kvs)" by (simp add: prefix_kvs_def distinct_map_filter flip: take_map)
  moreover have "kv_at (mem_store m) (kv_key x) = Some x \<and> HasPrefix (kv_key x) PendingPrefix \<and>
      (\<forall>t. unmarshal_ticket (kv_value x) = Some t \<longrightarrow> kv_key x = PendingKey t)" if "x \<in> set ?kvs" for x
  proof -
    have x: "kv_at (mem_store m) (kv_key x) = Some x" "HasPrefix (kv_key x) PendingPrefix"
      using that wf_mem_kv_at [OF wf] by (auto simp: prefix_kvs_def dest: in_set_takeD)
    with typed_pendingD [OF ty x] show ?thesis by blast
  qed
  ultimately have "scan_ok m l ?kvs" using assms(1,3) wf by (simp add: scan_ok_def)
  then have ok: "scan_ok m l (kvs0 @ kv # kvs)" by (simp only: assms(4))
  obtain m1 where m1: "claimScan (local_queue n l) now (kvs0 @ kv # kvs) m = claimScan (local_queue n l) now (kv # kvs) m1" "scan_ok m1 l (kv # kvs)"
    "\<forall>k. HasPrefix k ClaimedPrefix \<or> HasPrefix k OverlapPrefix \<longrightarrow> kv_at (mem_store m1) k = kv_at (mem_store m) k"
    using claimScan_passes [OF ok assms(5)] by blast
  have prefixes: "HasPrefix (ClaimedKey t) ClaimedPrefix" "HasPrefix (OverlapKey (t_JobID t)) OverlapPrefix"
    by (simp_all add: ClaimedKey_def OverlapKey_def)
  have held: "kv_at (mem_store m1) (ClaimedKey t) = Some c" "kv_at (mem_store m1) (OverlapKey (t_JobID t)) \<noteq> None"
    using m1(3) [rule_format, of "ClaimedKey t"] m1(3) [rule_format, of "OverlapKey (t_JobID t)"] assms(9,10) prefixes by simp_all
  have key: "kv_key kv = PendingKey t" using m1(2) assms(6) by (simp add: scan_ok_def)
  then have fresh: "PendingKey t \<notin> kv_key ` set kvs" using m1(2) by (auto simp: scan_ok_def)
  let ?m2 = "skipped n kv t m1" and ?r = "closing_result n (bump t) StatusSkipped (mem_clock m1)"
  let ?m3 = "snd (claimScan (local_queue n l) now kvs ?m2)"
  have "snd (ClaimNext (local_queue n l) now m) = ?m3"
    using assms(1,4) m1(1) claimScan_drops [OF m1(2) assms(6-8) _ held(2)] held(1)
    by (simp add: ClaimNext_def mem_get_quiet get_view_def claimScanLimit_def)
  moreover have m3: "kv_at (mem_store ?m3) k = kv_at (mem_store ?m2) k" if "k = PendingKey t \<or> k = ClaimedKey t \<or> k = ResultKey (bump t)" for k
    using claimScan_keeps [OF scan_ok_skipped [OF m1(2)] fresh that] .
  have "kv_at (mem_store ?m2) (PendingKey t) = None" "kv_at (mem_store ?m2) (ClaimedKey t) = Some c"
      "val_at (mem_store ?m2) (ResultKey (bump t)) = Some (marshal_result ?r)"
    using held(1) key by (simp_all add: skipped_def etcd_simps key_simps)
  then have after: "kv_at (mem_store ?m3) (PendingKey t) = None" "kv_at (mem_store ?m3) (ClaimedKey t) = Some c"
      "val_at (mem_store ?m3) (ResultKey (bump t)) = Some (marshal_result ?r)"
    using m3 by (simp_all add: val_at_def)
  moreover have "queue_inv P (mem_store (snd (ClaimNext (local_queue n l) now m)))"
    using queue_inv_steps [OF lqp.ClaimNext_steps [OF wf] assms(2)] by simp
  ultimately show ?thesis by (intro exI [of _ ?m3] exI [of _ ?r]) (simp add: queue_inv_def kv_at_expired closing_result_def)
qed

text \<open>The store while a run of a ticket that forbids overlap is in flight on node \<open>n1\<close>.\<close>

definition lonely_ticket :: ticket where
  "lonely_ticket = demo_ticket\<lparr>t_NoOverlap := True, t_Attempt := 1\<rparr>"

definition running_store :: est where
  "running_store = commit [OpPut (ClaimedKey lonely_ticket) (Text ''n1'') 7,
     OpPut (PendingKey lonely_ticket) (marshal_ticket lonely_ticket) NoLease,
     OpPut (OverlapKey (t_JobID lonely_ticket)) (Text ''n1'') 7] (grant 8 empty_store)"

lemma lonely_simps:
  "ticket_int64 lonely_ticket" "t_NoOverlap lonely_ticket" "\<not> notYet lonely_ticket now" "allowed (\<lambda>_. False) lonely_ticket"
  by (simp_all add: allowed_def lonely_ticket_def demo_ticket_def zero_ticket_def ticket_int64_def notYet_def int64_defs)

lemma wf_running [simp]: "wf_est running_store"
  by (simp add: running_store_def wf_commit wf_grant)

lemma running_kv_at:
  "kv_at running_store k = (if k = OverlapKey (t_JobID lonely_ticket) then Some \<lparr>kv_key = k, kv_value = Text ''n1'', kv_modrev = 1, kv_version = 1, kv_lease = 7\<rparr>
     else if k = PendingKey lonely_ticket then Some \<lparr>kv_key = k, kv_value = marshal_ticket lonely_ticket, kv_modrev = 1, kv_version = 1, kv_lease = NoLease\<rparr>
     else if k = ClaimedKey lonely_ticket then Some \<lparr>kv_key = k, kv_value = Text ''n1'', kv_modrev = 1, kv_version = 1, kv_lease = 7\<rparr> else None)"
proof -
  have "es_rev (grant 8 empty_store) = 0" by (simp add: grant_def empty_store_def)
  then show ?thesis by (simp add: running_store_def etcd_simps key_simps version_at_def)
qed

lemma running_pending: "HasPrefix k PendingPrefix \<Longrightarrow> kv_at running_store k = (if k = PendingKey lonely_ticket then
    Some \<lparr>kv_key = k, kv_value = marshal_ticket lonely_ticket, kv_modrev = 1, kv_version = 1, kv_lease = NoLease\<rparr> else kv_at empty_store k)"
  by (auto simp: running_kv_at ClaimedKey_def OverlapKey_def HasPrefix_iff prefix_def key_simps)

lemma running_inv: "queue_inv (\<lambda>_. False) running_store"
proof -
  have "typed_pending (\<lambda>_. False) empty_store" by (simp add: typed_pending_def)
  then have "typed_pending (\<lambda>_. False) running_store" using lonely_simps(4) running_pending by (rule typed_pending_put)
  then show ?thesis by (simp add: queue_inv_def claimed_pending_def)
qed

lemma distinct_singleton: "distinct xs \<Longrightarrow> set xs = {x} \<Longrightarrow> xs = [x]"
  by (cases xs; cases "tl xs") auto

lemma running_kvs:
  "prefix_kvs running_store PendingPrefix = [\<lparr>kv_key = PendingKey lonely_ticket,
     kv_value = marshal_ticket lonely_ticket, kv_modrev = 1, kv_version = 1, kv_lease = NoLease\<rparr>]"
proof -
  let ?kv = "\<lparr>kv_key = PendingKey lonely_ticket, kv_value = marshal_ticket lonely_ticket, kv_modrev = 1,
    kv_version = 1, kv_lease = NoLease\<rparr>"
  have "kv_at running_store (PendingKey lonely_ticket) = Some ?kv" by (simp add: running_pending)
  then have mem: "?kv \<in> set (prefix_kvs running_store PendingPrefix)"
    using kv_at_set by (force simp: prefix_kvs_def)
  have all: "set (prefix_kvs running_store PendingPrefix) \<subseteq> {?kv}"
    using running_pending wf_mem_kv_at [OF wf_running] by (fastforce simp: prefix_kvs_def split: if_splits)
  have "distinct (prefix_kvs running_store PendingPrefix)"
    using wf_running by (auto simp: wf_est_def strict_sorted_iff prefix_kvs_def distinct_map)
  with mem all show ?thesis by (intro distinct_singleton) auto
qed

theorem scan_drops_running_ticket_witness:
  "\<exists>m'. snd (ClaimNext (local_queue ''n2'' 8) 0 (mem_of running_store 0)) = m' \<and>
     kv_at (expire 7 (mem_store m')) (PendingKey lonely_ticket) = None \<and> kv_at (expire 7 (mem_store m')) (ClaimedKey lonely_ticket) = None"
proof -
  let ?kv = "\<lparr>kv_key = PendingKey lonely_ticket, kv_value = marshal_ticket lonely_ticket, kv_modrev = 1, kv_version = 1, kv_lease = NoLease\<rparr>"
  let ?c = "\<lparr>kv_key = ClaimedKey lonely_ticket, kv_value = Text ''n1'', kv_modrev = 1, kv_version = 1, kv_lease = 7\<rparr>"
  have l: "live_lease running_store 8" by (simp add: live_lease_def running_store_def commit_leases) (simp add: grant_def)
  have c: "kv_at running_store (ClaimedKey lonely_ticket) = Some ?c" "kv_at running_store (OverlapKey (t_JobID lonely_ticket)) \<noteq> None"
    by (simp_all add: running_kv_at key_simps)
  from scan_drops_running_ticket [of "mem_of running_store 0" "\<lambda>_. False" 8 "[]" ?kv "[]" 0 lonely_ticket ?c "''n2''"]
  show ?thesis using running_inv l running_kvs c lonely_simps unmarshal_marshal_ticket [OF lonely_simps(1)] by auto
qed


text \<open>C40. Ownership is checked by node, not by attempt: when a node has lost its claim and claimed the same
  ticket again, the failure report of the first run passes the check, deletes the claim of the second run
  and puts the ticket back with the attempt count of the first.\<close>

theorem stale_finish_same_node:
  assumes "mem_script m = []" "val_at (mem_store m) (ClaimedKey t) = Some (Text n)"
    and "val_at (mem_store m) (PendingKey t) = Some (marshal_ticket (bump t))" "t_Attempt t \<le> t_MaxRetries t"
  shows "\<exists>m'. FinishFailure (local_queue n l) t res now m = (Inr (), m') \<and>
    kv_at (mem_store m') (ClaimedKey t) = None \<and>
    val_at (mem_store m') (PendingKey t) = Some (marshal_ticket (retry_ticket t now)) \<and>
    t_Attempt (retry_ticket t now) = t_Attempt t"
proof -
  have "leases_ok (mem_store m) (failure_ops t res now)"
    by (simp add: failure_ops_def overlapRelease_def Let_def)
  then have "\<exists>m'. FinishFailure (local_queue n l) t res now m = (Inr (), m') \<and>
      mem_store m' = commit (failure_ops t res now) (mem_store m)"
    using assms(1,2) by (simp add: FinishFailure_def mem_txn_quiet)
  moreover have "kv_at (commit (failure_ops t res now) (mem_store m)) (ClaimedKey t) = None"
    "val_at (commit (failure_ops t res now) (mem_store m)) (PendingKey t) = Some (marshal_ticket (retry_ticket t now))"
    using assms(4) by (simp_all add: etcd_simps key_simps failure_ops_def overlapRelease_def giveUp_def Let_def)
  ultimately show ?thesis by auto
qed

theorem stale_finish_same_node_witness:
  "\<exists>m'. FinishFailure (local_queue ''n1'' 7) demo_ticket zero_result 0 (mem_of claimed_store 0) = (Inr (), m') \<and>
     kv_at (mem_store m') (ClaimedKey demo_ticket) = None"
proof -
  have "val_at claimed_store (ClaimedKey demo_ticket) = Some (Text ''n1'')"
    "val_at claimed_store (PendingKey demo_ticket) = Some (marshal_ticket (bump demo_ticket))"
    by (simp_all add: claimed_store_def etcd_simps key_simps)
  moreover have "t_Attempt demo_ticket \<le> t_MaxRetries demo_ticket" by code_simp
  ultimately show ?thesis
    using stale_finish_same_node [of "mem_of claimed_store 0" demo_ticket "''n1''" 7 zero_result 0] by auto
qed

text \<open>A commit whose reply is lost brings the node down: \<open>claim\<close> reads the response of the failed call
  and panics, although the claim has been written and will hold the ticket until its lease runs out.\<close>

theorem claim_panics_on_lost_reply:
  assumes "mem_script m = [(LostReply, [])]" "wf_est (mem_store m)" "live_lease (mem_store m) l"
    and "kv_at (mem_store m) (PendingKey t) = Some kv" "unmarshal_ticket (kv_value kv) = Some t"
    and "kv_at (mem_store m) (ClaimedKey t) = None" "\<not> t_NoOverlap t"
  shows "\<exists>m'. claim (local_queue n l) kv t m = (Panic, m') \<and> val_at (mem_store m') (ClaimedKey t) = Some (Text n)"
proof -
  have key: "kv_key kv = PendingKey t" using kv_at_key [OF assms(4)] .
  have "list_all (eval_cmp (mem_store m)) (claim_cmps kv t)"
    using assms(4,6,7) key by (simp add: claim_cmps_def version_at_def modrev_at_def)
  moreover have "leases_ok (mem_store m) (claim_ops n kv t l NoLease)"
    using assms(3,7) by (auto simp: claim_ops_def leases_ok_def live_lease_def)
  ultimately have "\<exists>m'. claim (local_queue n l) kv t m = (Panic, m') \<and>
      mem_store m' = commit (claim_ops n kv t l NoLease) (mem_store m)"
    using assms(1,7) txn_step_commit [of "claim_cmps kv t" "claim_ops n kv t l NoLease" "[]" "mem_store m"]
      txn_step_fst [of "claim_cmps kv t" "claim_ops n kv t l NoLease" "[]" "mem_store m"]
    by (auto simp: claim_def mem_txn_def next_entry_def Let_def split: prod.splits)
  then show ?thesis by (auto simp: val_at_def pending_claim_ops [OF key] keys_apart)
qed

theorem claim_panics_on_lost_reply_witness:
  "\<exists>kv m'. claim (local_queue ''n1'' 7) kv demo_ticket ((mem_of pending_store 0)\<lparr>mem_script := [(LostReply, [])]\<rparr>) = (Panic, m') \<and>
     val_at (mem_store m') (ClaimedKey demo_ticket) = Some (Text ''n1'')"
proof -
  let ?m = "(mem_of pending_store 0)\<lparr>mem_script := [(LostReply, [])]\<rparr>"
  obtain kv where kv: "kv_at pending_store (PendingKey demo_ticket) = Some kv" "kv_value kv = marshal_ticket demo_ticket"
    by (auto simp: pending_store_def etcd_simps)
  have "live_lease pending_store 7"
    by (simp add: live_lease_def pending_store_def commit_leases) (simp add: empty_store_def)
  moreover have "kv_at pending_store (ClaimedKey demo_ticket) = None"
    by (simp add: pending_store_def etcd_simps key_simps)
  moreover have "\<not> t_NoOverlap demo_ticket" by (simp add: demo_ticket_def zero_ticket_def)
  ultimately show ?thesis
    using claim_panics_on_lost_reply [of ?m 7 demo_ticket kv "''n1''"] kv
    by (auto simp: unmarshal_marshal_ticket demo_int64)
qed

end
