(* ===== verification/Jobs.thy ===== *)
theory Jobs
  imports Queue Cron_Schedule
begin

section \<open>The job repository: internal/jobs/jobs.go\<close>

text \<open>
  Jobs are stored one per key; a counter key allocates their ids.  \<open>Create\<close> reads the counter and
  commits the next id together with the job if the counter's revision has not moved, up to eight
  times.  \<open>Update\<close> and \<open>SetEnabled\<close> read a job and put it back; \<open>Delete\<close> removes the job and its
  watermark.  The time zone database is the parameter \<open>tz\<close>.  The step relation \<open>jobs_step\<close> and its
  invariant show that ids are never reused; the locale \<open>jobs_env\<close> is the environment in which the
  other clients follow it.
\<close>

definition JobsPrefix :: string where "JobsPrefix = ''/cron/jobs/''"
definition idCounterKey :: string where "idCounterKey = ''/cron/jobs/_counter''"

record 'w Repo =
  rp_cli :: "'w world"

definition New_repo :: "'w world \<Rightarrow> 'w Repo" where
  "New_repo cli = \<lparr>rp_cli = cli\<rparr>"

definition job_key :: "int \<Rightarrow> string" where
  "job_key jid = JobsPrefix @ FormatInt jid"

definition validate :: "tzdb \<Rightarrow> job \<Rightarrow> gerr option" where
  "validate tz j =
     (if TrimSpace (j_Name j) = [] then Some (Errorf ''name is required'')
      else if TrimSpace (j_Command j) = [] then Some (Errorf ''command is required'')
      else case Validate (j_Cron j) of
        Some err \<Rightarrow> Some (CronErr err)
      | None \<Rightarrow>
          if j_Timezone j \<noteq> [] \<and> tz (j_Timezone j) = None
            then Some (ErrorQ ''unknown timezone '' (j_Timezone j))
          else if j_CatchUp j \<notin> {[], CatchUpRunLatest, CatchUpRunAll, CatchUpSkip}
            then Some (Errorf ''catch_up must be run_latest|run_all|skip'')
          else if j_TimeoutSec j < 0 \<or> j_TimeoutSec j > 86400
            then Some (Errorf ''timeout_s must be between 0 and 86400'')
          else if j_MaxRetries j < 0 \<or> j_MaxRetries j > 10
            then Some (Errorf ''max_retries must be between 0 and 10'')
          else None)"

text \<open>What one turn of the allocation loop reads: the counter, zero when it is absent or does not parse,
  and the revision to compare.\<close>

definition read_counter :: "kv list \<Rightarrow> int \<times> int" where
  "read_counter kvs = (case kvs of
     [] \<Rightarrow> (0, 0)
   | kv # _ \<Rightarrow> (case ParseInt (text_of (kv_value kv)) of Some v \<Rightarrow> v | None \<Rightarrow> 0, kv_modrev kv))"

definition create_ops :: "job \<Rightarrow> op list" where
  "create_ops j = [OpPut idCounterKey (Text (FormatInt (j_ID j))) NoLease,
     OpPut (job_key (j_ID j)) (marshal_job j) NoLease]"

fun createLoop :: "'w Repo \<Rightarrow> nat \<Rightarrow> job \<Rightarrow> 'w \<Rightarrow> (gerr + job) \<times> 'w" where
  "createLoop r 0 j w = (Inl (Errorf ''jobs: id allocation contention, retry''), w)"
| "createLoop r (Suc n) j w =
     (case w_get (rp_cli r) idCounterKey Single w of
        (Inl err, w1) \<Rightarrow> (Inl (Wrap ''jobs: read counter: '' err), w1)
      | (Inr resp, w1) \<Rightarrow>
          let (cur, modrev) = read_counter (gr_kvs resp);
              j = j\<lparr>j_ID := wrap64 (cur + 1)\<rparr>
          in (case w_txn (rp_cli r) [CmpModRevision idCounterKey modrev] (create_ops j) [] w1 of
                (Inl err, w2) \<Rightarrow> (Inl (Wrap ''jobs: create txn: '' err), w2)
              | (Inr succeeded, w2) \<Rightarrow> if succeeded then (Inr j, w2) else createLoop r n j w2))"

definition Create :: "'w Repo \<Rightarrow> tzdb \<Rightarrow> job \<Rightarrow> 'w \<Rightarrow> (gerr + job) \<times> 'w" where
  "Create r tz j w =
     (case validate tz j of
        Some err \<Rightarrow> (Inl err, w)
      | None \<Rightarrow>
          let (t, w1) = w_now (rp_cli r) w;
              now = Format_RFC3339 t
          in createLoop r 8 (j\<lparr>j_CreatedAt := now, j_UpdatedAt := now, j_Enabled := True\<rparr>) w1)"

text \<open>The error of \<open>json.Unmarshal\<close>, whose text depends on the input.\<close>

definition decode_error :: gerr where
  "decode_error = Errorf ''json: cannot unmarshal''"

definition Get :: "'w Repo \<Rightarrow> int \<Rightarrow> 'w \<Rightarrow> (gerr + job) \<times> 'w" where
  "Get r jid w =
     (case w_get (rp_cli r) (job_key jid) Single w of
        (Inl err, w') \<Rightarrow> (Inl (Wrap ''jobs: get: '' err), w')
      | (Inr resp, w') \<Rightarrow> (case gr_kvs resp of
            [] \<Rightarrow> (Inl (Errorf (''job '' @ FormatInt jid @ '' not found'')), w')
          | kv # _ \<Rightarrow> (case unmarshal_job (kv_value kv) of
                None \<Rightarrow> (Inl (Wrap ''jobs: decode: '' decode_error), w')
              | Some j \<Rightarrow> (Inr j, w'))))"

definition List_jobs :: "'w Repo \<Rightarrow> 'w \<Rightarrow> (gerr + job list) \<times> 'w" where
  "List_jobs r w =
     (case w_get (rp_cli r) JobsPrefix (Prefix 0) w of
        (Inl err, w') \<Rightarrow> (Inl (Wrap ''jobs: list: '' err), w')
      | (Inr resp, w') \<Rightarrow> (Inr (List.map_filter (\<lambda>kv. unmarshal_job (kv_value kv)) (gr_kvs resp)), w'))"

definition Update :: "'w Repo \<Rightarrow> tzdb \<Rightarrow> int \<Rightarrow> job \<Rightarrow> 'w \<Rightarrow> (gerr + job) \<times> 'w" where
  "Update r tz jid j w =
     (let j = j\<lparr>j_ID := jid\<rparr>
      in case validate tz j of
           Some err \<Rightarrow> (Inl err, w)
         | None \<Rightarrow> (case Get r jid w of
               (Inl err, w1) \<Rightarrow> (Inl err, w1)
             | (Inr cur, w1) \<Rightarrow>
                 let (t, w2) = w_now (rp_cli r) w1;
                     j = j\<lparr>j_CreatedAt := j_CreatedAt cur, j_UpdatedAt := Format_RFC3339 t\<rparr>
                 in (case w_put (rp_cli r) (job_key jid) (marshal_job j) NoLease w2 of
                       (Inl err, w3) \<Rightarrow> (Inl (Wrap ''jobs: update: '' err), w3)
                     | (Inr _, w3) \<Rightarrow> (Inr j, w3))))"

definition SetEnabled :: "'w Repo \<Rightarrow> int \<Rightarrow> bool \<Rightarrow> 'w \<Rightarrow> (gerr + job) \<times> 'w" where
  "SetEnabled r jid enabled w =
     (case Get r jid w of
        (Inl err, w1) \<Rightarrow> (Inl err, w1)
      | (Inr j, w1) \<Rightarrow>
          let (t, w2) = w_now (rp_cli r) w1;
              j = j\<lparr>j_Enabled := enabled, j_UpdatedAt := Format_RFC3339 t\<rparr>
          in (case w_put (rp_cli r) (job_key jid) (marshal_job j) NoLease w2 of
                (Inl err, w3) \<Rightarrow> (Inl (Wrap ''jobs: toggle: '' err), w3)
              | (Inr _, w3) \<Rightarrow> (Inr j, w3)))"

definition delete_ops :: "int \<Rightarrow> op list" where
  "delete_ops jid = [OpDelete (job_key jid), OpDelete (WatermarkKey jid)]"

definition Delete :: "'w Repo \<Rightarrow> int \<Rightarrow> 'w \<Rightarrow> (gerr + unit) \<times> 'w" where
  "Delete r jid w =
     (case w_txn (rp_cli r) [] (delete_ops jid) [] w of
        (Inl err, w') \<Rightarrow> (Inl (Wrap ''jobs: delete: '' err), w')
      | (Inr _, w') \<Rightarrow> (Inr (), w'))"

subsection \<open>Keys and the counter\<close>

lemma job_key_eq [key_simps]: "job_key i = job_key j \<longleftrightarrow> i = j"
  by (simp add: job_key_def)

lemma FormatInt_hd_not: "FormatInt i \<noteq> CHR ''_'' # s"
proof
  assume "FormatInt i = CHR ''_'' # s"
  then have "CHR ''_'' \<in> set (FormatInt i)" by simp
  moreover have "CHR ''_'' \<notin> set (FormatInt i)" by (rule FormatInt_no) (simp_all add: is_digit_def)
  ultimately show False by blast
qed

lemma job_key_counter [key_simps]: "job_key i \<noteq> idCounterKey" "idCounterKey \<noteq> job_key i"
  using FormatInt_hd_not [of i "''counter''"] by (auto simp: job_key_def JobsPrefix_def idCounterKey_def)

lemma job_key_watermark [key_simps]: "job_key i \<noteq> WatermarkKey j" "WatermarkKey j \<noteq> job_key i" "idCounterKey \<noteq> WatermarkKey j"
  by (simp_all add: job_key_def JobsPrefix_def WatermarkKey_def WatermarkPrefix_def idCounterKey_def)

lemma job_key_prefix [simp]: "HasPrefix (job_key i) JobsPrefix" "HasPrefix idCounterKey JobsPrefix"
  by (simp_all add: job_key_def HasPrefix_def JobsPrefix_def idCounterKey_def)

definition counter :: "est \<Rightarrow> int" where
  "counter v = (case val_at v idCounterKey of
     None \<Rightarrow> 0
   | Some d \<Rightarrow> (case ParseInt (text_of d) of Some c \<Rightarrow> c | None \<Rightarrow> 0))"

lemma read_counter_view: "read_counter (gr_kvs (get_view v idCounterKey Single)) = (counter v, modrev_at v idCounterKey)"
  by (auto simp: read_counter_def get_view_def counter_def val_at_def modrev_at_def split: option.splits)

text \<open>As in the queue's protocol, \<open>P\<close> is a set of job ids whose jobs all allow overlap.\<close>

definition job_ok :: "(int \<Rightarrow> bool) \<Rightarrow> job \<Rightarrow> bool" where
  "job_ok P j \<longleftrightarrow> (P (j_ID j) \<longrightarrow> \<not> j_NoOverlap j)"

definition job_doc :: "(int \<Rightarrow> bool) \<Rightarrow> data \<Rightarrow> bool" where
  "job_doc P d \<longleftrightarrow> (\<forall>j. unmarshal_job d = Some j \<longrightarrow> job_ok P j)"

lemma job_doc_marshal: "job_int64 j \<Longrightarrow> job_doc P (marshal_job j) \<longleftrightarrow> job_ok P j"
  by (simp add: job_doc_def unmarshal_marshal_job)

lemma job_doc_Text [simp]: "job_doc P (Text s)"
  by (simp add: job_doc_def unmarshal_job_def decode_def)

text \<open>The invariant: no job has an id beyond the counter, the counter's key has no lease, the counter has
  moved at most once per revision, and the stored jobs respect \<open>P\<close>.\<close>

definition jobs_inv :: "(int \<Rightarrow> bool) \<Rightarrow> est \<Rightarrow> bool" where
  "jobs_inv P v \<longleftrightarrow> wf_est v \<and> 0 \<le> counter v \<and> counter v \<le> es_rev v \<and>
     (\<forall>i. kv_at v (job_key i) \<noteq> None \<longrightarrow> 1 \<le> i \<and> i \<le> counter v) \<and>
     (\<forall>kv. kv_at v idCounterKey = Some kv \<longrightarrow> kv_lease kv = NoLease) \<and>
     (\<forall>k kv. HasPrefix k JobsPrefix \<longrightarrow> kv_at v k = Some kv \<longrightarrow> job_doc P (kv_value kv))"

text \<open>The steps of the repository's keys: a creation takes the id after the counter, which must not be
  the largest 64-bit integer.\<close>

inductive jobs_step :: "(int \<Rightarrow> bool) \<Rightarrow> est \<Rightarrow> est \<Rightarrow> bool" for P where
  create: "j_ID j = counter v + 1 \<Longrightarrow> counter v < max_int64 \<Longrightarrow> job_doc P (marshal_job j) \<Longrightarrow>
    jobs_step P v (commit (create_ops j) v)"
| overwrite: "1 \<le> i \<Longrightarrow> i \<le> counter v \<Longrightarrow> job_doc P d \<Longrightarrow> jobs_step P v (commit [OpPut (job_key i) d NoLease] v)"
| remove: "idCounterKey \<notin> set ks \<Longrightarrow> jobs_step P v (commit (map OpDelete ks) v)"
| elsewhere: "list_all (\<lambda>op. \<not> HasPrefix (op_key op) JobsPrefix) ops \<Longrightarrow> jobs_step P v (commit ops v)"
| lapse: "l \<noteq> NoLease \<Longrightarrow> jobs_step P v (expire l v)"
| granted: "jobs_step P v (grant l v)"

inductive_cases jobs_stepE: "jobs_step P v v'"

lemma jobs_step_later: "jobs_step P v v' \<Longrightarrow> wf_est v \<Longrightarrow> wf_est v' \<and> mvcc_le v v'"
  by (erule jobs_step.cases) (auto simp: wf_commit wf_expire wf_grant mvcc_commit mvcc_expire mvcc_grant)

lemma env_ok_jobs: "env_ok (jobs_step P)\<^sup>*\<^sup>*"
  by (rule env_ok_steps) (rule jobs_step_later)

lemma counter_create:
  "is_int64 (j_ID j) \<Longrightarrow> counter (commit (create_ops j) v) = j_ID j"
  by (simp add: counter_def create_ops_def etcd_simps key_simps ParseInt_FormatInt)

lemma counter_other:
  "idCounterKey \<notin> set (map op_key ops) \<Longrightarrow> counter (commit ops v) = counter v"
  by (simp add: counter_def val_at_commit_other)

lemma ParseInt_bound: "ParseInt s = Some c \<Longrightarrow> c \<le> max_int64"
  using ParseInt_int64 [of s c] by (simp add: is_int64_def)

lemma counter_bound: "counter v \<le> max_int64"
  by (auto simp: counter_def ParseInt_bound max_int64_def split: option.splits dest: ParseInt_bound [unfolded max_int64_def])

text \<open>A job that may be stored under any id, and creating one: the counter moves to an id that no job has.\<close>

definition new_ok :: "(int \<Rightarrow> bool) \<Rightarrow> job \<Rightarrow> bool" where
  "new_ok P j \<longleftrightarrow> job_int64 j \<and> (j_NoOverlap j \<longrightarrow> (\<forall>i. \<not> P i))"

lemma new_ok_doc: "new_ok P j \<Longrightarrow> is_int64 i \<Longrightarrow> job_doc P (marshal_job (j\<lparr>j_ID := i\<rparr>))"
  by (subst job_doc_marshal) (auto simp: new_ok_def job_int64_def job_ok_def)

lemma rev_create: "es_rev (commit (create_ops j) v) = es_rev v + 1"
  by (simp add: commit_def txn_step_def create_ops_def Let_def)

lemma jobs_inv_create:
  assumes "jobs_inv P v" "j_ID j = counter v + 1" "counter v < max_int64"
  shows "job_doc P (marshal_job j) \<Longrightarrow> jobs_inv P (commit (create_ops j) v)" and "kv_at v (job_key (j_ID j)) = None"
proof -
  have "is_int64 (j_ID j)" using assms by (simp add: jobs_inv_def int64_defs)
  note c = counter_create [OF this, of v]
  show none: "kv_at v (job_key (j_ID j)) = None"
    using assms by (auto simp: jobs_inv_def)
  have "kv_at (commit (create_ops j) v) (job_key i) \<noteq> None \<Longrightarrow> 1 \<le> i \<and> i \<le> j_ID j" for i
    using assms(1,2) by (fastforce simp: create_ops_def etcd_simps key_simps jobs_inv_def split: if_splits)
  moreover have "job_doc P (kv_value kv)"
    if "HasPrefix k JobsPrefix" "kv_at (commit (create_ops j) v) k = Some kv" "job_doc P (marshal_job j)" for k kv
    using that assms(1) by (auto simp: create_ops_def etcd_simps key_simps jobs_inv_def split: if_splits)
  ultimately show "jobs_inv P (commit (create_ops j) v)" if "job_doc P (marshal_job j)"
    using that assms(1,2) c rev_create [of j v] by (auto simp: jobs_inv_def wf_commit) (auto simp: create_ops_def etcd_simps key_simps)
qed

lemma commit_rev: "es_rev v \<le> es_rev (commit ops v)"
  using mvcc_commit [of v ops] by (simp add: mvcc_le_def)

lemma jobs_invI:
  assumes "wf_est v" "0 \<le> counter v" "counter v \<le> es_rev v"
    and "\<And>i kv. kv_at v (job_key i) = Some kv \<Longrightarrow> 1 \<le> i \<and> i \<le> counter v"
    and "\<And>kv. kv_at v idCounterKey = Some kv \<Longrightarrow> kv_lease kv = NoLease"
    and "\<And>k kv. HasPrefix k JobsPrefix \<Longrightarrow> kv_at v k = Some kv \<Longrightarrow> job_doc P (kv_value kv)"
  shows "jobs_inv P v"
  using assms unfolding jobs_inv_def by blast

lemma jobs_inv_less:
  assumes "jobs_inv P v" "wf_est v'" "counter v' = counter v" "es_rev v \<le> es_rev v'"
    and "\<And>k kv. HasPrefix k JobsPrefix \<Longrightarrow> kv_at v' k = Some kv \<Longrightarrow> kv_at v k = Some kv"
  shows "jobs_inv P v' \<and> counter v \<le> counter v'"
proof -
  have "jobs_inv P v'"
  proof (rule jobs_invI)
    show "1 \<le> i \<and> i \<le> counter v'" if "kv_at v' (job_key i) = Some kv" for i kv
      using assms(1,3) assms(5) [OF job_key_prefix(1) that] by (auto simp: jobs_inv_def)
    show "kv_lease kv = NoLease" if "kv_at v' idCounterKey = Some kv" for kv
      using assms(1) assms(5) [OF job_key_prefix(2) that] by (auto simp: jobs_inv_def)
    show "job_doc P (kv_value kv)" if "HasPrefix k JobsPrefix" "kv_at v' k = Some kv" for k kv
      using assms(1) assms(5) [OF that] that(1) unfolding jobs_inv_def by blast
  qed (use assms(1-4) in \<open>simp_all add: jobs_inv_def\<close>)
  then show ?thesis using assms(3) by simp
qed

lemma jobs_inv_step:
  assumes "jobs_step P v v'" "jobs_inv P v"
  shows "jobs_inv P v' \<and> counter v \<le> counter v'"
  using assms(1)
proof (cases rule: jobs_step.cases)
  case (create j)
  then have "is_int64 (j_ID j)" using assms(2) by (simp add: jobs_inv_def int64_defs)
  with create jobs_inv_create [OF assms(2)] counter_create show ?thesis by simp
next
  case (overwrite i d)
  have c: "counter v' = counter v" using overwrite by (simp add: counter_other key_simps)
  have at: "kv_at v' k = (if k = job_key i then Some \<lparr>kv_key = k, kv_value = d, kv_modrev = es_rev v + 1,
      kv_version = version_at v k + 1, kv_lease = NoLease\<rparr> else kv_at v k)" for k
    using overwrite by (simp add: etcd_simps version_at_def)
  with c overwrite assms(2) commit_rev [of v "[OpPut (job_key i) d NoLease]"] show ?thesis
    by (auto simp: jobs_inv_def wf_commit key_simps split: if_splits)
next
  case (remove ks)
  then have "counter v' = counter v" "\<And>k. kv_at v' k = (if k \<in> set ks then None else kv_at v k)"
    by (simp_all add: counter_other comp_def kv_at_deletes)
  with remove assms(2) commit_rev show ?thesis
    by (intro jobs_inv_less) (auto simp: jobs_inv_def wf_commit split: if_splits)
next
  case (elsewhere ops)
  have same: "HasPrefix k JobsPrefix \<Longrightarrow> kv_at v' k = kv_at v k" for k
    using elsewhere by (auto simp: list_all_iff intro!: kv_at_commit_other)
  then have "counter v' = counter v" by (simp add: counter_def val_at_def)
  with same elsewhere assms(2) commit_rev show ?thesis
    by (intro jobs_inv_less) (simp_all add: jobs_inv_def wf_commit)
next
  case (lapse l)
  have wf: "wf_est v" and ctr: "\<And>kv. kv_at v idCounterKey = Some kv \<Longrightarrow> kv_lease kv = NoLease"
    using assms(2) by (auto simp: jobs_inv_def)
  have "kv_at v' idCounterKey = kv_at v idCounterKey"
    using ctr lapse by (auto simp: kv_at_expired [OF wf] split: option.splits)
  then have "counter v' = counter v" by (simp add: counter_def val_at_def)
  moreover have "kv_at v' k = Some kv \<Longrightarrow> kv_at v k = Some kv" for k kv
    using lapse by (auto simp: kv_at_expired [OF wf] split: option.splits if_splits)
  ultimately show ?thesis using lapse assms(2) wf by (intro jobs_inv_less) (simp_all add: wf_expire, simp add: expire_def)
next
  case (granted l)
  then have "counter v' = counter v" by (simp add: grant_def counter_def val_at_def etcd_simps)
  with granted assms(2) show ?thesis
    by (intro jobs_inv_less) (simp_all add: jobs_inv_def wf_grant, simp_all add: grant_def etcd_simps)
qed

lemma jobs_inv_steps: "(jobs_step P)\<^sup>*\<^sup>* v v' \<Longrightarrow> jobs_inv P v \<Longrightarrow> jobs_inv P v' \<and> counter v \<le> counter v'"
  by (induction rule: rtranclp_induct) (auto dest: jobs_inv_step)

subsection \<open>The repository in its environment\<close>

text \<open>The steps that write no key but those of the jobs, or delete a watermark: what the repository needs
  its environment to allow.  The environment itself follows the steps.\<close>

definition jobs_own :: "(int \<Rightarrow> bool) \<Rightarrow> est \<Rightarrow> est \<Rightarrow> bool" where
  "jobs_own P v v' \<longleftrightarrow> jobs_step P v v' \<and>
     (\<exists>ops. v' = commit ops v \<and> list_all (\<lambda>op. HasPrefix (op_key op) JobsPrefix \<or> HasPrefix (op_key op) WatermarkPrefix) ops \<and>
       leases_ok v ops)"

locale jobs_env = etcd "rp_cli r" view rely
  for r :: "'w Repo" and view :: "'w \<Rightarrow> est" and rely :: "est \<Rightarrow> est \<Rightarrow> bool" and P :: "int \<Rightarrow> bool" +
  assumes jobs_own: "jobs_own P v v' \<Longrightarrow> rely v v'"
    and jobs_follow: "rely v v' \<Longrightarrow> (jobs_step P)\<^sup>*\<^sup>* v v'"
begin

lemmas steps_trans = rely_trans

lemma inv_later: "rely v v' \<Longrightarrow> jobs_inv P v \<Longrightarrow> jobs_inv P v' \<and> counter v \<le> counter v'"
  by (rule jobs_inv_steps) (rule jobs_follow)

text \<open>One turn of the loop: the transaction commits only if the counter is the one that was read.\<close>

lemma create_turn:
  assumes "w_get (rp_cli r) idCounterKey Single w = (Inr resp, w1)" "jobs_inv P (view w)"
    and "read_counter (gr_kvs resp) = (cur, mr)"
  shows "rely (view w) (view w1) \<and>
    (\<forall>u. rely (view w1) u \<longrightarrow> modrev_at u idCounterKey = mr \<longrightarrow> jobs_inv P u \<and> counter u = cur)"
proof -
  obtain v where v: "rely (view w) v" "resp = get_view v idCounterKey Single" "rely v (view w1)"
    using get_ok [OF assms(1)] by blast
  have wf: "wf_est v" using rely_wf [OF v(1)] assms(2) by (simp add: jobs_inv_def)
  have cur: "cur = counter v" "mr = modrev_at v idCounterKey"
    using assms(3) v(2) by (simp_all add: read_counter_view)
  have "jobs_inv P u \<and> counter u = cur" if u: "rely (view w1) u" "modrev_at u idCounterKey = mr" for u
  proof -
    have vu: "rely v u" using v(3) u(1) by (rule steps_trans)
    have wfu: "wf_est u" and le: "mvcc_le v u" using rely_later [OF vu wf] by auto
    have "kv_at u idCounterKey = kv_at v idCounterKey"
    proof (cases "kv_at v idCounterKey")
      case None
      then have "modrev_at u idCounterKey = 0" using cur u(2) by (simp add: modrev_at_def)
      then show ?thesis
        using None wf_kv_at [OF wfu, of idCounterKey] by (auto simp: modrev_at_def wf_kv_def split: option.splits)
    next
      case (Some kv)
      then have "modrev_at u idCounterKey = kv_modrev kv" using cur u(2) by (simp add: modrev_at_def)
      with Some show ?thesis using mvcc_same_rev [OF le wf Some] by simp
    qed
    then have "counter u = counter v" by (simp add: counter_def val_at_def)
    moreover have "jobs_inv P u" using inv_later [OF steps_trans [OF v(1) vu] assms(2)] by simp
    ultimately show ?thesis using cur by simp
  qed
  then show ?thesis using v(1,3) steps_trans by blast
qed

lemma createLoop_fresh:
  assumes "createLoop r n j w = (Inr j', w')" "jobs_inv P (view w)"
  shows "\<exists>u. rely (view w) u \<and> jobs_inv P u \<and> j' = j\<lparr>j_ID := wrap64 (counter u + 1)\<rparr> \<and>
    rely (commit (create_ops j') u) (view w')"
  using assms
proof (induction n arbitrary: j w)
  case (Suc n)
  obtain resp w1 where g: "w_get (rp_cli r) idCounterKey Single w = (Inr resp, w1)"
    using Suc.prems(1) by (auto split: prod.splits sum.splits)
  obtain cur mr where c: "read_counter (gr_kvs resp) = (cur, mr)" by (cases "read_counter (gr_kvs resp)")
  note turn = create_turn [OF g Suc.prems(2) c]
  let ?j = "j\<lparr>j_ID := wrap64 (cur + 1)\<rparr>"
  obtain b w2 where x: "w_txn (rp_cli r) [CmpModRevision idCounterKey mr] (create_ops ?j) [] w1 = (Inr b, w2)"
    using Suc.prems(1) g c by (auto simp: Let_def split: prod.splits sum.splits)
  obtain u where u: "rely (view w1) u" "b = (modrev_at u idCounterKey = mr)"
    "rely (commit (if b then create_ops ?j else []) u) (view w2)"
    using txn_ok [OF x] by (auto simp: commits_def)
  have wu: "rely (view w) u" using turn u(1) steps_trans by blast
  show ?case
  proof (cases b)
    case True
    then have "j' = ?j" "w' = w2" using Suc.prems(1) g c x by (auto simp: Let_def)
    moreover have "jobs_inv P u" "counter u = cur" using turn u(1,2) True by auto
    ultimately show ?thesis using wu u(3) True by auto
  next
    case False
    then have "createLoop r n ?j w2 = (Inr j', w')" using Suc.prems(1) g c x by (simp add: Let_def)
    moreover have w2: "rely (view w) (view w2)"
      using wu u(3) False by (auto simp: commit_Nil intro: steps_trans)
    moreover have "jobs_inv P (view w2)" using inv_later [OF w2 Suc.prems(2)] by simp
    ultimately obtain x where x: "rely (view w2) x \<and> jobs_inv P x \<and>
        j' = ?j\<lparr>j_ID := wrap64 (counter x + 1)\<rparr> \<and> rely (commit (create_ops j') x) (view w')"
      using Suc.IH by blast
    moreover have "?j\<lparr>j_ID := i\<rparr> = j\<lparr>j_ID := i\<rparr>" for i by simp
    ultimately show ?thesis using steps_trans [OF w2] by metis
  qed
qed simp

lemma Create_outcome:
  assumes "Create r tz j w = (Inr j', w')" "jobs_inv P (view w)"
  shows "validate tz j = None \<and> j_Enabled j' \<and> j_Name j' = j_Name j \<and>
    (\<exists>u. rely (view w) u \<and> jobs_inv P u \<and> j_ID j' = wrap64 (counter u + 1) \<and>
       rely (commit (create_ops j') u) (view w'))"
proof -
  have v: "validate tz j = None"
    using assms(1) by (auto simp: Create_def split: option.splits)
  obtain t w1 where n: "w_now (rp_cli r) w = (t, w1)" by (cases "w_now (rp_cli r) w")
  have w1: "rely (view w) (view w1)" using now [of w] n by simp
  let ?j = "j\<lparr>j_CreatedAt := Format_RFC3339 t, j_UpdatedAt := Format_RFC3339 t, j_Enabled := True\<rparr>"
  have "createLoop r 8 ?j w1 = (Inr j', w')" using assms(1) v n by (simp add: Create_def Let_def)
  from createLoop_fresh [OF this] inv_later [OF w1 assms(2)] obtain u where
    "rely (view w1) u" "jobs_inv P u" "j' = ?j\<lparr>j_ID := wrap64 (counter u + 1)\<rparr>"
    "rely (commit (create_ops j') u) (view w')" by blast
  with v w1 steps_trans show ?thesis by auto
qed

text \<open>Creating a job on every branch: while etcd's revision fits 64 bits, so does the next id.\<close>

lemma create_txn_steps:
  assumes "w_txn (rp_cli r) [CmpModRevision idCounterKey mr] (create_ops (j\<lparr>j_ID := wrap64 (cur + 1)\<rparr>)) [] w1 = (x, w2)"
    and "\<And>u. rely (view w1) u \<Longrightarrow> modrev_at u idCounterKey = mr \<Longrightarrow> jobs_inv P u \<and> counter u = cur"
    and "x \<noteq> Inr False \<Longrightarrow> es_rev (view w2) \<le> max_int64" "new_ok P j" "wf_est (view w1)"
  shows "rely (view w1) (view w2)"
proof -
  let ?j = "j\<lparr>j_ID := wrap64 (cur + 1)\<rparr>"
  have step: "rely v (view w2)" if c: "commits rely [CmpModRevision idCounterKey mr] (create_ops ?j) [] v (view w2) b"
    "v = view w1" "b \<longrightarrow> x \<noteq> Inr False" for v b
  proof -
    obtain u where u: "rely v u" "b = (modrev_at u idCounterKey = mr)" "rely (commit (if b then create_ops ?j else []) u) (view w2)"
      using c(1) by (auto simp: commits_def)
    have "rely u (commit (create_ops ?j) u)" if b: b
    proof -
      have i: "jobs_inv P u" "counter u = cur" using assms(2) u(1,2) c(2) b by auto
      have "wf_est (commit (create_ops ?j) u)" using i(1) by (simp add: jobs_inv_def wf_commit)
      then have "es_rev u + 1 \<le> es_rev (view w2)"
        using rely_mvcc [of "commit (create_ops ?j) u" "view w2"] u(3) b by (simp add: mvcc_le_def rev_create)
      then have m: "counter u < max_int64" using i assms(3) b c(3) by (simp add: jobs_inv_def)
      then have k: "is_int64 (cur + 1)" using i by (simp add: jobs_inv_def int64_defs)
      then have "jobs_step P u (commit (create_ops ?j) u)"
        using i m new_ok_doc [OF assms(4) k] by (intro jobs_step.create) (simp_all add: wrap64_id)
      then show ?thesis by (intro jobs_own) (auto simp: jobs_own_def create_ops_def leases_ok_def)
    qed
    then show ?thesis using u by (auto simp: commit_Nil split: if_splits intro: rely_trans)
  qed
  show ?thesis
    using txn_ok txn_err assms(1) step [OF _ refl] by (cases x) blast+
qed

lemma createLoop_steps:
  assumes "jobs_inv P (view w)" "new_ok P j" "es_rev (view (snd (createLoop r n j w))) \<le> max_int64"
  shows "rely (view w) (view (snd (createLoop r n j w)))"
  using assms
proof (induction n arbitrary: j w)
  case (Suc n)
  obtain y w1 where g: "w_get (rp_cli r) idCounterKey Single w = (y, w1)" by (cases "w_get (rp_cli r) idCounterKey Single w")
  have w1: "rely (view w) (view w1)" using get_rely [of w idCounterKey Single] g by simp
  show ?case
  proof (cases y)
    case (Inl e)
    with g w1 show ?thesis by simp
  next
    case (Inr resp)
    obtain cur mr where c: "read_counter (gr_kvs resp) = (cur, mr)" by (cases "read_counter (gr_kvs resp)")
    let ?j = "j\<lparr>j_ID := wrap64 (cur + 1)\<rparr>"
    obtain x w2 where x: "w_txn (rp_cli r) [CmpModRevision idCounterKey mr] (create_ops ?j) [] w1 = (x, w2)"
      by (cases "w_txn (rp_cli r) [CmpModRevision idCounterKey mr] (create_ops ?j) [] w1")
    have run: "snd (createLoop r (Suc n) j w) = (if x = Inr False then snd (createLoop r n ?j w2) else w2)"
      using g Inr c x by (auto simp: Let_def split: sum.splits)
    have "es_rev (view w2) \<le> max_int64" if "x \<noteq> Inr False" using Suc.prems(3) that unfolding run by simp
    moreover have "wf_est (view w1)" using inv_later [OF w1 Suc.prems(1)] by (simp add: jobs_inv_def)
    ultimately have "rely (view w1) (view w2)"
      using create_txn_steps [OF x] create_turn [OF g [unfolded Inr] Suc.prems(1) c] Suc.prems(2) by blast
    then have w2: "rely (view w) (view w2)" using w1 by (blast intro: rely_trans)
    show ?thesis
    proof (cases "x = Inr False")
      case True
      have "new_ok P ?j" using Suc.prems(2) by (simp add: new_ok_def job_int64_def is_int64_wrap64)
      from Suc.IH [OF _ this] Suc.prems(3) inv_later [OF w2 Suc.prems(1)] True
      have "rely (view w2) (view (snd (createLoop r n ?j w2)))" unfolding run by simp
      then show ?thesis unfolding run using True w2 by (auto intro: rely_trans)
    next
      case False
      with w2 show ?thesis unfolding run by simp
    qed
  qed
qed simp

lemma Create_steps:
  assumes "jobs_inv P (view w)" "new_ok P j" "es_rev (view (snd (Create r tz j w))) \<le> max_int64"
  shows "rely (view w) (view (snd (Create r tz j w)))"
proof (cases "validate tz j")
  case None
  obtain t w1 where n: "w_now (rp_cli r) w = (t, w1)" by (cases "w_now (rp_cli r) w")
  have w1: "rely (view w) (view w1)" using now [of w] n by simp
  let ?j = "j\<lparr>j_CreatedAt := Format_RFC3339 t, j_UpdatedAt := Format_RFC3339 t, j_Enabled := True\<rparr>"
  have run: "Create r tz j w = createLoop r 8 ?j w1" using None n by (simp add: Create_def Let_def)
  have "new_ok P ?j" using assms(2) by (simp add: new_ok_def job_int64_def)
  from createLoop_steps [OF _ this] inv_later [OF w1 assms(1)] assms(3)
  have "rely (view w1) (view (snd (createLoop r 8 ?j w1)))" unfolding run by blast
  with w1 show ?thesis unfolding run by (rule rely_trans)
qed (simp add: Create_def)

text \<open>The jobs that are read are jobs of the store.\<close>

lemma Get_found:
  assumes "Get r i w = (Inr j, w')" "jobs_inv P (view w)"
  shows "rely (view w) (view w') \<and> 1 \<le> i \<and> i \<le> counter (view w') \<and> job_ok P j \<and> job_int64 j"
proof -
  obtain resp kv where g: "w_get (rp_cli r) (job_key i) Single w = (Inr resp, w')" and k: "hd (gr_kvs resp) = kv" "gr_kvs resp \<noteq> []"
    and u: "unmarshal_job (kv_value kv) = Some j"
    using assms(1) by (auto simp: Get_def split: prod.splits sum.splits list.splits option.splits)
  obtain v where v: "rely (view w) v" "resp = get_view v (job_key i) Single" "rely v (view w')"
    using get_ok [OF g] by blast
  have kv: "kv_at v (job_key i) = Some kv" using k v(2) by (auto simp: get_view_def split: option.splits)
  moreover have inv: "jobs_inv P v" using inv_later [OF v(1) assms(2)] by simp
  ultimately have "1 \<le> i" "i \<le> counter v" "job_doc P (kv_value kv)"
    using job_key_prefix(1) [of i] unfolding jobs_inv_def by (auto simp del: job_key_prefix)
  then show ?thesis
    using inv_later [OF v(3) inv] rely_trans [OF v(1,3)] u unmarshal_job_int64 [OF u] by (auto simp: job_doc_def)
qed

lemma List_jobs_found:
  assumes "List_jobs r w = (Inr js, w')" "jobs_inv P (view w)"
  shows "rely (view w) (view w') \<and> (\<forall>j \<in> set js. job_ok P j \<and> job_int64 j)"
proof -
  obtain resp where g: "w_get (rp_cli r) JobsPrefix (Prefix 0) w = (Inr resp, w')"
    and js: "js = List.map_filter (\<lambda>kv. unmarshal_job (kv_value kv)) (gr_kvs resp)"
    using assms(1) by (auto simp: List_jobs_def split: prod.splits sum.splits)
  obtain v where v: "rely (view w) v" "resp = get_view v JobsPrefix (Prefix 0)" "rely v (view w')"
    using get_ok [OF g] by blast
  have inv: "jobs_inv P v" using inv_later [OF v(1) assms(2)] by simp
  have "job_ok P j \<and> job_int64 j" if "kv \<in> set (gr_kvs resp)" "unmarshal_job (kv_value kv) = Some j" for kv j
  proof -
    have "kv_at v (kv_key kv) = Some kv" "HasPrefix (kv_key kv) JobsPrefix"
      using that(1) v(2) inv by (auto simp: get_view_def prefix_kvs_def jobs_inv_def intro!: wf_mem_kv_at)
    then show ?thesis using inv that(2) unmarshal_job_int64 by (auto simp: jobs_inv_def job_doc_def)
  qed
  then show ?thesis using rely_trans [OF v(1,3)] js by (auto simp: List.map_filter_def)
qed

lemma Get_steps: "rely (view w) (view (snd (Get r i w)))"
  using get_rely [of w "job_key i" Single]
  by (auto simp: Get_def split: prod.splits sum.splits list.splits option.splits)

lemma List_jobs_steps: "rely (view w) (view (snd (List_jobs r w)))"
  using get_rely [of w JobsPrefix "Prefix 0"] by (auto simp: List_jobs_def split: prod.splits sum.splits)

lemma overwrite_steps:
  assumes "w_put (rp_cli r) (job_key i) d NoLease w = (x, w')" "jobs_inv P (view w)" "1 \<le> i" "i \<le> counter (view w)" "job_doc P d"
  shows "rely (view w) (view w')"
  using assms(1)
proof (rule put_refine)
  fix u assume "rely (view w) u"
  then have "i \<le> counter u" using inv_later assms(2,4) by fastforce
  with assms(3,5) have "jobs_step P u (commit [OpPut (job_key i) d NoLease] u)" by (intro jobs_step.overwrite)
  then show "rely u (commit [OpPut (job_key i) d NoLease] u)" by (intro jobs_own) (auto simp: jobs_own_def leases_ok_def)
qed

lemma put_after_get:
  assumes "Get r i w = (Inr cur, w1)" "w_now (rp_cli r) w1 = (t, w2)" "jobs_inv P (view w)"
    and "w_put (rp_cli r) (job_key i) d NoLease w2 = (x, w3)" "job_ok P cur \<Longrightarrow> job_int64 cur \<Longrightarrow> job_doc P d"
  shows "rely (view w) (view w3)"
proof -
  have g: "rely (view w) (view w1)" "1 \<le> i" "i \<le> counter (view w1)" "job_doc P d"
    using Get_found [OF assms(1,3)] assms(5) by auto
  have w2: "rely (view w1) (view w2)" using now [of w1] assms(2) by simp
  have inv: "jobs_inv P (view w1)" using inv_later [OF g(1) assms(3)] by simp
  have "jobs_inv P (view w2)" "i \<le> counter (view w2)" using inv_later [OF w2 inv] g(3) by auto
  from overwrite_steps [OF assms(4) this(1) g(2) this(2) g(4)] show ?thesis using g(1) w2 rely_trans by blast
qed

lemma Update_steps:
  assumes "jobs_inv P (view w)" "job_int64 j" "is_int64 i" "P i \<longrightarrow> \<not> j_NoOverlap j"
  shows "rely (view w) (view (snd (Update r tz i j w)))"
proof -
  have d: "job_doc P (marshal_job (j\<lparr>j_ID := i, j_CreatedAt := c, j_UpdatedAt := u\<rparr>))" for c u
    using assms(2-4) by (subst job_doc_marshal) (simp_all add: job_int64_def job_ok_def)
  show ?thesis
    using Get_steps [of w i] put_after_get [OF _ _ assms(1) _ d]
    by (auto simp: Update_def Let_def split: option.splits prod.splits sum.splits)
qed

lemma SetEnabled_steps:
  assumes "jobs_inv P (view w)"
  shows "rely (view w) (view (snd (SetEnabled r i b w)))"
proof -
  have d: "job_doc P (marshal_job (j\<lparr>j_Enabled := e, j_UpdatedAt := u\<rparr>))" if "job_ok P j" "job_int64 j" for j e u
    using that by (subst job_doc_marshal) (simp_all add: job_int64_def job_ok_def)
  show ?thesis
    using Get_steps [of w i] put_after_get [OF _ _ assms _ d]
    by (auto simp: SetEnabled_def Let_def split: option.splits prod.splits sum.splits)
qed

lemma Delete_steps: "rely (view w) (view (snd (Delete r i w)))"
proof -
  obtain x w' where x: "w_txn (rp_cli r) [] (delete_ops i) [] w = (x, w')" by (cases "w_txn (rp_cli r) [] (delete_ops i) [] w")
  have "jobs_step P u (commit (delete_ops i) u)" for u
    using jobs_step.remove [of "[job_key i, WatermarkKey i]" P u] by (simp add: delete_ops_def key_simps)
  moreover have "HasPrefix (WatermarkKey i) WatermarkPrefix" by (simp add: WatermarkKey_def)
  ultimately have "rely u (commit (delete_ops i) u)" for u
    by (intro jobs_own) (auto simp: jobs_own_def delete_ops_def leases_ok_def)
  then have "rely (view w) (view w')" using txn_refine [OF x] by (auto simp: commit_Nil)
  with x show ?thesis by (auto simp: Delete_def split: sum.splits)
qed

end

definition local_repo :: "unit mem Repo" where
  "local_repo = New_repo (mem_world idle)"

lemma local_repo_sel [simp]: "rp_cli local_repo = mem_world idle"
  by (simp add: local_repo_def New_repo_def)

lemma local_repo_env: "jobs_env local_repo mem_store (jobs_step P)\<^sup>*\<^sup>* P"
  using calm_etcd [OF env_ok_jobs] by (auto simp: jobs_env_def jobs_env_axioms_def jobs_own_def)

interpretation lr: jobs_env local_repo mem_store "(jobs_step P)\<^sup>*\<^sup>*" P for P
  by (rule local_repo_env)

text \<open>A repository whose store other clients can write to between its calls.\<close>

definition shared_repo :: "event mem Repo" where
  "shared_repo = New_repo (mem_world run_event)"

lemma shared_repo_sel [simp]: "rp_cli shared_repo = mem_world run_event"
  by (simp add: shared_repo_def New_repo_def)

lemma jobs_inv_empty: "jobs_inv P empty_store"
  by (simp add: jobs_inv_def counter_def val_at_def) (simp add: empty_store_def)

definition demo_job :: job where
  "demo_job = zero_job\<lparr>j_Name := ''backup'', j_Cron := ''0 3 * * *'', j_Command := ''true'', j_MaxRetries := 2\<rparr>"

lemma demo_job_valid: "validate tz demo_job = None"
proof -
  have "Validate ''0 3 * * *'' = None" by code_simp
  moreover have "TrimSpace ''backup'' \<noteq> []" "TrimSpace ''true'' \<noteq> []" by code_simp+
  ultimately show ?thesis by (simp add: validate_def demo_job_def zero_job_def)
qed

text \<open>Quiet runs.\<close>

lemma createLoop_quiet:
  assumes "mem_script m = []"
  shows "createLoop local_repo (Suc n) j m =
    (let j' = j\<lparr>j_ID := wrap64 (counter (mem_store m) + 1)\<rparr>
     in (Inr j', m\<lparr>mem_store := commit (create_ops j') (mem_store m)\<rparr>))"
  using assms
  by (simp add: mem_get_quiet read_counter_view mem_txn_quiet create_ops_def Let_def)

lemma Get_quiet:
  "mem_script m = [] \<Longrightarrow> Get local_repo i m =
     ((case val_at (mem_store m) (job_key i) of
         None \<Rightarrow> Inl (Errorf (''job '' @ FormatInt i @ '' not found''))
       | Some d \<Rightarrow> (case unmarshal_job d of None \<Rightarrow> Inl (Wrap ''jobs: decode: '' decode_error) | Some j \<Rightarrow> Inr j)), m)"
  by (auto simp: Get_def mem_get_quiet get_view_def val_at_def split: option.splits)

lemma Create_quiet:
  assumes "mem_script m = []" "validate tz j = None"
  shows "\<exists>j' m'. Create local_repo tz j m = (Inr j', m') \<and> mem_script m' = [] \<and>
    mem_store m' = commit (create_ops j') (mem_store m) \<and> j_ID j' = wrap64 (counter (mem_store m) + 1) \<and>
    (job_int64 j \<longrightarrow> job_int64 j')"
  using assms createLoop_quiet [where n = 7]
  by (simp add: Create_def Let_def eval_nat_numeral(3) numeral_eq_Suc job_int64_def is_int64_wrap64)

subsection \<open>Properties\<close>

text \<open>C26. Job ids are never reused: when \<open>Create\<close> returns, there was a moment at which the new id was one more
  than the counter and no job was stored under it, and one step then stored the job and moved the
  counter to its id, for as long as etcd's revision is a 64-bit integer.  Concurrent creations, updates
  and deletions by other nodes do not affect this.\<close>

theorem Create_fresh_id:
  assumes "jobs_env r view (jobs_step P)\<^sup>*\<^sup>* P" "jobs_inv P (view w)" "new_ok P j" "es_rev (view w') \<le> max_int64"
    and "Create r tz j w = (Inr j', w')"
  shows "\<exists>u. (jobs_step P)\<^sup>*\<^sup>* (view w) u \<and> (jobs_step P)\<^sup>*\<^sup>* (commit (create_ops j') u) (view w') \<and>
    j_ID j' = counter u + 1 \<and> kv_at u (job_key (j_ID j')) = None \<and>
    counter (commit (create_ops j') u) = j_ID j' \<and>
    val_at (commit (create_ops j') u) (job_key (j_ID j')) = Some (marshal_job j') \<and>
    jobs_inv P (view w')"
proof -
  obtain u where u: "(jobs_step P)\<^sup>*\<^sup>* (view w) u" "jobs_inv P u" "j_ID j' = wrap64 (counter u + 1)"
    "(jobs_step P)\<^sup>*\<^sup>* (commit (create_ops j') u) (view w')"
    using jobs_env.Create_outcome [OF assms(1,5,2)] by blast
  have "wf_est (commit (create_ops j') u)" using u(2) by (simp add: jobs_inv_def wf_commit)
  then have "es_rev u + 1 \<le> es_rev (view w')"
    using u(4) env_ok_jobs [of P] by (force simp: env_ok_def mvcc_le_def rev_create)
  then have m: "counter u < max_int64" using u(2) assms(4) by (simp add: jobs_inv_def)
  then have "is_int64 (counter u + 1)" using u(2) by (simp add: jobs_inv_def int64_defs)
  then have i: "j_ID j' = counter u + 1" "is_int64 (j_ID j')" using u(3) by (simp_all add: wrap64_id)
  have "val_at (commit (create_ops j') u) (job_key (j_ID j')) = Some (marshal_job j')"
    by (simp add: create_ops_def etcd_simps key_simps)
  moreover have "jobs_inv P (view w')"
    using jobs_env.Create_steps [OF assms(1-3), of tz] assms(4,5) jobs_inv_steps assms(2) by fastforce
  ultimately show ?thesis
    using u i jobs_inv_create(2) [OF u(2) i(1) m] counter_create by blast
qed

theorem Create_fresh_id_witness:
  "\<exists>j' m' u. Create local_repo Map.empty demo_job (mem_of empty_store 0) = (Inr j', m') \<and>
     (jobs_step (\<lambda>_. True))\<^sup>*\<^sup>* empty_store u \<and> kv_at u (job_key (j_ID j')) = None"
proof -
  obtain j' m' where c: "Create local_repo Map.empty demo_job (mem_of empty_store 0) = (Inr j', m')"
    "mem_store m' = commit (create_ops j') empty_store"
    using Create_quiet [of "mem_of empty_store 0" Map.empty demo_job] demo_job_valid by auto
  have "es_rev (mem_store m') \<le> max_int64" using c(2) by (simp add: rev_create) (simp add: empty_store_def int64_defs)
  moreover have "new_ok (\<lambda>_. True) demo_job" by (simp add: new_ok_def job_int64_def demo_job_def zero_job_def int64_defs)
  ultimately show ?thesis using Create_fresh_id [OF local_repo_env _ _ _ c(1), of "\<lambda>_. True"] jobs_inv_empty c(1) by auto
qed

text \<open>What is created can be read back: without interference \<open>Get\<close> of the id that \<open>Create\<close> assigned
  returns the job as it was stored, and after \<open>Delete\<close> it is reported as not found.\<close>

lemma Create_Get_Delete:
  assumes "mem_script m = []" "validate tz j = None" "job_int64 j"
  shows "\<exists>j' m' m''. Create local_repo tz j m = (Inr j', m') \<and> is_int64 (j_ID j') \<and>
    Get local_repo (j_ID j') m' = (Inr j', m') \<and>
    Delete local_repo (j_ID j') m' = (Inr (), m'') \<and>
    Get local_repo (j_ID j') m'' = (Inl (Errorf (''job '' @ FormatInt (j_ID j') @ '' not found'')), m'')"
proof -
  obtain j' m' where c: "Create local_repo tz j m = (Inr j', m')" "mem_script m' = []"
    "mem_store m' = commit (create_ops j') (mem_store m)" "job_int64 j'"
    using Create_quiet [OF assms(1,2)] assms(3) by auto
  have "val_at (mem_store m') (job_key (j_ID j')) = Some (marshal_job j')"
    using c(3) by (simp add: create_ops_def etcd_simps key_simps)
  then have g: "Get local_repo (j_ID j') m' = (Inr j', m')"
    using c(2,4) by (simp add: Get_quiet unmarshal_marshal_job)
  let ?m = "m'\<lparr>mem_store := commit (delete_ops (j_ID j')) (mem_store m')\<rparr>"
  have d: "Delete local_repo (j_ID j') m' = (Inr (), ?m)"
    using c(2) by (simp add: Delete_def mem_txn_quiet delete_ops_def)
  have "val_at (mem_store ?m) (job_key (j_ID j')) = None"
    by (simp add: delete_ops_def etcd_simps key_simps del: val_at_None)
  then have "Get local_repo (j_ID j') ?m = (Inl (Errorf (''job '' @ FormatInt (j_ID j') @ '' not found'')), ?m)"
    using c(2) by (simp add: Get_quiet val_at_def)
  moreover have "is_int64 (j_ID j')" using c(4) by (simp add: job_int64_def)
  ultimately show ?thesis using c(1) g d by blast
qed

text \<open>Validation accepts a job exactly when it has a name, a command, a cron expression that parses, a known
  time zone or none, one of the catch-up policies, a timeout of at most a day and at most ten retries.\<close>

theorem validate_accepts_iff:
  "validate tz j = None \<longleftrightarrow>
     TrimSpace (j_Name j) \<noteq> [] \<and> TrimSpace (j_Command j) \<noteq> [] \<and> (\<exists>s. Parse (j_Cron j) = Inr s) \<and>
     (j_Timezone j = [] \<or> (\<exists>loc. tz (j_Timezone j) = Some loc)) \<and>
     j_CatchUp j \<in> {[], CatchUpRunLatest, CatchUpRunAll, CatchUpSkip} \<and>
     0 \<le> j_TimeoutSec j \<and> j_TimeoutSec j \<le> 86400 \<and> 0 \<le> j_MaxRetries j \<and> j_MaxRetries j \<le> 10"
proof -
  have "Validate (j_Cron j) = None \<longleftrightarrow> (\<exists>s. Parse (j_Cron j) = Inr s)"
    by (cases "Parse (j_Cron j)") (auto simp: Validate_def)
  then show ?thesis by (auto simp: validate_def split: option.splits)
qed

text \<open>The repository keeps its invariant: \<open>Create\<close>, \<open>Update\<close>, \<open>SetEnabled\<close> and \<open>Delete\<close> move the store only by
  steps of the repository's relation, on every branch, so no id beyond the counter ever appears.\<close>

theorem repository_operations_refine:
  assumes "jobs_env r view (jobs_step P)\<^sup>*\<^sup>* P" "jobs_inv P (view w)" "new_ok P j" "is_int64 i"
    and "es_rev (view (snd (Create r tz j w))) \<le> max_int64"
  shows "(jobs_step P)\<^sup>*\<^sup>* (view w) (view (snd (Create r tz j w))) \<and>
    (jobs_step P)\<^sup>*\<^sup>* (view w) (view (snd (Update r tz i j w))) \<and>
    (jobs_step P)\<^sup>*\<^sup>* (view w) (view (snd (SetEnabled r i b w))) \<and>
    (jobs_step P)\<^sup>*\<^sup>* (view w) (view (snd (Delete r i w))) \<and>
    jobs_inv P (view (snd (Create r tz j w))) \<and> jobs_inv P (view (snd (Update r tz i j w))) \<and>
    jobs_inv P (view (snd (SetEnabled r i b w))) \<and> jobs_inv P (view (snd (Delete r i w)))"
proof -
  have "job_int64 j" "P i \<longrightarrow> \<not> j_NoOverlap j" using assms(3) by (auto simp: new_ok_def)
  then show ?thesis
    using jobs_env.Create_steps [OF assms(1-3,5)] jobs_env.Update_steps [OF assms(1,2) _ assms(4)]
      jobs_env.SetEnabled_steps [OF assms(1,2)] jobs_env.Delete_steps [OF assms(1)] jobs_inv_steps assms(2) by blast
qed

theorem repository_operations_refine_witness:
  "jobs_inv (\<lambda>_. True) (mem_store (snd (Delete local_repo 3 (mem_of empty_store 0))))"
proof -
  obtain j' m' where c: "Create local_repo Map.empty demo_job (mem_of empty_store 0) = (Inr j', m')"
    "mem_store m' = commit (create_ops j') empty_store"
    using Create_quiet [of "mem_of empty_store 0" Map.empty demo_job] demo_job_valid by auto
  have "es_rev (mem_store m') \<le> max_int64" using c(2) by (simp add: rev_create) (simp add: empty_store_def int64_defs)
  moreover have "new_ok (\<lambda>_. True) demo_job" "is_int64 3"
    by (simp_all add: new_ok_def job_int64_def demo_job_def zero_job_def int64_defs)
  ultimately show ?thesis
    using repository_operations_refine [OF local_repo_env, of "\<lambda>_. True" "mem_of empty_store 0" demo_job 3 Map.empty] jobs_inv_empty c(1)
    by simp
qed

text \<open>An update can bring a deleted job back: \<open>Update\<close> reads the job and then puts it without a comparison,
  so a deletion that another node commits between the two is undone.\<close>

theorem Update_resurrects_deleted:
  assumes "mem_script m = [(NoFault, []), (NoFault, [Interfere [] (delete_ops i) []])]"
    and "val_at (mem_store m) (job_key i) = Some (marshal_job cur)" "job_int64 cur" "validate tz (j\<lparr>j_ID := i\<rparr>) = None"
  shows "\<exists>j' m'. Update shared_repo tz i j m = (Inr j', m') \<and>
    val_at (mem_store m') (job_key i) = Some (marshal_job j')"
proof -
  let ?m1 = "m\<lparr>mem_script := [(NoFault, [Interfere [] (delete_ops i) []])]\<rparr>"
  have "Get shared_repo i m = (Inr cur, ?m1)"
    using assms(1-3)
    by (auto simp: Get_def mem_get_def next_entry_def get_view_def val_at_def unmarshal_marshal_job)
  then show ?thesis
    using assms(1,4)
    by (auto simp: Update_def mem_put_def mem_txn_def next_entry_def Let_def txn_step_def etcd_simps
        apply_ops_def leases_ok_def kv_at_put val_at_def)
qed

theorem Update_resurrects_deleted_witness:
  "\<exists>j' m'. Update shared_repo Map.empty 1 demo_job
       \<lparr>mem_store = commit [OpPut (job_key 1) (marshal_job demo_job) NoLease] empty_store,
        mem_script = [(NoFault, []), (NoFault, [Interfere [] (delete_ops 1) []])], mem_clock = 0, mem_seed = 0\<rparr> = (Inr j', m') \<and>
     val_at (mem_store m') (job_key 1) = Some (marshal_job j')"
proof (rule Update_resurrects_deleted)
  show "val_at (mem_store \<lparr>mem_store = commit [OpPut (job_key 1) (marshal_job demo_job) NoLease] empty_store,
        mem_script = [(NoFault, []), (NoFault, [Interfere [] (delete_ops 1) []])], mem_clock = 0, mem_seed = 0\<rparr>) (job_key 1) =
      Some (marshal_job demo_job)" by (simp add: etcd_simps)
  show "job_int64 demo_job" by (simp add: job_int64_def demo_job_def zero_job_def int64_defs)
  show "validate Map.empty (demo_job\<lparr>j_ID := 1\<rparr>) = None"
    using demo_job_valid [of Map.empty] by (simp add: validate_def split: option.splits if_splits)
qed simp

end
