(* ===== verification/Scheduler.thy ===== *)
theory Scheduler
  imports Jobs Queue_Steps
begin

section \<open>The scheduler: internal/scheduler\<close>

text \<open>
  The leader's tick: list the jobs, and for each enabled one compute from its watermark the fires that
  are due and enqueue them by the job's catch-up policy; then abandon the pending tickets of jobs that
  are gone or disabled; and once a minute collect old results.  The leadership flag is the function
  \<open>s_leader\<close> of the world, because the election runs concurrently; log output is left out.  The tz
  database is the parameter \<open>tz\<close>.
\<close>

definition maxCatchUpFires :: nat where "maxCatchUpFires = 8"
definition resultsRetention :: duration where "resultsRetention = Hour"
definition gcEvery :: duration where "gcEvery = Minute"

record 'w scheduler =
  s_repo :: "'w Repo"
  s_q :: "'w queue"
  s_leader :: "'w \<Rightarrow> bool \<times> 'w"
  s_lastGC :: instant

definition New_scheduler :: "'w Repo \<Rightarrow> 'w queue \<Rightarrow> ('w \<Rightarrow> bool \<times> 'w) \<Rightarrow> 'w scheduler" where
  "New_scheduler repo q leader = \<lparr>s_repo = repo, s_q = q, s_leader = leader, s_lastGC = zero_time\<rparr>"

subsection \<open>Scheduling one job: catchup.go\<close>

definition fireTicket :: "job \<Rightarrow> instant \<Rightarrow> ticket" where
  "fireTicket j fire = \<lparr>t_JobID = j_ID j, t_Name = j_Name j, t_Command = j_Command j,
     t_TimeoutSec = j_TimeoutSec j, t_MaxRetries = j_MaxRetries j, t_NoOverlap = j_NoOverlap j,
     t_SchedAt = Format_RFC3339Nano fire, t_Attempt = 0, t_NotBefore = [], t_Manual = False\<rparr>"

definition enqueueFire :: "'w scheduler \<Rightarrow> job \<Rightarrow> instant \<Rightarrow> instant \<Rightarrow> 'w \<Rightarrow> 'w" where
  "enqueueFire s j fire wm w = snd (EnqueueFire (s_q s) (fireTicket j fire) (Format_RFC3339 wm) w)"

definition advance_wm :: "'w scheduler \<Rightarrow> int \<Rightarrow> instant \<Rightarrow> 'w \<Rightarrow> 'w" where
  "advance_wm s jid t w = snd (AdvanceWatermark (s_q s) jid (Format_RFC3339 t) w)"

text \<open>The loop that collects the fires that are due: it returns them with the first future fire (the zero
  time when the limit was reached first) and the last instant it searched from.  The limit counts down from
  the code's constant \<open>maxCatchUpFires\<close>, the only value it is called with.\<close>

fun collectFires :: "tzdb \<Rightarrow> job \<Rightarrow> instant \<Rightarrow> nat \<Rightarrow> instant \<Rightarrow> instant list \<Rightarrow> cron_error + instant list \<times> instant \<times> instant" where
  "collectFires tz j now 0 frm fires = Inr (fires, zero_time, frm)"
| "collectFires tz j now (Suc n) frm fires =
     (case NextAfter tz (j_Cron j) (j_Timezone j) frm of
        Inl err \<Rightarrow> Inl err
      | Inr nxt \<Rightarrow> if nxt > now then Inr (fires, nxt, frm) else collectFires tz j now n nxt (fires @ [nxt]))"

fun enqueueAll :: "'w scheduler \<Rightarrow> job \<Rightarrow> instant list \<Rightarrow> 'w \<Rightarrow> 'w" where
  "enqueueAll s j [] w = w"
| "enqueueAll s j (f # fs) w =
     (let (lead, w1) = s_leader s w
      in if \<not> lead then w1 else enqueueAll s j fs (enqueueFire s j f f w1))"

definition catchUp :: "'w scheduler \<Rightarrow> job \<Rightarrow> instant list \<times> instant \<times> instant \<Rightarrow> 'w \<Rightarrow> 'w" where
  "catchUp s j r w =
     (let policy = (if j_CatchUp j = [] then CatchUpRunLatest else j_CatchUp j);
          (fires, future, frm) = r
      in if policy = CatchUpSkip then
           (if fires \<noteq> [] then advance_wm s (j_ID j) (if IsZero future then frm else future) w else w)
         else if policy = CatchUpRunAll then enqueueAll s j fires w
         else if fires = [] then w
         else enqueueFire s j (last fires) (if IsZero future then last fires else future) w)"

definition scheduleJob :: "'w scheduler \<Rightarrow> tzdb \<Rightarrow> job \<Rightarrow> instant \<Rightarrow> 'w \<Rightarrow> 'w" where
  "scheduleJob s tz j now w =
     (case Watermark (s_q s) (j_ID j) w of
        (Inl err, w1) \<Rightarrow> w1
      | (Inr wm, w1) \<Rightarrow>
          let frm = (case wm of
                None \<Rightarrow> zero_time
              | Some wmStr \<Rightarrow> (case Parse_RFC3339 wmStr of None \<Rightarrow> zero_time | Some t \<Rightarrow> t))
          in if IsZero frm then
               (case NextAfter tz (j_Cron j) (j_Timezone j) now of
                  Inl err \<Rightarrow> w1
                | Inr nxt \<Rightarrow> advance_wm s (j_ID j) nxt w1)
             else
               (case collectFires tz j now maxCatchUpFires frm [] of
                  Inl err \<Rightarrow> w1
                | Inr r \<Rightarrow> catchUp s j r w1))"

subsection \<open>The tick: scheduler.go\<close>

fun scheduleAll :: "'w scheduler \<Rightarrow> tzdb \<Rightarrow> instant \<Rightarrow> job list \<Rightarrow> 'w \<Rightarrow> bool \<times> 'w" where
  "scheduleAll s tz now [] w = (True, w)"
| "scheduleAll s tz now (j # js) w =
     (let (lead, w1) = s_leader s w
      in if \<not> lead then (False, w1)
         else if \<not> j_Enabled j then scheduleAll s tz now js w1
         else scheduleAll s tz now js (scheduleJob s tz j now w1))"

definition liveJobs :: "job list \<Rightarrow> int \<Rightarrow> bool" where
  "liveJobs all jid \<longleftrightarrow> (\<exists>j \<in> set all. j_Enabled j \<and> j_ID j = jid)"

fun abandonAll :: "'w scheduler \<Rightarrow> job list \<Rightarrow> ticket list \<Rightarrow> 'w \<Rightarrow> 'w" where
  "abandonAll s all [] w = w"
| "abandonAll s all (t # ts) w =
     (let (lead, w1) = s_leader s w
      in if \<not> lead then w1
         else if t_Manual t \<or> liveJobs all (t_JobID t) then abandonAll s all ts w1
         else abandonAll s all ts (snd (Abandon (s_q s) t w1)))"

definition sweepOrphans :: "'w scheduler \<Rightarrow> job list \<Rightarrow> 'w \<Rightarrow> 'w" where
  "sweepOrphans s all w =
     (case PendingTickets (s_q s) 256 w of
        (Inl err, w1) \<Rightarrow> w1
      | (Inr pending, w1) \<Rightarrow> abandonAll s all pending w1)"

definition tickOnce :: "'w scheduler \<Rightarrow> tzdb \<Rightarrow> 'w \<Rightarrow> 'w" where
  "tickOnce s tz w =
     (let (now, w1) = w_now (q_cli (s_q s)) w
      in case List_jobs (s_repo s) w1 of
           (Inl err, w2) \<Rightarrow> w2
         | (Inr all, w2) \<Rightarrow> (case scheduleAll s tz now all w2 of
               (False, w3) \<Rightarrow> w3
             | (True, w3) \<Rightarrow>
                 let (lead, w4) = s_leader s w3
                 in if lead then sweepOrphans s all w4 else w4))"

definition gcOnce :: "'w scheduler \<Rightarrow> 'w \<Rightarrow> 'w scheduler \<times> 'w" where
  "gcOnce s w =
     (let (now, w1) = w_now (q_cli (s_q s)) w
      in if Sub now (s_lastGC s) < gcEvery then (s, w1)
         else let (t1, w2) = w_now (q_cli (s_q s)) w1;
                  (t2, w3) = w_now (q_cli (s_q s)) w2
              in (s\<lparr>s_lastGC := t1\<rparr>, snd (GCResults (s_q s) resultsRetention t2 w3)))"

definition runOnce :: "'w scheduler \<Rightarrow> tzdb \<Rightarrow> 'w \<Rightarrow> 'w scheduler \<times> 'w" where
  "runOnce s tz w =
     (let (lead, w1) = s_leader s w
      in if lead then gcOnce s (tickOnce s tz w1) else (s, w1))"

text \<open>\<open>Run\<close>, for as many turns as the context lasts: \<open>ctx\<close> reads whether it is still alive.\<close>

fun schedulerRun :: "nat \<Rightarrow> ('w \<Rightarrow> bool \<times> 'w) \<Rightarrow> 'w scheduler \<Rightarrow> tzdb \<Rightarrow> 'w \<Rightarrow> 'w scheduler \<times> 'w" where
  "schedulerRun 0 ctx s tz w = (s, w)"
| "schedulerRun (Suc n) ctx s tz w =
     (let (alive, w1) = ctx w
      in if \<not> alive then (s, w1)
         else let (s', w2) = runOnce s tz w1 in schedulerRun n ctx s' tz w2)"

subsection \<open>The fires that are due\<close>

text \<open>A chain of fires: each is the next one after the instant before it.\<close>

fun fire_chain :: "tzdb \<Rightarrow> job \<Rightarrow> instant \<Rightarrow> instant list \<Rightarrow> bool" where
  "fire_chain tz j frm [] \<longleftrightarrow> True"
| "fire_chain tz j frm (f # fs) \<longleftrightarrow>
     NextAfter tz (j_Cron j) (j_Timezone j) frm = Inr f \<and> fire_chain tz j f fs"

lemma collectFires_chain:
  assumes "collectFires tz j now n frm fires = Inr (fires', future, frm')"
  shows "\<exists>new. fires' = fires @ new \<and> fire_chain tz j frm new \<and> (\<forall>f \<in> set new. f \<le> now) \<and> length new \<le> n \<and>
    frm' = (if new = [] then frm else last new) \<and>
    (if length new = n then future = zero_time
     else NextAfter tz (j_Cron j) (j_Timezone j) frm' = Inr future \<and> now < future)"
  using assms
proof (induction n arbitrary: frm fires)
  case (Suc n)
  obtain nxt where nxt: "NextAfter tz (j_Cron j) (j_Timezone j) frm = Inr nxt"
    using Suc.prems by (auto split: sum.splits)
  show ?case
  proof (cases "nxt > now")
    case True
    with nxt Suc.prems show ?thesis by (intro exI [of _ "[]"]) auto
  next
    case False
    with nxt Suc.prems have "collectFires tz j now n nxt (fires @ [nxt]) = Inr (fires', future, frm')" by simp
    from Suc.IH [OF this] obtain new where new: "fires' = (fires @ [nxt]) @ new" "fire_chain tz j nxt new"
      "\<forall>f \<in> set new. f \<le> now" "length new \<le> n" "frm' = (if new = [] then nxt else last new)"
      "if length new = n then future = zero_time
       else NextAfter tz (j_Cron j) (j_Timezone j) frm' = Inr future \<and> now < future" by blast
    with nxt False show ?thesis by (intro exI [of _ "nxt # new"]) auto
  qed
qed auto

lemma fire_chain_sorted: "fire_chain tz j frm fs \<Longrightarrow> sorted_wrt (<) (frm # fs)"
proof (induction fs arbitrary: frm)
  case (Cons f fs)
  then have "frm < f" "sorted_wrt (<) (f # fs)" using NextAfter_later by auto
  then show ?case by auto
qed simp

lemma fire_chain_whole: "fire_chain tz j frm fs \<Longrightarrow> f \<in> set fs \<Longrightarrow> f mod Second = 0"
  by (induction fs arbitrary: frm) (auto dest: NextAfter_whole)

subsection \<open>The scheduler in its environment\<close>

text \<open>The scheduler needs a queue that follows its protocol, a repository that follows its steps, and a
  leader flag that can be read without a write.\<close>

locale scheduler_env = queue_protocol "s_q s" view rely P + repo: jobs_env "s_repo s" view rely P
  for s :: "'w scheduler" and view :: "'w \<Rightarrow> est" and rely :: "est \<Rightarrow> est \<Rightarrow> bool" and P :: "int \<Rightarrow> bool" +
  assumes leader_rely: "rely (view w) (view (snd (s_leader s w)))"
begin

lemma leader_steps: "s_leader s w = (b, w') \<Longrightarrow> rely (view w) (view w')"
  using leader_rely [of w] by simp

lemma now_steps: "w_now (q_cli (s_q s)) w = (t, w') \<Longrightarrow> rely (view w) (view w')"
  using now [of w] by simp

text \<open>A part of the tick that is a step of the protocol where the store is well-formed can be put after any
  other.\<close>

lemma then_steps:
  "rely v (view w) \<Longrightarrow> wf_est v \<Longrightarrow> (wf_est (view w) \<Longrightarrow> rely (view w) (view w')) \<Longrightarrow> rely v (view w')"
  using rely_wf rely_trans by blast

lemma enqueueFire_steps:
  "job_ok P j \<Longrightarrow> job_int64 j \<Longrightarrow> wf_est (view w) \<Longrightarrow> rely (view w) (view (enqueueFire s j f wm w))"
  unfolding enqueueFire_def
  by (rule EnqueueFire_steps)
    (auto simp: allowed_def job_ok_def ticket_int64_def job_int64_def fireTicket_def int64_defs)

lemma advance_steps: "rely (view w) (view (advance_wm s i t w))"
  unfolding advance_wm_def by (rule AdvanceWatermark_steps)

lemma enqueueAll_steps:
  assumes "job_ok P j" "job_int64 j"
  shows "wf_est (view w) \<Longrightarrow> rely (view w) (view (enqueueAll s j fs w))"
proof (induction fs arbitrary: w)
  case (Cons f fs)
  obtain b w1 where b: "s_leader s w = (b, w1)" by (cases "s_leader s w")
  note w1 = leader_steps [OF b]
  have w2: "rely (view w) (view (enqueueFire s j f f w1))"
    using then_steps [OF w1 Cons.prems] enqueueFire_steps [OF assms] by blast
  then show ?case using b w1 then_steps [OF w2 Cons.prems Cons.IH] by simp
qed simp

lemma catchUp_steps:
  "job_ok P j \<Longrightarrow> job_int64 j \<Longrightarrow> wf_est (view w) \<Longrightarrow> rely (view w) (view (catchUp s j r w))"
  by (auto simp: catchUp_def Let_def enqueueFire_steps advance_steps enqueueAll_steps split: prod.splits)

lemma scheduleJob_steps:
  assumes "job_ok P j" "job_int64 j" "wf_est (view w)"
  shows "rely (view w) (view (scheduleJob s tz j now w))"
proof -
  obtain r w1 where r: "Watermark (s_q s) (j_ID j) w = (r, w1)" by (cases "Watermark (s_q s) (j_ID j) w")
  have w1: "rely (view w) (view w1)" using Watermark_steps [of w "j_ID j"] r by simp
  have "rely (view w) (view (advance_wm s (j_ID j) t w1))" "rely (view w) (view (catchUp s j x w1))" for t x
    using then_steps [OF w1 assms(3)] advance_steps catchUp_steps [OF assms(1,2)] by blast+
  with r w1 show ?thesis by (auto simp: scheduleJob_def Let_def split: sum.splits)
qed

lemma scheduleAll_steps:
  "\<forall>j \<in> set js. job_ok P j \<and> job_int64 j \<Longrightarrow> wf_est (view w) \<Longrightarrow> rely (view w) (view (snd (scheduleAll s tz now js w)))"
proof (induction js arbitrary: w)
  case (Cons j js)
  obtain b w1 where b: "s_leader s w = (b, w1)" by (cases "s_leader s w")
  note w1 = leader_steps [OF b]
  have w2: "rely (view w) (view (scheduleJob s tz j now w1))"
    using then_steps [OF w1 Cons.prems(2)] scheduleJob_steps [of j] Cons.prems(1) by auto
  have rest: "rely (view w) (view (snd (scheduleAll s tz now js w')))" if "rely (view w) (view w')" for w'
    using then_steps [OF that Cons.prems(2)] Cons.IH Cons.prems(1) by simp
  show ?case using b w1 rest [OF w1] rest [OF w2] by simp
qed simp

lemma abandonAll_steps: "wf_est (view w) \<Longrightarrow> rely (view w) (view (abandonAll s all ts w))"
proof (induction ts arbitrary: w)
  case (Cons t ts)
  obtain b w1 where b: "s_leader s w = (b, w1)" by (cases "s_leader s w")
  note w1 = leader_steps [OF b]
  have w2: "rely (view w) (view (snd (Abandon (s_q s) t w1)))" using then_steps [OF w1 Cons.prems Abandon_steps] .
  show ?case
    using b w1 then_steps [OF w1 Cons.prems Cons.IH] then_steps [OF w2 Cons.prems Cons.IH] by simp
qed simp

lemma sweepOrphans_steps:
  assumes "wf_est (view w)"
  shows "rely (view w) (view (sweepOrphans s all w))"
proof -
  obtain r w1 where r: "PendingTickets (s_q s) 256 w = (r, w1)" by (cases "PendingTickets (s_q s) 256 w")
  have w1: "rely (view w) (view w1)" using PendingTickets_steps [of w 256] r by simp
  show ?thesis using r w1 then_steps [OF w1 assms abandonAll_steps] by (simp add: sweepOrphans_def split: sum.splits)
qed

lemma tickOnce_steps:
  assumes "jobs_inv P (view w)"
  shows "rely (view w) (view (tickOnce s tz w))"
proof -
  obtain now w1 where n: "w_now (q_cli (s_q s)) w = (now, w1)" by (cases "w_now (q_cli (s_q s)) w")
  note w1 = now_steps [OF n]
  have wf: "wf_est (view w)" using assms by (simp add: jobs_inv_def)
  obtain r w2 where r: "List_jobs (s_repo s) w1 = (r, w2)" by (cases "List_jobs (s_repo s) w1")
  have w2: "rely (view w) (view w2)" using repo.List_jobs_steps [of w1] r w1 rely_trans by fastforce
  show ?thesis
  proof (cases r)
    case (Inl err)
    with n r w2 show ?thesis by (simp add: tickOnce_def)
  next
    case (Inr all)
    have ok: "\<forall>j \<in> set all. job_ok P j \<and> job_int64 j"
      using repo.List_jobs_found [OF r [unfolded Inr]] repo.inv_later [OF w1 assms] by blast
    obtain b w3 where b: "scheduleAll s tz now all w2 = (b, w3)" by (cases "scheduleAll s tz now all w2")
    have w3: "rely (view w) (view w3)" using then_steps [OF w2 wf scheduleAll_steps [OF ok, of w2 tz now]] b by simp
    obtain l w4 where l: "s_leader s w3 = (l, w4)" by (cases "s_leader s w3")
    have w4: "rely (view w) (view w4)" using w3 leader_steps [OF l] by (rule rely_trans)
    show ?thesis
      using n r Inr b l w3 w4 then_steps [OF w4 wf sweepOrphans_steps] by (simp add: tickOnce_def split: bool.splits)
  qed
qed

lemma gcOnce_steps: "rely (view w) (view (snd (gcOnce s w)))"
proof -
  obtain t1 w1 where 1: "w_now (q_cli (s_q s)) w = (t1, w1)" by (cases "w_now (q_cli (s_q s)) w")
  obtain t2 w2 where 2: "w_now (q_cli (s_q s)) w1 = (t2, w2)" by (cases "w_now (q_cli (s_q s)) w1")
  obtain t3 w3 where 3: "w_now (q_cli (s_q s)) w2 = (t3, w3)" by (cases "w_now (q_cli (s_q s)) w2")
  have "rely (view w) (view w3)" using now_steps [OF 1] now_steps [OF 2] now_steps [OF 3] rely_trans by blast
  then have "rely (view w) (view (snd (GCResults (s_q s) resultsRetention t3 w3)))" using GCResults_steps rely_trans by blast
  with 1 2 3 now_steps [OF 1] show ?thesis by (simp add: gcOnce_def)
qed

lemma runOnce_steps:
  assumes "jobs_inv P (view w)"
  shows "rely (view w) (view (snd (runOnce s tz w)))"
proof -
  obtain b w1 where b: "s_leader s w = (b, w1)" by (cases "s_leader s w")
  note w1 = leader_steps [OF b]
  have "jobs_inv P (view w1)" using repo.inv_later [OF w1 assms] by simp
  then have w2: "rely (view w) (view (tickOnce s tz w1))" using rely_trans [OF w1 tickOnce_steps] by blast
  show ?thesis using b w1 rely_trans [OF w2 gcOnce_steps] by (simp add: runOnce_def)
qed

end

subsection \<open>Quiet runs\<close>

definition local_sched :: "string \<Rightarrow> int \<Rightarrow> unit mem scheduler" where
  "local_sched n l = New_scheduler local_repo (local_queue n l) (\<lambda>m. (True, m))"

lemma local_sched_sel [simp]:
  "s_repo (local_sched n l) = local_repo" "s_q (local_sched n l) = local_queue n l"
  "s_leader (local_sched n l) = (\<lambda>m. (True, m))"
  by (simp_all add: local_sched_def New_scheduler_def)

lemma Watermark_quiet:
  "mem_script m = [] \<Longrightarrow>
   Watermark (local_queue n l) i m = (Inr (map_option text_of (val_at (mem_store m) (WatermarkKey i))), m)"
  by (auto simp: Watermark_def mem_get_quiet get_view_def val_at_def split: option.splits)

lemma advance_quiet:
  "mem_script m = [] \<Longrightarrow> advance_wm (local_sched n l) i t m =
     m\<lparr>mem_store := commit [OpPut (WatermarkKey i) (Text (Format_RFC3339 t)) NoLease] (mem_store m)\<rparr>"
  by (simp add: advance_wm_def AdvanceWatermark_def mem_put_quiet)

definition fire_ops :: "job \<Rightarrow> instant \<Rightarrow> instant \<Rightarrow> op list" where
  "fire_ops j f wm = [OpPut (PendingKey (fireTicket j f)) (marshal_ticket (fireTicket j f)) NoLease,
     OpPut (WatermarkKey (j_ID j)) (Text (Format_RFC3339 wm)) NoLease]"

lemma enqueueFire_quiet:
  assumes "mem_script m = []" "wf_est (mem_store m)"
  shows "enqueueFire (local_sched n l) j f wm m =
    (if kv_at (mem_store m) (PendingKey (fireTicket j f)) = None
     then m\<lparr>mem_store := commit (fire_ops j f wm) (mem_store m)\<rparr> else m)"
proof -
  have "t_JobID (fireTicket j f) = j_ID j" by (simp add: fireTicket_def)
  then show ?thesis
    using assms by (auto simp: enqueueFire_def EnqueueFire_def mem_txn_quiet wf_version fire_ops_def commit_Nil Let_def)
qed

text \<open>Instants the program can write as a watermark and read back: whole seconds of a four-digit year
  other than the zero time.\<close>

definition stampable :: "instant \<Rightarrow> bool" where
  "stampable t \<longleftrightarrow> t mod 1000000000 = 0 \<and> 0 \<le> year_of UTC t \<and> year_of UTC t \<le> 9999 \<and> t \<noteq> zero_time"

lemma Parse_stamp: "stampable t \<Longrightarrow> Parse_RFC3339 (Format_RFC3339 t) = Some t"
  by (simp add: stampable_def Parse_Format_RFC3339)

lemma stamp_inj: "stampable t \<Longrightarrow> stampable u \<Longrightarrow> Format_RFC3339Nano t = Format_RFC3339Nano u \<longleftrightarrow> t = u"
  using Format_RFC3339_inj by (auto simp: stampable_def Format_Nano_whole)

lemma fire_keys:
  "stampable f \<Longrightarrow> stampable g \<Longrightarrow> PendingKey (fireTicket j f) = PendingKey (fireTicket j g) \<longleftrightarrow> f = g"
  by (simp add: PendingKey_eq stamp_eq) (simp add: fireTicket_def stamp_inj)

definition watermark_is :: "est \<Rightarrow> job \<Rightarrow> instant \<Rightarrow> bool" where
  "watermark_is v j t \<longleftrightarrow> val_at v (WatermarkKey (j_ID j)) = Some (Text (Format_RFC3339 t))"

lemma scheduleJob_quiet:
  assumes "mem_script m = []" "watermark_is (mem_store m) j frm" "stampable frm"
  shows "scheduleJob (local_sched n l) tz j now m =
    (case collectFires tz j now maxCatchUpFires frm [] of Inl err \<Rightarrow> m | Inr r \<Rightarrow> catchUp (local_sched n l) j r m)"
proof -
  have "\<not> IsZero frm" using assms(3) by (simp add: stampable_def IsZero_def)
  then show ?thesis
    using assms by (simp add: scheduleJob_def Watermark_quiet watermark_is_def Parse_stamp)
qed

text \<open>The fires of one period: none when the next fire is in the future, one when the fire after the next
  is.\<close>

lemma collect_none:
  "NextAfter tz (j_Cron j) (j_Timezone j) frm = Inr f \<Longrightarrow> now < f \<Longrightarrow>
   collectFires tz j now maxCatchUpFires frm [] = Inr ([], f, frm)"
  by (simp add: maxCatchUpFires_def eval_nat_numeral)

lemma collect_one:
  "NextAfter tz (j_Cron j) (j_Timezone j) frm = Inr f \<Longrightarrow> f \<le> now \<Longrightarrow>
   NextAfter tz (j_Cron j) (j_Timezone j) f = Inr g \<Longrightarrow> now < g \<Longrightarrow>
   collectFires tz j now maxCatchUpFires frm [] = Inr ([f], g, f)"
  by (simp add: maxCatchUpFires_def eval_nat_numeral)

lemma catchUp_nothing: "catchUp s j ([], f, frm) w = w"
  by (simp add: catchUp_def Let_def)

text \<open>The fires whose ticket is not in the queue yet.\<close>

definition unqueued :: "est \<Rightarrow> job \<Rightarrow> instant list \<Rightarrow> instant list" where
  "unqueued v j fs = filter (\<lambda>f. kv_at v (PendingKey (fireTicket j f)) = None) fs"

lemma unqueued_cong:
  "(\<And>f. f \<in> set fs \<Longrightarrow> kv_at v (PendingKey (fireTicket j f)) = kv_at v' (PendingKey (fireTicket j f))) \<Longrightarrow> unqueued v j fs = unqueued v' j fs"
  unfolding unqueued_def by (intro filter_cong) auto

lemma enqueueAll_quiet:
  assumes "mem_script m = []" "wf_est (mem_store m)" "distinct fs" "\<forall>f \<in> set fs. stampable f" "watermark_is (mem_store m) j wm"
  shows "\<exists>m'. enqueueAll (local_sched n l) j fs m = m' \<and>
    (\<forall>f \<in> set (unqueued (mem_store m) j fs). val_at (mem_store m') (PendingKey (fireTicket j f)) = Some (marshal_ticket (fireTicket j f))) \<and>
    watermark_is (mem_store m') j (last (wm # unqueued (mem_store m) j fs)) \<and>
    (\<forall>k. k \<noteq> WatermarkKey (j_ID j) \<longrightarrow> k \<notin> (PendingKey \<circ> fireTicket j) ` set (unqueued (mem_store m) j fs) \<longrightarrow>
       kv_at (mem_store m') k = kv_at (mem_store m) k)"
  using assms
proof (induction fs arbitrary: m wm)
  case (Cons f fs)
  show ?case
  proof (cases "kv_at (mem_store m) (PendingKey (fireTicket j f)) = None")
    case False
    then have "enqueueAll (local_sched n l) j (f # fs) m = enqueueAll (local_sched n l) j fs m"
      "unqueued (mem_store m) j (f # fs) = unqueued (mem_store m) j fs"
      using Cons.prems(1,2) by (auto simp: enqueueFire_quiet unqueued_def)
    with Cons.IH [OF Cons.prems(1,2) _ _ Cons.prems(5)] Cons.prems(3,4) show ?thesis by simp
  next
    case True
    let ?m = "m\<lparr>mem_store := commit (fire_ops j f f) (mem_store m)\<rparr>"
    have run: "enqueueAll (local_sched n l) j (f # fs) m = enqueueAll (local_sched n l) j fs ?m"
      using Cons.prems(1,2) True by (simp add: enqueueFire_quiet)
    have at: "kv_at (mem_store ?m) k = kv_at (mem_store m) k"
      if "k \<noteq> PendingKey (fireTicket j f)" "k \<noteq> WatermarkKey (j_ID j)" for k
      using that by (simp add: fire_ops_def etcd_simps)
    have new: "val_at (mem_store ?m) (PendingKey (fireTicket j f)) = Some (marshal_ticket (fireTicket j f))"
      "watermark_is (mem_store ?m) j f"
      by (simp_all add: fire_ops_def etcd_simps key_simps watermark_is_def)
    have other: "PendingKey (fireTicket j g) \<noteq> PendingKey (fireTicket j f)" if "g \<in> set fs" for g
      using that Cons.prems(3,4) fire_keys by auto
    have uq: "unqueued (mem_store ?m) j fs = unqueued (mem_store m) j fs"
      by (rule unqueued_cong) (rule at, simp_all add: other keys_apart)
    have sub: "set (unqueued (mem_store m) j fs) \<subseteq> set fs" by (auto simp: unqueued_def)
    have "wf_est (mem_store ?m)" "mem_script ?m = []" using Cons.prems(1,2) by (simp_all add: wf_commit)
    from Cons.IH [OF this(2,1) _ _ new(2)] Cons.prems(3,4) obtain m' where m': "enqueueAll (local_sched n l) j fs ?m = m'"
      "\<forall>f \<in> set (unqueued (mem_store m) j fs). val_at (mem_store m') (PendingKey (fireTicket j f)) = Some (marshal_ticket (fireTicket j f))"
      "watermark_is (mem_store m') j (last (f # unqueued (mem_store m) j fs))"
      "\<forall>k. k \<noteq> WatermarkKey (j_ID j) \<longrightarrow> k \<notin> (PendingKey \<circ> fireTicket j) ` set (unqueued (mem_store m) j fs) \<longrightarrow>
        kv_at (mem_store m') k = kv_at (mem_store ?m) k"
      unfolding uq by auto
    have "PendingKey (fireTicket j f) \<notin> (PendingKey \<circ> fireTicket j) ` set (unqueued (mem_store m) j fs)" using other sub by force
    then have "val_at (mem_store m') (PendingKey (fireTicket j f)) = val_at (mem_store ?m) (PendingKey (fireTicket j f))"
      using m'(4) by (simp add: val_at_def keys_apart)
    moreover have u: "unqueued (mem_store m) j (f # fs) = f # unqueued (mem_store m) j fs" using True by (simp add: unqueued_def)
    moreover have "kv_at (mem_store m') k = kv_at (mem_store m) k"
      if "k \<noteq> WatermarkKey (j_ID j)" "k \<notin> (PendingKey \<circ> fireTicket j) ` set (f # unqueued (mem_store m) j fs)" for k
      using that m'(4) at by auto
    ultimately show ?thesis using run m'(1,2,3) new(1) by auto
  qed
qed (auto simp: unqueued_def)

subsection \<open>Properties\<close>

text \<open>C20. The fires the scheduler finds due are exactly the next ones after the watermark: each is the successor of
  the one before, they increase strictly, none is in the future, there are at most eight, and if there are
  fewer the next one is in the future.\<close>

theorem due_fires:
  assumes "collectFires tz j now maxCatchUpFires wm [] = Inr (fires, future, frm)"
  shows "fire_chain tz j wm fires \<and> sorted_wrt (<) (wm # fires) \<and> (\<forall>f \<in> set fires. f \<le> now \<and> f mod Second = 0) \<and>
    length fires \<le> 8 \<and>
    (length fires < 8 \<longrightarrow> NextAfter tz (j_Cron j) (j_Timezone j) (last (wm # fires)) = Inr future \<and> now < future)"
proof -
  obtain new where new: "fires = [] @ new" "fire_chain tz j wm new" "\<forall>f \<in> set new. f \<le> now" "length new \<le> maxCatchUpFires"
    "frm = (if new = [] then wm else last new)"
    "if length new = maxCatchUpFires then future = zero_time
     else NextAfter tz (j_Cron j) (j_Timezone j) frm = Inr future \<and> now < future"
    using collectFires_chain [OF assms] by blast
  then show ?thesis
    using fire_chain_sorted [OF new(2)] fire_chain_whole [OF new(2)]
    by (auto simp: maxCatchUpFires_def split: if_splits)
qed

definition five_fires :: job where
  "five_fires = zero_job\<lparr>j_ID := 5, j_Name := ''m'', j_Command := ''true'', j_Cron := ''0-4 0 1 1 *''\<rparr>"

lemma five_fires_step: "tz = Map.empty \<Longrightarrow> NextAfter tz (j_Cron five_fires) (j_Timezone five_fires) (k * Minute) = Inr ((k + 1) * Minute)"
  if "k \<in> {0, 1, 2, 3}" for k
proof -
  have "NextAfter (\<lambda>_. None) ''0-4 0 1 1 *'' [] 0 = Inr Minute" "NextAfter (\<lambda>_. None) ''0-4 0 1 1 *'' [] Minute = Inr (2 * Minute)"
    "NextAfter (\<lambda>_. None) ''0-4 0 1 1 *'' [] (2 * Minute) = Inr (3 * Minute)"
    "NextAfter (\<lambda>_. None) ''0-4 0 1 1 *'' [] (3 * Minute) = Inr (4 * Minute)"
    by code_simp+
  then show ?thesis if "tz = Map.empty" using \<open>k \<in> {0, 1, 2, 3}\<close> that by (auto simp: five_fires_def zero_job_def)
qed

theorem due_fires_witness:
  "fire_chain Map.empty five_fires 0 [Minute, 2 * Minute] \<and> sorted_wrt (<) [0, Minute, 2 * Minute]"
proof -
  have "collectFires Map.empty five_fires (2 * Minute) maxCatchUpFires 0 [] = Inr ([Minute, 2 * Minute], 3 * Minute, 2 * Minute)"
    using five_fires_step [of 0 Map.empty] five_fires_step [of 1 Map.empty] five_fires_step [of 2 Map.empty]
    by (simp add: maxCatchUpFires_def eval_nat_numeral)
  from due_fires [OF this] show ?thesis by simp
qed

text \<open>C21. With the policy \<open>run_all\<close> a pass enqueues every fire it collects: on a quiet store, when the leader schedules
  a job that has a watermark and the pass collects the fires \<open>fires\<close> (the due ones, at most eight), then afterwards each
  collected fire whose ticket was not in the queue has its ticket there, one that was in the queue is as it
  was, the watermark is the last of the fires that were new (what it was before if none was), and
  no other key has changed.\<close>

theorem run_all_enqueues_collected:
  assumes "mem_script m = []" "wf_est (mem_store m)" "j_CatchUp j = CatchUpRunAll"
    and "watermark_is (mem_store m) j wm" "stampable wm"
    and "collectFires tz j now maxCatchUpFires wm [] = Inr (fires, future, frm)" "\<forall>f \<in> set fires. stampable f"
  shows "\<exists>m'. scheduleJob (local_sched n l) tz j now m = m' \<and>
    (\<forall>f \<in> set fires. if kv_at (mem_store m) (PendingKey (fireTicket j f)) = None
       then val_at (mem_store m') (PendingKey (fireTicket j f)) = Some (marshal_ticket (fireTicket j f))
       else kv_at (mem_store m') (PendingKey (fireTicket j f)) = kv_at (mem_store m) (PendingKey (fireTicket j f))) \<and>
    watermark_is (mem_store m') j (last (wm # filter (\<lambda>f. kv_at (mem_store m) (PendingKey (fireTicket j f)) = None) fires)) \<and>
    (\<forall>k. k \<noteq> WatermarkKey (j_ID j) \<longrightarrow> k \<notin> (PendingKey \<circ> fireTicket j) ` set fires \<longrightarrow>
       kv_at (mem_store m') k = kv_at (mem_store m) k)"
proof -
  have "scheduleJob (local_sched n l) tz j now m = enqueueAll (local_sched n l) j fires m"
    using scheduleJob_quiet [OF assms(1,4,5)] assms(3,6) by (simp add: catchUp_def)
  moreover have "distinct fires"
    using fire_chain_sorted collectFires_chain [OF assms(6)] by (fastforce simp: strict_sorted_iff)
  moreover have "PendingKey (fireTicket j f) \<notin> (PendingKey \<circ> fireTicket j) ` set (unqueued (mem_store m) j fires)"
    if "kv_at (mem_store m) (PendingKey (fireTicket j f)) \<noteq> None" for f
    using that by (auto simp: unqueued_def)
  moreover have "set (unqueued (mem_store m) j fires) \<subseteq> set fires" by (auto simp: unqueued_def)
  ultimately show ?thesis
    using enqueueAll_quiet [OF assms(1,2) _ assms(7,4), of n l]
    by (simp add: unqueued_def keys_apart) blast
qed

definition armed_store :: "job \<Rightarrow> instant \<Rightarrow> est" where
  "armed_store j wm = commit [OpPut (WatermarkKey (j_ID j)) (Text (Format_RFC3339 wm)) NoLease] empty_store"

lemma armed_simps [simp]:
  "wf_est (armed_store j wm)" "watermark_is (armed_store j wm) j wm" "kv_at (armed_store j wm) (PendingKey t) = None"
  by (simp_all add: armed_store_def wf_commit watermark_is_def etcd_simps key_simps)

lemma stampable_minutes: "k \<in> {0, 1, 2, 3} \<Longrightarrow> stampable (k * Minute)"
proof -
  have "stampable 0 \<and> stampable Minute \<and> stampable (2 * Minute) \<and> stampable (3 * Minute)" by code_simp
  then show "k \<in> {0, 1, 2, 3} \<Longrightarrow> stampable (k * Minute)" by auto
qed

theorem run_all_enqueues_collected_witness:
  "\<exists>m'. scheduleJob (local_sched ''n1'' 7) Map.empty (five_fires\<lparr>j_CatchUp := CatchUpRunAll\<rparr>) (2 * Minute)
       (mem_of (armed_store five_fires 0) 0) = m' \<and>
     watermark_is (mem_store m') five_fires (2 * Minute)"
proof -
  let ?j = "five_fires\<lparr>j_CatchUp := CatchUpRunAll\<rparr>"
  have c: "collectFires Map.empty ?j (2 * Minute) maxCatchUpFires 0 [] = Inr ([Minute, 2 * Minute], 3 * Minute, 2 * Minute)"
    using five_fires_step [of 0 Map.empty] five_fires_step [of 1 Map.empty] five_fires_step [of 2 Map.empty]
    by (simp add: maxCatchUpFires_def eval_nat_numeral)
  have same: "watermark_is v ?j t = watermark_is v five_fires t" for v t by (simp add: watermark_is_def)
  show ?thesis
    using run_all_enqueues_collected [of "mem_of (armed_store five_fires 0) 0" ?j 0 Map.empty "2 * Minute" "[Minute, 2 * Minute]"
        "3 * Minute" "2 * Minute" "''n1''" 7] c stampable_minutes [of 0] stampable_minutes [of 1] stampable_minutes [of 2]
    by (auto simp: same)
qed

text \<open>C22. With the default policy \<open>run_latest\<close> a job loses every other fire: when exactly one fire is due, the
  scheduler enqueues it but moves the watermark to the next fire, which is still in the future; when that
  fire comes due, the search starts after it and the scheduler does nothing.  No leader failure is needed.\<close>

theorem run_latest_loses_fire:
  assumes "mem_script m = []" "wf_est (mem_store m)" "j_CatchUp j \<in> {[], CatchUpRunLatest}"
    and "watermark_is (mem_store m) j f0" "stampable f0" "stampable f1" "stampable f2"
    and "fire_chain tz j f0 [f1, f2, f3]" "f1 \<le> now" "now < f2" "f2 \<le> now'" "now' < f3"
    and "kv_at (mem_store m) (PendingKey (fireTicket j f1)) = None"
    and "kv_at (mem_store m) (PendingKey (fireTicket j f2)) = None"
  shows "\<exists>m'. scheduleJob (local_sched n l) tz j now m = m' \<and>
    val_at (mem_store m') (PendingKey (fireTicket j f1)) = Some (marshal_ticket (fireTicket j f1)) \<and>
    watermark_is (mem_store m') j f2 \<and> scheduleJob (local_sched n l) tz j now' m' = m' \<and>
    kv_at (mem_store m') (PendingKey (fireTicket j f2)) = None"
proof -
  have nz: "\<not> IsZero f2" using assms(7) by (simp add: stampable_def IsZero_def)
  let ?m = "m\<lparr>mem_store := commit (fire_ops j f1 f2) (mem_store m)\<rparr>"
  have "collectFires tz j now maxCatchUpFires f0 [] = Inr ([f1], f2, f1)"
    using assms(8-10) by (intro collect_one) auto
  then have run: "scheduleJob (local_sched n l) tz j now m = ?m"
    using scheduleJob_quiet [OF assms(1,4,5)] assms(1-3,13) nz by (auto simp: catchUp_def enqueueFire_quiet)
  have st: "val_at (mem_store ?m) (PendingKey (fireTicket j f1)) = Some (marshal_ticket (fireTicket j f1))"
    "watermark_is (mem_store ?m) j f2"
    by (simp_all add: fire_ops_def etcd_simps key_simps watermark_is_def)
  have "f1 \<noteq> f2" using assms(9,10) by simp
  then have "PendingKey (fireTicket j f2) \<noteq> PendingKey (fireTicket j f1)" using fire_keys assms(6,7) by blast
  then have none: "kv_at (mem_store ?m) (PendingKey (fireTicket j f2)) = None"
    using assms(14) by (simp add: fire_ops_def kv_at_commit_other keys_apart)
  have "collectFires tz j now' maxCatchUpFires f2 [] = Inr ([], f3, f2)"
    using assms(8,12) by (intro collect_none) auto
  then have "scheduleJob (local_sched n l) tz j now' ?m = ?m"
    using scheduleJob_quiet [of ?m j f2 n l tz now'] st(2) assms(1,7) by (simp add: catchUp_nothing)
  with run st none show ?thesis by blast
qed

theorem run_latest_loses_fire_witness:
  "\<exists>m'. scheduleJob (local_sched ''n1'' 7) Map.empty five_fires Minute (mem_of (armed_store five_fires 0) 0) = m' \<and>
     scheduleJob (local_sched ''n1'' 7) Map.empty five_fires (2 * Minute) m' = m' \<and>
     kv_at (mem_store m') (PendingKey (fireTicket five_fires (2 * Minute))) = None"
proof -
  have "fire_chain Map.empty five_fires 0 [Minute, 2 * Minute, 3 * Minute]"
    using five_fires_step [of 0 Map.empty] five_fires_step [of 1 Map.empty] five_fires_step [of 2 Map.empty] by simp
  moreover have "j_CatchUp five_fires = []" by (simp add: five_fires_def zero_job_def)
  ultimately show ?thesis
    using run_latest_loses_fire [of "mem_of (armed_store five_fires 0) 0" five_fires 0 Minute "2 * Minute" Map.empty "3 * Minute"
        Minute "2 * Minute" "''n1''" 7] stampable_minutes [of 0] stampable_minutes [of 1] stampable_minutes [of 2] by auto
qed

text \<open>The first fire of a job is never run, under any policy: the first time a job is scheduled its watermark is set
  to its first fire, and when that fire comes due the search starts after it.\<close>

theorem first_fire_lost:
  assumes "mem_script m = []" "kv_at (mem_store m) (WatermarkKey (j_ID j)) = None"
    and "fire_chain tz j now [f1, f2]" "stampable f1" "f1 \<le> now'" "now' < f2"
  shows "\<exists>m'. scheduleJob (local_sched n l) tz j now m = m' \<and> watermark_is (mem_store m') j f1 \<and>
    scheduleJob (local_sched n l) tz j now' m' = m' \<and>
    kv_at (mem_store m') (PendingKey (fireTicket j f1)) = kv_at (mem_store m) (PendingKey (fireTicket j f1))"
proof -
  let ?m = "m\<lparr>mem_store := commit [OpPut (WatermarkKey (j_ID j)) (Text (Format_RFC3339 f1)) NoLease] (mem_store m)\<rparr>"
  have "val_at (mem_store m) (WatermarkKey (j_ID j)) = None" using assms(2) by simp
  then have run: "scheduleJob (local_sched n l) tz j now m = ?m"
    using assms(1,3) by (simp add: scheduleJob_def Watermark_quiet IsZero_def advance_quiet val_at_def)
  have wm: "watermark_is (mem_store ?m) j f1" by (simp add: watermark_is_def etcd_simps)
  have "collectFires tz j now' maxCatchUpFires f1 [] = Inr ([], f2, f1)"
    using assms(3,6) by (intro collect_none) auto
  then have "scheduleJob (local_sched n l) tz j now' ?m = ?m"
    using scheduleJob_quiet [of ?m j f1 n l tz now'] wm assms(1,4) by (simp add: catchUp_nothing)
  moreover have "kv_at (mem_store ?m) (PendingKey (fireTicket j f1)) = kv_at (mem_store m) (PendingKey (fireTicket j f1))"
    by (simp add: kv_at_commit_other keys_apart)
  ultimately show ?thesis using run wm by blast
qed

theorem first_fire_lost_witness:
  "\<exists>m'. scheduleJob (local_sched ''n1'' 7) Map.empty five_fires 0 (mem_of empty_store 0) = m' \<and>
     scheduleJob (local_sched ''n1'' 7) Map.empty five_fires Minute m' = m'"
proof -
  have "fire_chain Map.empty five_fires 0 [Minute, 2 * Minute]"
    using five_fires_step [of 0 Map.empty] five_fires_step [of 1 Map.empty] by simp
  then show ?thesis
    using first_fire_lost [of "mem_of empty_store 0" five_fires Map.empty 0 Minute "2 * Minute" Minute "''n1''" 7]
      stampable_minutes [of 1] by auto
qed

text \<open>With the policy \<open>skip\<close> a job is never run by the scheduler: without interference scheduling it changes at
  most its watermark, whatever is due, on time or late.\<close>

theorem skip_never_enqueues:
  assumes "mem_script m = []" "j_CatchUp j = CatchUpSkip" "k \<noteq> WatermarkKey (j_ID j)"
  shows "kv_at (mem_store (scheduleJob (local_sched n l) tz j now m)) k = kv_at (mem_store m) k"
proof -
  have keep: "kv_at (mem_store (advance_wm (local_sched n l) (j_ID j) t m)) k = kv_at (mem_store m) k" for t
    using assms(1,3) by (simp add: advance_quiet kv_at_commit_other)
  have "kv_at (mem_store (catchUp (local_sched n l) j r m)) k = kv_at (mem_store m) k" for r
    using keep assms(2) by (cases r) (auto simp: catchUp_def)
  with keep show ?thesis
    using assms(1) by (auto simp: scheduleJob_def Watermark_quiet Let_def split: sum.splits)
qed

theorem skip_never_enqueues_witness:
  "kv_at (mem_store (scheduleJob (local_sched ''n1'' 7) Map.empty (five_fires\<lparr>j_CatchUp := CatchUpSkip\<rparr>) Minute
     (mem_of (armed_store five_fires 0) 0))) (PendingKey (fireTicket five_fires Minute)) = None"
  using skip_never_enqueues [of "mem_of (armed_store five_fires 0) 0" "five_fires\<lparr>j_CatchUp := CatchUpSkip\<rparr>"
      "PendingKey (fireTicket five_fires Minute)"] by (simp add: key_simps)

end
