(* ===== verification/Worker.thy ===== *)
theory Worker
  imports Queue_Steps
begin

section \<open>Running tickets: internal/executor and internal/worker\<close>

text \<open>
  The executor runs a shell command under a deadline and classifies what happened; the operating
  system is the parameter \<open>os\<close>: a function that runs an argument vector under a time limit and
  returns the output, the error and whether the deadline passed.  The worker claims tickets while
  it has a free slot and runs each in a goroutine of its own; \<open>worker_step\<close> interleaves the claim
  loop, one instruction at a time, with the goroutines it has started, and shows that there are never
  more of them than the limit.  \<open>execute\<close> is the body of a goroutine: it runs the command and reports
  the outcome to the queue.  Log output is left out.
\<close>

subsection \<open>Durations as text\<close>

text \<open>\<open>time.Duration.String\<close>: the fraction without trailing zeros, in the largest unit below a second,
  or in hours, minutes and seconds.\<close>

definition fmtFrac :: "int \<Rightarrow> nat \<Rightarrow> string" where
  "fmtFrac u prec = (let r = u mod 10 ^ prec in
     if r = 0 then [] else CHR ''.'' # rev (dropWhile (\<lambda>c. c = CHR ''0'') (rev (pad prec r))))"

definition durationUnsigned :: "int \<Rightarrow> string" where
  "durationUnsigned u =
     (if u = 0 then ''0s''
      else if u < 1000 then format_nat u @ ''ns''
      else if u < 1000000 then format_nat (u div 1000) @ fmtFrac u 3 @ map char_of [194 :: nat, 181] @ ''s''
      else if u < Second then format_nat (u div 1000000) @ fmtFrac u 6 @ ''ms''
      else
        let secs = u div Second;
            s = format_nat (secs mod 60) @ fmtFrac u 9 @ ''s'';
            mins = secs div 60
        in if mins = 0 then s
           else let m = format_nat (mins mod 60) @ ''m'' @ s
                in if mins div 60 = 0 then m else format_nat (mins div 60) @ ''h'' @ m)"

definition duration_String :: "duration \<Rightarrow> string" where
  "duration_String d = (if d < 0 then CHR ''-'' # durationUnsigned (- d) else durationUnsigned d)"

subsection \<open>The executor: executor.go\<close>

definition Success :: string where "Success = ''success''"
definition Failed :: string where "Failed = ''failed''"
definition TimedOut :: string where "TimedOut = ''timeout''"

lemma outcome_ne [simp]: "Success \<noteq> TimedOut" "TimedOut \<noteq> Success" "Failed \<noteq> Success" "Failed \<noteq> TimedOut"
  by (simp_all add: Success_def Failed_def TimedOut_def)

record exec_result =
  x_Outcome :: string
  x_ExitCode :: int
  x_Stdout :: string
  x_Stderr :: string
  x_DurationMS :: int

text \<open>What running a process gives: its output, how it ended (an exit error carries a code, which is
  negative when the process was signalled), whether the context's deadline had passed, and the time
  it took.\<close>

datatype exec_error = ExitError int | OtherError

record proc =
  p_stdout :: string
  p_stderr :: string
  p_err :: "exec_error option"
  p_deadline :: bool
  p_elapsed :: duration

record 'w os =
  o_GOOS :: string
  o_run :: "string list \<Rightarrow> duration \<Rightarrow> 'w \<Rightarrow> proc \<times> 'w"

definition shell :: "'w os \<Rightarrow> string list" where
  "shell os = (if o_GOOS os = ''windows'' then [''cmd'', ''/C''] else [''sh'', ''-c''])"

fun exitCode :: "exec_error \<Rightarrow> int" where
  "exitCode (ExitError c) = c"
| "exitCode OtherError = - 1"

definition classify :: "duration \<Rightarrow> proc \<Rightarrow> exec_result" where
  "classify timeout p =
     (let res = \<lparr>x_Outcome = [], x_ExitCode = 0, x_Stdout = p_stdout p, x_Stderr = p_stderr p,
            x_DurationMS = p_elapsed p div 1000000\<rparr>
      in if p_deadline p then
           res\<lparr>x_Outcome := TimedOut, x_ExitCode := - 1,
             x_Stderr := x_Stderr res @ char_of (10 :: nat) # ''[orbix] command exceeded timeout of '' @ duration_String timeout\<rparr>
         else case p_err p of
           Some err \<Rightarrow>
             let code = exitCode err
             in res\<lparr>x_Outcome := Failed, x_ExitCode := (if code \<ge> 0 then code else - 1)\<rparr>
         | None \<Rightarrow> res\<lparr>x_Outcome := Success\<rparr>)"

definition Run :: "'w os \<Rightarrow> string \<Rightarrow> duration \<Rightarrow> 'w \<Rightarrow> exec_result \<times> 'w" where
  "Run os command timeout w =
     (let timeout = (if timeout \<le> 0 then 60 * Second else timeout);
          (p, w1) = o_run os (shell os @ [command]) timeout w
      in (classify timeout p, w1))"

subsection \<open>The worker: worker.go\<close>

record 'w worker =
  wk_queue :: "'w queue"
  wk_nodeID :: string
  wk_maxConc :: int
  wk_slots :: int

definition New_worker :: "'w queue \<Rightarrow> string \<Rightarrow> int \<Rightarrow> 'w worker" where
  "New_worker q nodeID maxConc = \<lparr>wk_queue = q, wk_nodeID = nodeID,
     wk_maxConc = (if maxConc < 1 then 1 else maxConc), wk_slots = 0\<rparr>"

definition Busy :: "'w worker \<Rightarrow> int" where
  "Busy wk = wk_slots wk"

definition truncate_out :: "string \<Rightarrow> nat \<Rightarrow> string" where
  "truncate_out s n = (if length s \<le> n then s else take n s @ map char_of [226 :: nat, 128, 166] @ ''[truncated]'')"

definition runResult :: "'w worker \<Rightarrow> ticket \<Rightarrow> instant \<Rightarrow> instant \<Rightarrow> exec_result \<Rightarrow> result" where
  "runResult wk t start finished res =
     \<lparr>r_JobID = t_JobID t, r_SchedAt = t_SchedAt t, r_Attempt = t_Attempt t, r_NodeID = wk_nodeID wk,
      r_Status = (if x_Outcome res = TimedOut then StatusTimeout
                  else if x_Outcome res = Success then StatusSuccess else StatusFailed),
      r_ExitCode = x_ExitCode res, r_StartedAt = Format_RFC3339 start, r_FinishedAt = Format_RFC3339 finished,
      r_DurationMS = x_DurationMS res, r_Stdout = truncate_out (x_Stdout res) 8192,
      r_Stderr = truncate_out (x_Stderr res) 8192\<rparr>"

definition runTicket :: "'w worker \<Rightarrow> 'w os \<Rightarrow> ticket \<Rightarrow> 'w \<Rightarrow> result \<times> 'w" where
  "runTicket wk os t w =
     (let cli = q_cli (wk_queue wk);
          (start, w1) = w_now cli w;
          timeout = wrap64 (t_TimeoutSec t * Second);
          (res, w2) = Run os (t_Command t) timeout w1;
          (finished, w3) = w_now cli w2
      in (runResult wk t start finished res, w3))"

definition report :: "'w worker \<Rightarrow> ticket \<Rightarrow> result \<Rightarrow> 'w \<Rightarrow> (gerr + unit) \<times> 'w" where
  "report wk t outcome w =
     (if r_Status outcome = StatusSuccess then FinishSuccess (wk_queue wk) t outcome w
      else let (now, w1) = w_now (q_cli (wk_queue wk)) w
           in FinishFailure (wk_queue wk) t outcome now w1)"

definition execute :: "'w worker \<Rightarrow> 'w os \<Rightarrow> ticket \<Rightarrow> 'w \<Rightarrow> (gerr + unit) \<times> 'w" where
  "execute wk os t w = (let (outcome, w1) = runTicket wk os t w in report wk t outcome w1)"

text \<open>One turn of the claim loop, when nothing interleaves with it: the ticket whose goroutine is to be
  started, if any.\<close>

definition tryClaim :: "'w worker \<Rightarrow> 'w \<Rightarrow> (ticket option res \<times> 'w worker) \<times> 'w" where
  "tryClaim wk w =
     (if wk_maxConc wk - wk_slots wk \<le> 0 then ((Ok None, wk), w)
      else let (now, w1) = w_now (q_cli (wk_queue wk)) w
           in case ClaimNext (wk_queue wk) now w1 of
                (Panic, w2) \<Rightarrow> ((Panic, wk), w2)
              | (Err err, w2) \<Rightarrow> ((Ok None, wk), w2)
              | (Ok None, w2) \<Rightarrow> ((Ok None, wk), w2)
              | (Ok (Some t), w2) \<Rightarrow> ((Ok (Some t), wk\<lparr>wk_slots := wrap64 (wk_slots wk + 1)\<rparr>), w2))"

subsection \<open>The goroutines\<close>

text \<open>The claim loop is between turns, has read the number of free slots, has claimed a ticket and is
  about to take a slot, or has stopped; a panic ends the process.  A goroutine is about to run its
  ticket, has run it, or has reported the outcome and is about to give its slot back.\<close>

datatype phase = Idle | Checked | Claimed ticket | Stopped | Drained | Crashed

datatype goroutine = Started ticket | Ran ticket result | Over

record 'w wstate =
  ws_worker :: "'w worker"
  ws_phase :: phase
  ws_gos :: "goroutine list"
  ws_world :: 'w

definition claimCall :: "'w wstate \<Rightarrow> ticket option res \<times> 'w" where
  "claimCall s = (let (now, w1) = w_now (q_cli (wk_queue (ws_worker s))) (ws_world s)
     in ClaimNext (wk_queue (ws_worker s)) now w1)"

inductive worker_step :: "'w os \<Rightarrow> 'w wstate \<Rightarrow> 'w wstate \<Rightarrow> bool" for os where
  check: "ws_phase s = Idle \<Longrightarrow> wk_maxConc (ws_worker s) - wk_slots (ws_worker s) > 0 \<Longrightarrow>
    worker_step os s (s\<lparr>ws_phase := Checked\<rparr>)"
| nothing: "ws_phase s = Checked \<Longrightarrow> claimCall s = (r, w') \<Longrightarrow> r = Ok None \<or> (\<exists>err. r = Err err) \<Longrightarrow>
    worker_step os s (s\<lparr>ws_phase := Idle, ws_world := w'\<rparr>)"
| claim: "ws_phase s = Checked \<Longrightarrow> claimCall s = (Ok (Some t), w') \<Longrightarrow>
    worker_step os s (s\<lparr>ws_phase := Claimed t, ws_world := w'\<rparr>)"
| crash: "ws_phase s = Checked \<Longrightarrow> claimCall s = (Panic, w') \<Longrightarrow>
    worker_step os s (s\<lparr>ws_phase := Crashed, ws_gos := [], ws_world := w'\<rparr>)"
| start: "ws_phase s = Claimed t \<Longrightarrow>
    worker_step os s (s\<lparr>ws_phase := Idle, ws_gos := ws_gos s @ [Started t],
      ws_worker := (ws_worker s)\<lparr>wk_slots := wrap64 (wk_slots (ws_worker s) + 1)\<rparr>\<rparr>)"
| run: "ws_gos s = gs @ Started t # gs' \<Longrightarrow> runTicket (ws_worker s) os t (ws_world s) = (outcome, w') \<Longrightarrow>
    worker_step os s (s\<lparr>ws_gos := gs @ Ran t outcome # gs', ws_world := w'\<rparr>)"
| finish: "ws_gos s = gs @ Ran t outcome # gs' \<Longrightarrow> report (ws_worker s) t outcome (ws_world s) = (r, w') \<Longrightarrow>
    worker_step os s (s\<lparr>ws_gos := gs @ Over # gs', ws_world := w'\<rparr>)"
| release: "ws_gos s = gs @ Over # gs' \<Longrightarrow>
    worker_step os s (s\<lparr>ws_gos := gs @ gs',
      ws_worker := (ws_worker s)\<lparr>wk_slots := wrap64 (wk_slots (ws_worker s) - 1)\<rparr>\<rparr>)"
| cancel: "ws_phase s = Idle \<Longrightarrow> worker_step os s (s\<lparr>ws_phase := Stopped\<rparr>)"
| drain: "ws_phase s = Stopped \<Longrightarrow> worker_step os s (s\<lparr>ws_phase := Drained\<rparr>)"

inductive_cases worker_stepE: "worker_step os s s'"

text \<open>\<open>Drain\<close> returns when the wait group is empty or when its time is up; \<open>drained\<close> tells which.\<close>

definition drained :: "'w wstate \<Rightarrow> bool" where
  "drained s \<longleftrightarrow> ws_gos s = []"

definition initial_worker :: "'w worker \<Rightarrow> 'w \<Rightarrow> 'w wstate" where
  "initial_worker wk w = \<lparr>ws_worker = wk, ws_phase = Idle, ws_gos = [], ws_world = w\<rparr>"

text \<open>The invariant: the slots count the goroutines, and with the turn in progress they stay within the
  limit; nothing runs after a crash.\<close>

definition in_turn :: "phase \<Rightarrow> bool" where
  "in_turn p \<longleftrightarrow> (case p of Checked \<Rightarrow> True | Claimed _ \<Rightarrow> True | _ \<Rightarrow> False)"

definition worker_inv :: "'w wstate \<Rightarrow> bool" where
  "worker_inv s \<longleftrightarrow>
     (if ws_phase s = Crashed then ws_gos s = []
      else wk_slots (ws_worker s) = int (length (ws_gos s)) \<and>
        wk_slots (ws_worker s) + (if in_turn (ws_phase s) then 1 else 0) \<le> wk_maxConc (ws_worker s)) \<and>
     wk_maxConc (ws_worker s) \<le> max_int64"

lemma worker_inv_step: "worker_step os s s' \<Longrightarrow> worker_inv s \<Longrightarrow> worker_inv s'"
proof (induction rule: worker_step.induct)
  case (start s t)
  then have "is_int64 (wk_slots (ws_worker s) + 1)" by (simp add: worker_inv_def in_turn_def int64_defs)
  with start show ?case by (simp add: worker_inv_def in_turn_def wrap64_id)
next
  case (release s gs gs')
  then have "ws_phase s \<noteq> Crashed" by (auto simp: worker_inv_def)
  with release have "is_int64 (wk_slots (ws_worker s) - 1)" by (auto simp: worker_inv_def int64_defs split: if_splits)
  with release show ?case by (auto simp: worker_inv_def wrap64_id split: if_splits)
qed (auto simp: worker_inv_def in_turn_def split: if_splits)

lemma worker_inv_steps: "(worker_step os)\<^sup>*\<^sup>* s s' \<Longrightarrow> worker_inv s \<Longrightarrow> worker_inv s'"
  by (induction rule: rtranclp_induct) (auto intro: worker_inv_step)

lemma worker_steps_maxConc: "(worker_step os)\<^sup>*\<^sup>* s s' \<Longrightarrow> wk_maxConc (ws_worker s') = wk_maxConc (ws_worker s)"
  by (induction rule: rtranclp_induct) (auto elim!: worker_stepE)

lemma initial_worker_inv:
  "is_int64 maxConc \<Longrightarrow> worker_inv (initial_worker (New_worker q n maxConc) w)"
  by (simp add: worker_inv_def initial_worker_def New_worker_def int64_defs in_turn_def)

text \<open>A turn of the claim loop that nothing interleaves with is the turn the steps describe.\<close>

lemma tryClaim_steps:
  assumes "ws_phase s = Idle" "tryClaim (ws_worker s) (ws_world s) = ((Ok ot, wk'), w')"
  shows "(worker_step os)\<^sup>*\<^sup>* s
     (s\<lparr>ws_worker := wk', ws_world := w', ws_gos := ws_gos s @ (case ot of None \<Rightarrow> [] | Some t \<Rightarrow> [Started t])\<rparr>)"
proof (cases "wk_maxConc (ws_worker s) - wk_slots (ws_worker s) \<le> 0")
  case True
  with assms have "ot = None" "wk' = ws_worker s" "w' = ws_world s" by (auto simp: tryClaim_def)
  then show ?thesis by (cases s) simp
next
  case False
  let ?c = "s\<lparr>ws_phase := Checked\<rparr>"
  have c: "worker_step os s ?c" using False assms(1) by (simp add: worker_step.check)
  obtain r w2 where r: "claimCall s = (r, w2)" by fastforce
  have rc: "claimCall ?c = (r, w2)" using r by (simp add: claimCall_def)
  show ?thesis
  proof (cases "\<exists>t. r = Ok (Some t)")
    case True
    then obtain t where t: "r = Ok (Some t)" by blast
    let ?d = "?c\<lparr>ws_phase := Claimed t, ws_world := w2\<rparr>"
    have "worker_step os ?c ?d" using rc t by (intro worker_step.claim) simp_all
    moreover have "worker_step os ?d (?d\<lparr>ws_phase := Idle, ws_gos := ws_gos ?d @ [Started t],
      ws_worker := (ws_worker ?d)\<lparr>wk_slots := wrap64 (wk_slots (ws_worker ?d) + 1)\<rparr>\<rparr>)"
      by (intro worker_step.start) simp
    ultimately have "(worker_step os)\<^sup>*\<^sup>* s (?d\<lparr>ws_phase := Idle, ws_gos := ws_gos ?d @ [Started t],
      ws_worker := (ws_worker ?d)\<lparr>wk_slots := wrap64 (wk_slots (ws_worker ?d) + 1)\<rparr>\<rparr>)"
      using c by (meson converse_rtranclp_into_rtranclp r_into_rtranclp)
    moreover have "ot = Some t" "wk' = (ws_worker s)\<lparr>wk_slots := wrap64 (wk_slots (ws_worker s) + 1)\<rparr>" "w' = w2"
      using assms(2) False r t by (auto simp: tryClaim_def claimCall_def Let_def split: prod.splits)
    ultimately show ?thesis using assms(1) by (cases s) simp
  next
    case other: False
    then have n: "ot = None" "wk' = ws_worker s" "w' = w2" "r = Ok None \<or> (\<exists>err. r = Err err)"
      using assms(2) False r
      by (auto simp: tryClaim_def claimCall_def Let_def split: prod.splits res.splits option.splits)
    then have "worker_step os ?c (?c\<lparr>ws_phase := Idle, ws_world := w2\<rparr>)"
      using rc by (intro worker_step.nothing) simp_all
    then have "(worker_step os)\<^sup>*\<^sup>* s (?c\<lparr>ws_phase := Idle, ws_world := w2\<rparr>)"
      using c by (meson converse_rtranclp_into_rtranclp r_into_rtranclp)
    with n assms(1) show ?thesis by (cases s) simp
  qed
qed


subsection \<open>The worker in its environment\<close>

text \<open>What settling a ticket means, from the state \<open>u\<close> the outcome is reported in to the next: the
  result is published, and when the claim is still the node's, the claim and the lock are gone and the
  ticket is gone too, or back in the queue with its back-off when it may be tried again.\<close>

definition settles :: "string \<Rightarrow> ticket \<Rightarrow> result \<Rightarrow> instant \<Rightarrow> est \<Rightarrow> est \<Rightarrow> bool" where
  "settles node t outcome now u u' \<longleftrightarrow>
     (let success = (r_Status outcome = StatusSuccess) in
      val_at u' (ResultKey t) = Some (marshal_result (if success then outcome else failure_result t outcome)) \<and>
      (if val_at u (ClaimedKey t) = Some (Text node)
       then kv_at u' (ClaimedKey t) = None \<and> (t_NoOverlap t \<longrightarrow> kv_at u' (OverlapKey (t_JobID t)) = None) \<and>
         val_at u' (PendingKey t) =
           (if success \<or> t_Attempt t > t_MaxRetries t then None else Some (marshal_ticket (retry_ticket t now)))
       else (\<forall>k. k \<noteq> ResultKey t \<longrightarrow> kv_at u' k = kv_at u k)))"

text \<open>The contract: the queue's surroundings, and an operating system that runs the command without
  writing to the store on the scheduler's behalf.\<close>

locale worker_env = queue_env "wk_queue wk" view rely
  for wk :: "'w worker" and view :: "'w \<Rightarrow> est" and rely :: "est \<Rightarrow> est \<Rightarrow> bool" +
  fixes os :: "'w os"
  assumes run_rely: "rely (view w) (view (snd (o_run os argv d w)))"
begin

lemma Run_rely: "rely (view w) (view (snd (Run os c d w)))"
  using run_rely by (simp add: Run_def Let_def split_def)

lemma runTicket_rely: "runTicket wk os t w = (outcome, w') \<Longrightarrow> rely (view w) (view w')"
proof -
  assume a: "runTicket wk os t w = (outcome, w')"
  let ?c = "q_cli (wk_queue wk)" and ?d = "wrap64 (t_TimeoutSec t * Second)"
  let ?w1 = "snd (w_now ?c w)"
  let ?w2 = "snd (Run os (t_Command t) ?d ?w1)"
  have "rely (view w) (view ?w1)" by (rule now)
  also have "rely (view ?w1) (view ?w2)" by (rule Run_rely)
  also have "rely (view ?w2) (view (snd (w_now ?c ?w2)))" by (rule now)
  finally show ?thesis using a by (auto simp: runTicket_def Let_def split_def)
qed

lemma report_settles:
  assumes "report wk t outcome w = (Inr x, w')"
  shows "\<exists>u u' now. rely (view w) u \<and> rely u' (view w') \<and> settles (q_nodeID (wk_queue wk)) t outcome now u u'"
proof (cases "r_Status outcome = StatusSuccess")
  case True
  with assms have "FinishSuccess (wk_queue wk) t outcome w = (Inr x, w')" by (simp add: report_def)
  from FinishSuccess_outcome [OF this] True show ?thesis by (fastforce simp: settles_def)
next
  case False
  obtain now w1 where w1: "w_now (q_cli (wk_queue wk)) w = (now, w1)" by fastforce
  with False assms have f: "FinishFailure (wk_queue wk) t outcome now w1 = (Inr x, w')" by (simp add: report_def)
  have r: "rely (view w) (view w1)" using now [of w] w1 by simp
  from FinishFailure_outcome [OF f] obtain u u' where u: "rely (view w1) u" "rely u' (view w')"
    "settles (q_nodeID (wk_queue wk)) t outcome now u u'" using False by (auto simp: settles_def)
  from r u(1) have "rely (view w) u" by (rule rely_trans)
  with u show ?thesis by blast
qed

lemma execute_settles:
  assumes "execute wk os t w = (Inr x, w')"
  shows "\<exists>u u' now outcome. rely (view w) u \<and> rely u' (view w') \<and> outcome = fst (runTicket wk os t w) \<and>
    settles (q_nodeID (wk_queue wk)) t outcome now u u'"
proof -
  obtain outcome w1 where w1: "runTicket wk os t w = (outcome, w1)" by fastforce
  with assms have "report wk t outcome w1 = (Inr x, w')" by (simp add: execute_def)
  from report_settles [OF this] obtain u u' now where u: "rely (view w1) u" "rely u' (view w')"
    "settles (q_nodeID (wk_queue wk)) t outcome now u u'" by blast
  from runTicket_rely [OF w1] u(1) have "rely (view w) u" by (rule rely_trans)
  with u w1 show ?thesis by auto
qed

end
subsection \<open>The worker follows the queue's protocol\<close>

text \<open>The tickets a worker holds are ones the protocol allows, so every step of the claim loop and of the
  goroutines moves the store by steps of the protocol only.\<close>

fun go_allowed :: "(int \<Rightarrow> bool) \<Rightarrow> goroutine \<Rightarrow> bool" where
  "go_allowed P (Started t) = allowed P t"
| "go_allowed P (Ran t outcome) = allowed P t"
| "go_allowed P Over = True"

definition holds_allowed :: "(int \<Rightarrow> bool) \<Rightarrow> 'w wstate \<Rightarrow> bool" where
  "holds_allowed P s \<longleftrightarrow> (\<forall>t. ws_phase s = Claimed t \<longrightarrow> allowed P t) \<and> list_all (go_allowed P) (ws_gos s)"

locale worker_protocol = queue_protocol q view rely P
  for q :: "'w queue" and view :: "'w \<Rightarrow> est" and rely :: "est \<Rightarrow> est \<Rightarrow> bool" and P :: "int \<Rightarrow> bool" +
  fixes os :: "'w os"
  assumes os_rely: "rely (view w) (view (snd (o_run os argv d w)))"
begin

lemma as_worker_env: "wk_queue wk = q \<Longrightarrow> worker_env wk view rely os"
  using queue_env_axioms os_rely by (simp add: worker_env_def worker_env_axioms_def)

lemma claimCall_steps:
  assumes "claimCall s = (r, w')" "wk_queue (ws_worker s) = q" "queue_inv P (view (ws_world s))"
  shows "rely (view (ws_world s)) (view w') \<and> (\<forall>t. r = Ok (Some t) \<longrightarrow> allowed P t)"
proof -
  obtain n w1 where n: "w_now (q_cli q) (ws_world s) = (n, w1)" by (cases "w_now (q_cli q) (ws_world s)")
  have w1: "rely (view (ws_world s)) (view w1)" using now [of "ws_world s"] n by simp
  have i: "queue_inv P (view w1)" using queue_inv_steps [OF follow [OF w1] assms(3)] .
  have c: "ClaimNext q n w1 = (r, w')" using assms(1,2) n by (simp add: claimCall_def)
  have "wf_est (view w1)" using i by (simp add: queue_inv_def)
  then have "rely (view w1) (view w')" using ClaimNext_steps [of w1 n] c by simp
  then show ?thesis using rely_trans [OF w1] ClaimNext_allowed [of n w1] c i by blast
qed

lemma report_steps:
  assumes "report wk t outcome w = (r, w')" "wk_queue wk = q" "allowed P t"
  shows "rely (view w) (view w')"
proof -
  obtain n w1 where n: "w_now (q_cli q) w = (n, w1)" by (cases "w_now (q_cli q) w")
  have "rely (view w) (view w1)" using now [of w] n by simp
  then have "rely (view w) (view (snd (FinishFailure q t outcome n w1)))"
    using FinishFailure_steps [OF assms(3)] rely_trans by blast
  then show ?thesis
    using FinishSuccess_steps [of w t outcome] assms(1,2) n by (auto simp: report_def split: if_splits)
qed

lemma worker_step_refines:
  assumes "worker_step os s s'" "wk_queue (ws_worker s) = q" "queue_inv P (view (ws_world s))" "holds_allowed P s"
  shows "rely (view (ws_world s)) (view (ws_world s')) \<and> holds_allowed P s' \<and> wk_queue (ws_worker s') = q"
  using assms
proof (induction rule: worker_step.induct)
  case (run s gs t gs' outcome w')
  then have "rely (view (ws_world s)) (view w')" using worker_env.runTicket_rely [OF as_worker_env] by blast
  with run show ?case by (simp add: holds_allowed_def)
next
  case (finish s gs t outcome gs' r w')
  then have "rely (view (ws_world s)) (view w')" by (intro report_steps) (auto simp: holds_allowed_def)
  with finish show ?case by (simp add: holds_allowed_def)
qed (auto simp: holds_allowed_def dest: claimCall_steps)

end

subsection \<open>A local worker\<close>

text \<open>A worker over the in-memory store, with an operating system that answers every command from a
  table.\<close>

definition table_os :: "(string list \<Rightarrow> duration \<Rightarrow> proc) \<Rightarrow> 'w os" where
  "table_os f = \<lparr>o_GOOS = ''linux'', o_run = (\<lambda>argv d w. (f argv d, w))\<rparr>"

definition local_worker :: "string \<Rightarrow> int \<Rightarrow> int \<Rightarrow> unit mem worker" where
  "local_worker n l maxConc = New_worker (local_queue n l) n maxConc"

lemma local_worker_sel [simp]: "wk_queue (local_worker n l c) = local_queue n l" "wk_nodeID (local_worker n l c) = n"
  by (simp_all add: local_worker_def New_worker_def)

lemma local_worker_env: "env_ok rely \<Longrightarrow> worker_env (local_worker n l c) mem_store rely (table_os f)"
  using local_queue_env [of rely n l]
  by (auto simp: worker_env_def worker_env_axioms_def table_os_def env_ok_def reflp_def)

interpretation lw: worker_env "local_worker n l c" mem_store "(=)" "table_os f" for n l c f
  by (rule local_worker_env) (rule env_ok_eq)

interpretation lwp: worker_protocol "local_queue n l" mem_store "(queue_step P)\<^sup>*\<^sup>*" P "table_os f" for n l P f
  by (intro worker_protocol.intro local_queue_protocol worker_protocol_axioms.intro) (simp add: table_os_def)

text \<open>The result a run publishes carries the ticket's identity, the outcome the executor decided, and at
  most eight kilobytes of each stream.\<close>

lemma length_truncate_out: "length (truncate_out s n) \<le> n + 14"
  by (simp add: truncate_out_def)

lemma runTicket_result:
  "runTicket wk os t w = (r, w') \<Longrightarrow>
     r_JobID r = t_JobID t \<and> r_SchedAt r = t_SchedAt t \<and> r_Attempt r = t_Attempt t \<and> r_NodeID r = wk_nodeID wk \<and>
     r_Status r \<in> {StatusSuccess, StatusFailed, StatusTimeout} \<and>
     length (r_Stdout r) \<le> 8206 \<and> length (r_Stderr r) \<le> 8206"
  using length_truncate_out [of _ 8192]
  by (auto simp: runTicket_def runResult_def Let_def split: prod.splits)


text \<open>Without interference the store stays quiet through a claim and a run.\<close>

lemma mem_script_quiet:
  "mem_txn env cs ts es m = (r, m') \<Longrightarrow> mem_script m = [] \<Longrightarrow> mem_script m' = []"
  "mem_get env k opt m = (g, m') \<Longrightarrow> mem_script m = [] \<Longrightarrow> mem_script m' = []"
  by (auto simp: mem_txn_def mem_get_def next_entry_def Let_def split: prod.splits if_splits)

lemma claim_script: "claim (local_queue n l) kv t m = (r, m') \<Longrightarrow> mem_script m = [] \<Longrightarrow> mem_script m' = []"
  by (auto simp: claim_def split: sum.splits prod.splits if_splits dest: mem_script_quiet)

lemma skip_script:
  "overlapHeld (local_queue n l) j m = (b, m') \<Longrightarrow> mem_script m = [] \<Longrightarrow> mem_script m' = []"
  "skipStale (local_queue n l) kv t m = (r, m') \<Longrightarrow> mem_script m = [] \<Longrightarrow> mem_script m' = []"
  by (auto simp: overlapHeld_def skipStale_def split: sum.splits prod.splits dest: mem_script_quiet)

lemma claimScan_script:
  "claimScan (local_queue n l) now kvs m = (r, m') \<Longrightarrow> mem_script m = [] \<Longrightarrow> mem_script m' = []"
  by (induction kvs arbitrary: m)
    (auto split: prod.splits sum.splits if_splits option.splits res.splits bool.splits dest!: claim_script skip_script)

lemma ClaimNext_script:
  "ClaimNext (local_queue n l) now m = (r, m') \<Longrightarrow> mem_script m = [] \<Longrightarrow> mem_script m' = []"
  by (auto simp: ClaimNext_def split: prod.splits sum.splits dest: mem_script_quiet claimScan_script)

lemma report_quiet:
  assumes "mem_script m = []"
  shows "\<exists>m'. report (local_worker n l c) t outcome m = (Inr (), m')"
proof -
  have "leases_ok st (failure_ops t outcome now)" "leases_ok st (success_ops t outcome)" for st now
    by (auto simp: leases_ok_def failure_ops_def success_ops_def overlapRelease_def Let_def NoLease_def)
  moreover have "leases_ok st [OpPut k d NoLease]" for st k d by (simp add: leases_ok_def)
  ultimately show ?thesis
    using assms by (auto simp: report_def FinishSuccess_def FinishFailure_def mem_txn_quiet)
qed

lemma claim_turn:
  assumes "mem_script m = []" "queue_inv P (mem_store m)" "live_lease (mem_store m) l"
    and "find (claimable (mem_store m) now) (take 64 (prefix_kvs (mem_store m) PendingPrefix)) = Some kv"
    and "unmarshal_ticket (kv_value kv) = Some t"
  shows "\<exists>m'. ClaimNext (local_queue n l) now m = (Ok (Some (bump t)), m') \<and> mem_script m' = [] \<and>
    val_at (mem_store m') (ClaimedKey t) = Some (Text n) \<and> ticket_int64 (bump t)"
proof -
  have wf: "wf_est (mem_store m)" and ty: "typed_pending P (mem_store m)" using assms(2) by (auto simp: queue_inv_def)
  have "fst (ClaimNext (local_queue n l) now m) = Ok (Some (bump t))"
    using ClaimNext_quiet [OF assms(1) wf assms(3), of n now] assms(4,5) by simp
  then obtain m' where m': "ClaimNext (local_queue n l) now m = (Ok (Some (bump t)), m')" by (metis prod.collapse)
  from lq.ClaimNext_claims [OF m' wf] obtain kv' t' x where c: "HasPrefix (kv_key kv') PendingPrefix"
    "claimed_at n now kv' t' x (mem_store m')" "bump t = bump t'" by auto
  have "kv \<in> set (prefix_kvs (mem_store m) PendingPrefix)"
    using assms(4) by (auto simp: find_Some_iff intro: in_set_takeD)
  then have "kv_at (mem_store m) (kv_key kv) = Some kv" "HasPrefix (kv_key kv) PendingPrefix"
    using wf_mem_kv_at [OF wf] by (auto simp: prefix_kvs_def)
  then have "ticket_int64 t" using typed_pendingD [OF ty _ _ assms(5)] by (auto simp: allowed_def)
  then have i: "ticket_int64 (bump t)" using allowed_bump [of "\<lambda>_. False" t] by (simp add: allowed_def)
  have "(queue_step P)\<^sup>*\<^sup>* (mem_store m) (mem_store m')"
    using lqp.ClaimNext_steps [of m P n l now] wf m' by simp
  then have ty': "typed_pending P (mem_store m')" using queue_inv_steps assms(2) by (auto simp: queue_inv_def)
  obtain kv2 where kv2: "kv_at (mem_store m') (kv_key kv') = Some kv2" "kv_value kv2 = marshal_ticket (bump t)"
    using c(2,3) by (auto simp: claimed_at_def val_at_def)
  then have "kv_key kv' = PendingKey (bump t)"
    using typed_pendingD [OF ty' kv2(1) c(1)] unmarshal_marshal_ticket [OF i] by auto
  then have "claim_key kv' = ClaimedKey t" by (simp add: PendingKey_eq)
  then have "val_at (mem_store m') (ClaimedKey t) = Some (Text n)" using c(2) by (simp add: claimed_at_def)
  with m' i ClaimNext_script [OF m' assms(1)] show ?thesis by blast
qed


lemma run_turn:
  assumes "ws_gos s = [Started t]" "ws_worker s = wk\<lparr>wk_slots := 1\<rparr>" "wk_slots wk = 0"
    and "execute (ws_worker s) os t (ws_world s) = (r, w')"
  shows "(worker_step os)\<^sup>*\<^sup>* s (s\<lparr>ws_gos := [], ws_worker := wk, ws_world := w'\<rparr>)"
proof -
  obtain outcome w1 where 1: "runTicket (ws_worker s) os t (ws_world s) = (outcome, w1)" by fastforce
  let ?b = "s\<lparr>ws_gos := [Ran t outcome], ws_world := w1\<rparr>"
  let ?c = "?b\<lparr>ws_gos := [Over], ws_world := w'\<rparr>"
  let ?d = "?c\<lparr>ws_gos := [], ws_worker := (ws_worker ?c)\<lparr>wk_slots := wrap64 (wk_slots (ws_worker ?c) - 1)\<rparr>\<rparr>"
  have "worker_step os s ?b" using worker_step.run [of s "[]" t "[]" os outcome w1] 1 assms(1) by simp
  moreover have "worker_step os ?b ?c"
    using worker_step.finish [of ?b "[]" t outcome "[]" r w' os] 1 assms(4) by (simp add: execute_def)
  moreover have "worker_step os ?c ?d" using worker_step.release [of ?c "[]" "[]" os] by simp
  moreover have "?d = s\<lparr>ws_gos := [], ws_worker := wk, ws_world := w'\<rparr>"
    using assms(2,3) by (cases s; cases wk) (simp add: int64_defs)
  ultimately show ?thesis by (metis (no_types, lifting) converse_rtranclp_into_rtranclp r_into_rtranclp)
qed


text \<open>An operating system on which every command ends at once, with the given error.\<close>

definition exits :: "exec_error option \<Rightarrow> string list \<Rightarrow> duration \<Rightarrow> proc" where
  "exits e argv d = \<lparr>p_stdout = [], p_stderr = [], p_err = e, p_deadline = False, p_elapsed = 0\<rparr>"

subsection \<open>Properties\<close>

text \<open>C16. The worker keeps within its limit: whatever the claims, the runs and the reports of its
  goroutines interleave to, there are never more goroutines than the configured number (at least one),
  and the slot count the status page shows is their number until the process dies.\<close>

theorem worker_slots_bounded:
  assumes "is_int64 maxConc" "(worker_step os)\<^sup>*\<^sup>* (initial_worker (New_worker q n maxConc) w) s"
  shows "int (length (ws_gos s)) \<le> (if maxConc < 1 then 1 else maxConc) \<and>
    (ws_phase s \<noteq> Crashed \<longrightarrow> Busy (ws_worker s) = int (length (ws_gos s)))"
proof -
  have i: "worker_inv s" using worker_inv_steps [OF assms(2) initial_worker_inv] assms(1) by blast
  have "wk_maxConc (ws_worker s) = (if maxConc < 1 then 1 else maxConc)"
    using worker_steps_maxConc [OF assms(2)] by (simp add: initial_worker_def New_worker_def)
  with i show ?thesis by (auto simp: worker_inv_def Busy_def split: if_splits)
qed

lemma first_check: "(worker_step os)\<^sup>*\<^sup>* (initial_worker (New_worker q n 0) w)
    ((initial_worker (New_worker q n 0) w)\<lparr>ws_phase := Checked\<rparr>)"
  by (intro r_into_rtranclp worker_step.check) (simp_all add: initial_worker_def New_worker_def)

theorem worker_slots_bounded_witness:
  "Busy (ws_worker ((initial_worker (New_worker (local_queue ''n1'' 7) ''n1'' 0) (mem_of empty_store 0))\<lparr>ws_phase := Checked\<rparr>)) = 0"
  using worker_slots_bounded [OF _ first_check [of "table_os (exits None)" "local_queue ''n1'' 7" "''n1''" "mem_of empty_store 0"]]
  by (simp add: int64_defs initial_worker_def)

text \<open>C17. What a goroutine does to the store: when \<open>execute\<close> returns without an error there was a moment
  at which the outcome of the run was settled: the result published and, if the claim was still this
  node's, the claim and the lock removed and the ticket removed or, after a failure that may be tried
  again, put back with its back-off; if it was not, nothing but the result was written.  The result
  carries the ticket's identity and at most 8192 bytes and a marker of each output stream.\<close>

theorem execute_settles_ticket:
  assumes "worker_env wk view rely os" "execute wk os t w = (Inr x, w')"
  shows "\<exists>u u' now outcome. rely (view w) u \<and> rely u' (view w') \<and>
    settles (q_nodeID (wk_queue wk)) t outcome now u u' \<and>
    r_JobID outcome = t_JobID t \<and> r_SchedAt outcome = t_SchedAt t \<and> r_Attempt outcome = t_Attempt t \<and>
    r_NodeID outcome = wk_nodeID wk \<and> r_Status outcome \<in> {StatusSuccess, StatusFailed, StatusTimeout} \<and>
    length (r_Stdout outcome) \<le> 8206 \<and> length (r_Stderr outcome) \<le> 8206"
proof -
  obtain r w1 where r: "runTicket wk os t w = (r, w1)" by fastforce
  from worker_env.execute_settles [OF assms] runTicket_result [OF r] r show ?thesis by auto
qed

lemma execute_demo: "\<exists>m. execute (local_worker ''n1'' 7 1) (table_os (exits None)) (bump demo_ticket) (mem_of claimed_store 0) = (Inr (), m)"
proof -
  obtain r m1 where r: "runTicket (local_worker ''n1'' 7 1) (table_os (exits None)) (bump demo_ticket) (mem_of claimed_store 0) = (r, m1)"
    by fastforce
  then have "mem_script m1 = []"
    by (auto simp: runTicket_def Run_def table_os_def Let_def)
  with report_quiet [of m1 "''n1''" 7 1 "bump demo_ticket" r] r show ?thesis by (auto simp: execute_def)
qed

theorem execute_settles_ticket_witness:
  "\<exists>m r. execute (local_worker ''n1'' 7 1) (table_os (exits None)) (bump demo_ticket) (mem_of claimed_store 0) = (Inr (), m) \<and>
     val_at (mem_store m) (ResultKey (bump demo_ticket)) = Some (marshal_result r)"
proof -
  obtain m where m: "execute (local_worker ''n1'' 7 1) (table_os (exits None)) (bump demo_ticket) (mem_of claimed_store 0) = (Inr (), m)"
    using execute_demo by blast
  from execute_settles_ticket [OF local_worker_env [OF env_ok_eq] m] m show ?thesis by (auto simp: settles_def Let_def)
qed


lemma bump_run [simp]: "t_TimeoutSec (bump t) = t_TimeoutSec t" "t_Command (bump t) = t_Command t" "t_MaxRetries (bump t) = t_MaxRetries t"
  by (simp_all add: bump_def)

text \<open>What the operating system reports fits 64 bits.\<close>

definition proc_int64 :: "proc \<Rightarrow> bool" where
  "proc_int64 p \<longleftrightarrow> is_int64 (p_elapsed p) \<and> (\<forall>c. p_err p = Some (ExitError c) \<longrightarrow> is_int64 c)"

lemma runTicket_table:
  assumes "mem_script m = []" "is_int64 (t_TimeoutSec t * Second)"
    and "wk_queue wk = local_queue n l" "p = f [''sh'', ''-c'', t_Command t] (if t_TimeoutSec t \<le> 0 then 60 * Second else t_TimeoutSec t * Second)"
  shows "\<exists>outcome m'. runTicket wk (table_os f) t m = (outcome, m') \<and> mem_script m' = [] \<and> mem_store m' = mem_store m \<and>
    r_Status outcome = (if p_deadline p then StatusTimeout else if p_err p = None then StatusSuccess else StatusFailed)"
  using assms
  by (auto simp: runTicket_def Run_def table_os_def shell_def wrap64_id runResult_def classify_def Let_def mult_le_0_iff split: option.splits)

lemma runTicket_int64:
  assumes "runTicket wk (table_os f) t m = (outcome, m')" "ticket_int64 t" "is_int64 (t_TimeoutSec t * Second)"
    and "p = f [''sh'', ''-c'', t_Command t] (if t_TimeoutSec t \<le> 0 then 60 * Second else t_TimeoutSec t * Second)" "proc_int64 p"
  shows "result_int64 outcome"
proof -
  have m1: "is_int64 (- 1)" "is_int64 0" by (simp_all add: int64_defs)
  have d: "is_int64 (p_elapsed p div 1000000)" using assms(5) by (simp add: proc_int64_def int64_defs) linarith
  have "outcome = runResult wk t start finished (classify (if t_TimeoutSec t \<le> 0 then 60 * Second else t_TimeoutSec t * Second) p)
    \<Longrightarrow> result_int64 outcome" for start finished
    using m1 d assms(2,5)
    by (auto simp: result_int64_def runResult_def classify_def Let_def proc_int64_def ticket_int64_def split: option.splits)
      (metis exitCode.simps exec_error.exhaust)+
  then show ?thesis
    using assms(1,3,4)
    by (auto simp: runTicket_def Run_def table_os_def shell_def wrap64_id mult_le_0_iff Let_def split: prod.splits)
qed

lemma report_script: "report (local_worker n l c) t outcome m = (r, m') \<Longrightarrow> mem_script m = [] \<Longrightarrow> mem_script m' = []"
  by (auto simp: report_def FinishSuccess_def FinishFailure_def split: prod.splits sum.splits if_splits dest!: mem_script_quiet)

lemma failure_result_int64: "result_int64 r \<Longrightarrow> result_int64 (failure_result t r)"
  by (simp add: failure_result_def result_int64_def Let_def)

lemma worker_serves:
  assumes "mem_script m = []" "queue_inv P (mem_store m)" "live_lease (mem_store m) l"
    and "find (claimable (mem_store m) (mem_clock m)) (take 64 (prefix_kvs (mem_store m) PendingPrefix)) = Some kv"
    and "unmarshal_ticket (kv_value kv) = Some t"
    and "is_int64 (t_TimeoutSec t * Second)"
    and "p = f [''sh'', ''-c'', t_Command t] (if t_TimeoutSec t \<le> 0 then 60 * Second else t_TimeoutSec t * Second)"
  shows "\<exists>m' outcome now. (worker_step (table_os f))\<^sup>*\<^sup>* (initial_worker (local_worker n l c) m)
      ((initial_worker (local_worker n l c) m)\<lparr>ws_world := m'\<rparr>) \<and>
    mem_script m' = [] \<and> (proc_int64 p \<longrightarrow> result_int64 outcome) \<and>
    r_Status outcome = (if p_deadline p then StatusTimeout else if p_err p = None then StatusSuccess else StatusFailed) \<and>
    kv_at (mem_store m') (ClaimedKey t) = None \<and>
    val_at (mem_store m') (ResultKey (bump t)) =
      Some (marshal_result (if r_Status outcome = StatusSuccess then outcome else failure_result (bump t) outcome)) \<and>
    val_at (mem_store m') (PendingKey t) =
      (if r_Status outcome = StatusSuccess \<or> t_Attempt (bump t) > t_MaxRetries t then None
       else Some (marshal_ticket (retry_ticket (bump t) now)))"
proof -
  let ?wk = "local_worker n l c" and ?os = "table_os f"
  let ?s0 = "initial_worker ?wk m" and ?m0 = "m\<lparr>mem_clock := mem_clock m + 1000000\<rparr>"
  obtain m1 where c: "ClaimNext (local_queue n l) (mem_clock m) ?m0 = (Ok (Some (bump t)), m1)"
    "mem_script m1 = []" "val_at (mem_store m1) (ClaimedKey t) = Some (Text n)" "ticket_int64 (bump t)"
    using claim_turn [of ?m0 P l "mem_clock m" kv t n] assms(1-5) by auto
  let ?wk1 = "?wk\<lparr>wk_slots := 1\<rparr>"
  have "tryClaim ?wk m = ((Ok (Some (bump t)), ?wk1), m1)"
    using c(1) by (simp add: tryClaim_def local_worker_def New_worker_def int64_defs)
  then have 1: "(worker_step ?os)\<^sup>*\<^sup>* ?s0 (?s0\<lparr>ws_worker := ?wk1, ws_world := m1, ws_gos := [Started (bump t)]\<rparr>)"
    using tryClaim_steps [of ?s0 "Some (bump t)" ?wk1 m1 ?os] by (simp add: initial_worker_def)
  let ?s1 = "?s0\<lparr>ws_worker := ?wk1, ws_world := m1, ws_gos := [Started (bump t)]\<rparr>"
  obtain outcome m2 where r: "runTicket ?wk1 ?os (bump t) m1 = (outcome, m2)" "mem_script m2 = []" "mem_store m2 = mem_store m1"
    "r_Status outcome = (if p_deadline p then StatusTimeout else if p_err p = None then StatusSuccess else StatusFailed)"
    using runTicket_table [of m1 "bump t" ?wk1 n l p f] c(2) assms(6,7) by auto
  have q: "report ?wk1 (bump t) outcome m2 = report ?wk (bump t) outcome m2" by (simp add: report_def)
  obtain m3 where m3: "report ?wk1 (bump t) outcome m2 = (Inr (), m3)" using report_quiet [OF r(2)] q by metis
  have "execute ?wk1 ?os (bump t) m1 = (Inr (), m3)" using r(1) m3 by (simp add: execute_def)
  then have "(worker_step ?os)\<^sup>*\<^sup>* ?s1 (?s1\<lparr>ws_gos := [], ws_worker := ?wk, ws_world := m3\<rparr>)"
    by (intro run_turn [of _ "bump t"]) (simp_all add: initial_worker_def local_worker_def New_worker_def)
  with 1 have steps: "(worker_step ?os)\<^sup>*\<^sup>* ?s0 (?s1\<lparr>ws_gos := [], ws_worker := ?wk, ws_world := m3\<rparr>)" by (rule rtranclp_trans)
  from lw.report_settles [of n l c "bump t" outcome m2 "()" m3] m3 q
  obtain now where s: "settles n (bump t) outcome now (mem_store m1) (mem_store m3)" using r(3) by auto
  have k: "ClaimedKey (bump t) = ClaimedKey t" "PendingKey (bump t) = PendingKey t" by (simp_all add: ClaimedKey_eq PendingKey_eq)
  have e: "?s1\<lparr>ws_gos := [], ws_worker := ?wk, ws_world := m3\<rparr> = ?s0\<lparr>ws_world := m3\<rparr>" by (simp add: initial_worker_def)
  have i: "proc_int64 p \<Longrightarrow> result_int64 outcome"
    using runTicket_int64 [OF r(1) c(4), of p] assms(6,7) by (simp only: bump_run)
  have q3: "mem_script m3 = []" using report_script r(2) m3 q by metis
  show ?thesis
    by (rule exI [of _ m3], rule exI [of _ outcome], rule exI [of _ now])
      (use steps [unfolded e] r(4) s c(3) i q3 in \<open>simp add: settles_def Let_def k\<close>)
qed


text \<open>C19. A worker serves the queue end to end: started with a free slot on a quiet store whose queue holds
  a claimable ticket, its loop can claim the first one, run its command, report the outcome and be ready
  again with no goroutine left.  The claim is then gone and the result published with the status the
  operating system's answer decides; the ticket has left the queue when the command succeeded or its
  attempts are used up, and otherwise waits there for its next attempt.\<close>

theorem worker_serves_ticket:
  assumes "mem_script m = []" "queue_inv P (mem_store m)" "live_lease (mem_store m) l"
    and "find (claimable (mem_store m) (mem_clock m)) (take 64 (prefix_kvs (mem_store m) PendingPrefix)) = Some kv"
    and "unmarshal_ticket (kv_value kv) = Some t"
    and "is_int64 (t_TimeoutSec t * Second)"
    and "p = f [''sh'', ''-c'', t_Command t] (if t_TimeoutSec t \<le> 0 then 60 * Second else t_TimeoutSec t * Second)"
  shows "\<exists>s outcome now. (worker_step (table_os f))\<^sup>*\<^sup>* (initial_worker (local_worker n l c) m) s \<and>
    ws_phase s = Idle \<and> ws_gos s = [] \<and>
    r_Status outcome = (if p_deadline p then StatusTimeout else if p_err p = None then StatusSuccess else StatusFailed) \<and>
    kv_at (mem_store (ws_world s)) (ClaimedKey t) = None \<and>
    val_at (mem_store (ws_world s)) (ResultKey (bump t)) =
      Some (marshal_result (if r_Status outcome = StatusSuccess then outcome else failure_result (bump t) outcome)) \<and>
    val_at (mem_store (ws_world s)) (PendingKey t) =
      (if r_Status outcome = StatusSuccess \<or> t_Attempt (bump t) > t_MaxRetries t then None
       else Some (marshal_ticket (retry_ticket (bump t) now)))"
proof -
  let ?s0 = "initial_worker (local_worker n l c) m"
  from worker_serves [where f = f and n = n and c = c, OF assms] obtain m' outcome now where "(worker_step (table_os f))\<^sup>*\<^sup>* ?s0 (?s0\<lparr>ws_world := m'\<rparr>)"
    "r_Status outcome = (if p_deadline p then StatusTimeout else if p_err p = None then StatusSuccess else StatusFailed)"
    "kv_at (mem_store m') (ClaimedKey t) = None"
    "val_at (mem_store m') (ResultKey (bump t)) =
      Some (marshal_result (if r_Status outcome = StatusSuccess then outcome else failure_result (bump t) outcome))"
    "val_at (mem_store m') (PendingKey t) =
      (if r_Status outcome = StatusSuccess \<or> t_Attempt (bump t) > t_MaxRetries t then None
       else Some (marshal_ticket (retry_ticket (bump t) now)))" by blast
  then show ?thesis
    by (intro exI [of _ "?s0\<lparr>ws_world := m'\<rparr>"] exI [of _ outcome] exI [of _ now]) (simp add: initial_worker_def)
qed


lemma pending_store_inv: "queue_inv (\<lambda>i. i = 3) pending_store"
proof -
  have "allowed (\<lambda>i. i = 3) demo_ticket"
    using demo_int64(1) by (simp add: allowed_def) (simp add: demo_ticket_def zero_ticket_def)
  then have "queue_step (\<lambda>i. i = 3) empty_store pending_store"
    unfolding pending_store_def by (intro queue_step.enqueue) simp_all
  then show ?thesis by (rule queue_inv_step) (simp add: queue_inv_init)
qed

lemma find_demo: "find (claimable pending_store 0) (take 64 (prefix_kvs pending_store PendingPrefix)) =
    Some \<lparr>kv_key = PendingKey demo_ticket, kv_value = marshal_ticket demo_ticket, kv_modrev = 1, kv_version = 1, kv_lease = NoLease\<rparr>"
proof -
  have "\<not> notYet demo_ticket 0" "\<not> t_NoOverlap demo_ticket" by (simp_all add: notYet_def demo_ticket_def zero_ticket_def)
  moreover have "kv_at pending_store (ClaimedKey demo_ticket) = None" by (simp add: pending_store_def etcd_simps key_simps)
  ultimately show ?thesis by (simp add: pending_kvs_demo claimable_def unmarshal_marshal_ticket demo_int64)
qed

theorem worker_serves_ticket_witness:
  "\<exists>s. (worker_step (table_os (exits None)))\<^sup>*\<^sup>* (initial_worker (local_worker ''n1'' 7 1) (mem_of pending_store 0)) s \<and>
     ws_gos s = [] \<and> kv_at (mem_store (ws_world s)) (PendingKey demo_ticket) = None"
proof -
  have l: "live_lease pending_store 7" by (simp add: live_lease_def pending_store_def commit_leases) (simp add: empty_store_def)
  have t: "is_int64 (t_TimeoutSec demo_ticket * Second)" by (simp add: demo_ticket_def zero_ticket_def int64_defs)
  show ?thesis
    using worker_serves_ticket [of "mem_of pending_store 0" "\<lambda>i. i = 3" 7, OF _ _ _ _ _ t refl, of _ "exits None" "''n1''" 1]
      pending_store_inv l find_demo unmarshal_marshal_ticket [OF demo_int64(1)]
    by (fastforce simp: exits_def)
qed

end
