(* ===== verification/Config.thy ===== *)
theory Config
  imports Etcd
begin

section \<open>Configuration: internal/config\<close>

text \<open>
  The configuration of a node: defaults, the YAML file on top of them, the environment on top of that,
  then validation and clamping.  The host is a parameter: its name, its files and its environment, and
  the YAML library, a function that decodes a file into a configuration.  The package \<open>path/filepath\<close>
  of a Unix host is modelled as far as the program uses it.
\<close>

subsection \<open>Package path/filepath\<close>

definition clean_step :: "bool \<Rightarrow> string list \<Rightarrow> string \<Rightarrow> string list" where
  "clean_step rooted stack seg =
     (if seg = [] \<or> seg = ''.'' then stack
      else if seg = ''..'' then
        (if stack \<noteq> [] \<and> last stack \<noteq> ''..'' then butlast stack
         else if rooted then stack else stack @ [seg])
      else stack @ [seg])"

definition Clean :: "string \<Rightarrow> string" where
  "Clean path =
     (let rooted = HasPrefix path ''/'';
          out = (if rooted then ''/'' else []) @ join CHR ''/'' (foldl (clean_step rooted) [] (Split CHR ''/'' path))
      in if out = [] then ''.'' else out)"

definition Join :: "string list \<Rightarrow> string" where
  "Join elems = (case filter (\<lambda>e. e \<noteq> []) elems of [] \<Rightarrow> [] | es \<Rightarrow> Clean (join CHR ''/'' es))"

definition Dir :: "string \<Rightarrow> string" where
  "Dir path = Clean (rev (dropWhile (\<lambda>c. c \<noteq> CHR ''/'') (rev path)))"

subsection \<open>The configuration\<close>

record config =
  cf_NodeID :: string
  cf_HTTPListen :: string
  cf_EtcdEndpoints :: "string list"
  cf_ElectionTTLSec :: int
  cf_WorkerLeaseSec :: int
  cf_TickIntervalMS :: int
  cf_ClaimIntervalMS :: int
  cf_DataDir :: string
  cf_CatchUp :: string
  cf_MaxConcurrent :: int

datatype file_read = Content string | NotExist | ReadError gerr

text \<open>The host: \<open>os.Hostname\<close> (empty when it fails, as the code ignores the error), \<open>os.ReadFile\<close>,
  \<open>os.Getenv\<close> and \<open>yaml.Unmarshal\<close>.\<close>

record host =
  h_Hostname :: string
  h_ReadFile :: "string \<Rightarrow> file_read"
  h_Getenv :: "string \<Rightarrow> string"
  h_Unmarshal :: "string \<Rightarrow> config \<Rightarrow> gerr + config"

definition Default :: "host \<Rightarrow> config" where
  "Default h = \<lparr>cf_NodeID = h_Hostname h, cf_HTTPListen = '':8080'', cf_EtcdEndpoints = [''http://localhost:2379''],
     cf_ElectionTTLSec = 10, cf_WorkerLeaseSec = 5, cf_TickIntervalMS = 1000, cf_ClaimIntervalMS = 500,
     cf_DataDir = ''./data'', cf_CatchUp = ''run_latest'', cf_MaxConcurrent = 4\<rparr>"

definition envStr :: "host \<Rightarrow> string \<Rightarrow> string \<Rightarrow> string" where
  "envStr h key dst = (let v = h_Getenv h key in if v \<noteq> [] then v else dst)"

definition loadFile :: "host \<Rightarrow> string \<Rightarrow> config \<Rightarrow> gerr + config" where
  "loadFile h path c =
     (if path = [] then Inr c
      else case h_ReadFile h path of
        Content b \<Rightarrow> (case h_Unmarshal h b c of Inl err \<Rightarrow> Inl (Wrap ''config: '' err) | Inr c' \<Rightarrow> Inr c')
      | NotExist \<Rightarrow> Inr c
      | ReadError err \<Rightarrow> Inl (Wrap ''config: '' err))"

definition applyEnv :: "host \<Rightarrow> config \<Rightarrow> config" where
  "applyEnv h c =
     (let c = c\<lparr>cf_NodeID := envStr h ''ORBIX_NODE_ID'' (cf_NodeID c)\<rparr>;
          c = c\<lparr>cf_HTTPListen := envStr h ''ORBIX_LISTEN'' (cf_HTTPListen c)\<rparr>;
          c = c\<lparr>cf_DataDir := envStr h ''ORBIX_DATA_DIR'' (cf_DataDir c)\<rparr>;
          c = c\<lparr>cf_CatchUp := envStr h ''ORBIX_CATCHUP'' (cf_CatchUp c)\<rparr>;
          v = h_Getenv h ''ORBIX_ETCD''
      in if v \<noteq> [] then c\<lparr>cf_EtcdEndpoints := Split CHR '','' v\<rparr> else c)"

definition checkConfig :: "config \<Rightarrow> gerr option" where
  "checkConfig c =
     (if TrimSpace (cf_NodeID c) = [] then Some (Errorf ''config: node_id must not be empty'')
      else if cf_EtcdEndpoints c = [] then Some (Errorf ''config: etcd_endpoints must not be empty'')
      else if cf_CatchUp c \<in> {''run_latest'', ''run_all'', ''skip''} then None
      else Some (ErrorQ ''config: catch_up must be run_latest|run_all|skip, got '' (cf_CatchUp c)))"

definition clampConfig :: "config \<Rightarrow> config" where
  "clampConfig c =
     (let c = (if cf_ElectionTTLSec c < 2 then c\<lparr>cf_ElectionTTLSec := 2\<rparr> else c);
          c = (if cf_WorkerLeaseSec c < 2 then c\<lparr>cf_WorkerLeaseSec := 2\<rparr> else c);
          c = (if cf_TickIntervalMS c < 100 then c\<lparr>cf_TickIntervalMS := 100\<rparr> else c);
          c = (if cf_ClaimIntervalMS c < 100 then c\<lparr>cf_ClaimIntervalMS := 100\<rparr> else c)
      in if cf_MaxConcurrent c < 1 then c\<lparr>cf_MaxConcurrent := 1\<rparr> else c)"

definition Load :: "host \<Rightarrow> string \<Rightarrow> gerr + config" where
  "Load h path =
     (case loadFile h path (Default h) of
        Inl err \<Rightarrow> Inl err
      | Inr c \<Rightarrow> let c = applyEnv h c
                 in case checkConfig c of Some err \<Rightarrow> Inl err | None \<Rightarrow> Inr (clampConfig c))"

definition DBPath :: "config \<Rightarrow> string" where
  "DBPath c = Join [cf_DataDir c, ''orbix.db'']"

definition TickInterval :: "config \<Rightarrow> duration" where
  "TickInterval c = wrap64 (cf_TickIntervalMS c * 1000000)"

definition ClaimInterval :: "config \<Rightarrow> duration" where
  "ClaimInterval c = wrap64 (cf_ClaimIntervalMS c * 1000000)"

subsection \<open>What loading guarantees\<close>

text \<open>The configurations a node runs with.\<close>

definition wf_config :: "config \<Rightarrow> bool" where
  "wf_config c \<longleftrightarrow> TrimSpace (cf_NodeID c) \<noteq> [] \<and> cf_EtcdEndpoints c \<noteq> [] \<and>
     cf_CatchUp c \<in> {CatchUpRunLatest, CatchUpRunAll, CatchUpSkip} \<and>
     2 \<le> cf_ElectionTTLSec c \<and> 2 \<le> cf_WorkerLeaseSec c \<and> 100 \<le> cf_TickIntervalMS c \<and>
     100 \<le> cf_ClaimIntervalMS c \<and> 1 \<le> cf_MaxConcurrent c"

lemma clampConfig_fields:
  "cf_NodeID (clampConfig c) = cf_NodeID c" "cf_EtcdEndpoints (clampConfig c) = cf_EtcdEndpoints c"
  "cf_HTTPListen (clampConfig c) = cf_HTTPListen c" "cf_DataDir (clampConfig c) = cf_DataDir c"
  "cf_CatchUp (clampConfig c) = cf_CatchUp c"
  "cf_ElectionTTLSec (clampConfig c) = max 2 (cf_ElectionTTLSec c)"
  "cf_WorkerLeaseSec (clampConfig c) = max 2 (cf_WorkerLeaseSec c)"
  "cf_TickIntervalMS (clampConfig c) = max 100 (cf_TickIntervalMS c)"
  "cf_ClaimIntervalMS (clampConfig c) = max 100 (cf_ClaimIntervalMS c)"
  "cf_MaxConcurrent (clampConfig c) = max 1 (cf_MaxConcurrent c)"
  by (auto simp: clampConfig_def Let_def)

lemma wf_clampConfig: "checkConfig c = None \<Longrightarrow> wf_config (clampConfig c)"
  by (auto simp: wf_config_def clampConfig_fields checkConfig_def split: if_splits)

lemma applyEnv_fields:
  "cf_NodeID (applyEnv h c) = envStr h ''ORBIX_NODE_ID'' (cf_NodeID c)"
  "cf_HTTPListen (applyEnv h c) = envStr h ''ORBIX_LISTEN'' (cf_HTTPListen c)"
  "cf_DataDir (applyEnv h c) = envStr h ''ORBIX_DATA_DIR'' (cf_DataDir c)"
  "cf_CatchUp (applyEnv h c) = envStr h ''ORBIX_CATCHUP'' (cf_CatchUp c)"
  "cf_EtcdEndpoints (applyEnv h c) = (if h_Getenv h ''ORBIX_ETCD'' = [] then cf_EtcdEndpoints c else Split CHR '','' (h_Getenv h ''ORBIX_ETCD''))"
  by (auto simp: applyEnv_def Let_def)

lemma Load_Inr: "Load h path = Inr c \<Longrightarrow>
   \<exists>f. loadFile h path (Default h) = Inr f \<and> checkConfig (applyEnv h f) = None \<and> c = clampConfig (applyEnv h f)"
  by (auto simp: Load_def Let_def split: sum.splits option.splits)

text \<open>A host with no file and an empty environment.\<close>

definition bare_host :: host where
  "bare_host = \<lparr>h_Hostname = ''n1'', h_ReadFile = (\<lambda>_. NotExist), h_Getenv = (\<lambda>_. []), h_Unmarshal = (\<lambda>_ c. Inr c)\<rparr>"

lemma TrimSpace_n1: "TrimSpace ''n1'' = ''n1''"
  by (simp add: TrimSpace_def is_space_def)

lemma Load_bare: "Load bare_host ''orbix.yaml'' = Inr (Default bare_host)"
  by (simp add: Load_def loadFile_def bare_host_def Default_def applyEnv_def envStr_def checkConfig_def clampConfig_def TrimSpace_n1 Let_def)

text \<open>A node only ever starts with a usable configuration: whatever the file, the YAML decoder and the
  environment hold, a configuration that \<open>Load\<close> returns has a node id that is not blank, at least one
  endpoint, a known catch-up policy, leases of two seconds or more, poll intervals of 100 milliseconds or
  more and room for one command; and a set variable of the environment wins over the file and the
  default.\<close>

theorem Load_wf_config:
  assumes "Load h path = Inr c"
  shows "wf_config c \<and>
    (h_Getenv h ''ORBIX_NODE_ID'' \<noteq> [] \<longrightarrow> cf_NodeID c = h_Getenv h ''ORBIX_NODE_ID'') \<and>
    (h_Getenv h ''ORBIX_LISTEN'' \<noteq> [] \<longrightarrow> cf_HTTPListen c = h_Getenv h ''ORBIX_LISTEN'') \<and>
    (h_Getenv h ''ORBIX_DATA_DIR'' \<noteq> [] \<longrightarrow> cf_DataDir c = h_Getenv h ''ORBIX_DATA_DIR'') \<and>
    (h_Getenv h ''ORBIX_CATCHUP'' \<noteq> [] \<longrightarrow> cf_CatchUp c = h_Getenv h ''ORBIX_CATCHUP'') \<and>
    (h_Getenv h ''ORBIX_ETCD'' \<noteq> [] \<longrightarrow> cf_EtcdEndpoints c = Split CHR '','' (h_Getenv h ''ORBIX_ETCD''))"
  using Load_Inr [OF assms] wf_clampConfig by (auto simp: clampConfig_fields applyEnv_fields envStr_def Let_def)

theorem Load_wf_config_witness: "wf_config (Default bare_host)"
  using Load_wf_config [OF Load_bare] by blast

end
