(* ===== verification/History.thy ===== *)
theory History
  imports Queue Config "HOL-Library.AList" "HOL-Library.Monad_Syntax"
begin

section \<open>The run history: internal/store and internal/history\<close>

text \<open>
  Every node mirrors the published results into a local SQLite table, from which the console reads.
  The statements the store issues are values of the types \<open>stmt\<close> and \<open>query\<close>, with their columns, arguments and
  clauses as store.go writes them, and \<open>exec_stmt\<close> and \<open>answers\<close> are their meaning on the rows of the table, in
  the order of the row ids.  The driver is the parameter \<open>sqldb\<close>, which is handed a statement; the locale
  \<open>runs_table\<close> says that it carries statements out by their meaning or fails and changes nothing.  It is
  interpreted on a list of rows with scripted failures.  The mirror reads the results prefix once and then follows the changes; the watch is a parameter too:
  what the channel delivers until it is closed.
\<close>

subsection \<open>The store: store.go\<close>

record run =
  run_Result :: result
  run_Key :: string

text \<open>The columns of the table, and the values that are bound to the placeholders of a statement and
  delivered in the rows of an answer.\<close>

datatype column = C_key | C_job_id | C_sched_at | C_attempt | C_node_id | C_status | C_exit_code
  | C_started_at | C_finished_at | C_duration_ms | C_stdout | C_stderr

datatype sqlval = SqlInt int | SqlText string | SqlNull

text \<open>What an insertion does when its key is there already: fail, nothing, or replace the row.\<close>

datatype conflict = OrAbort | OrIgnore | OrReplace

datatype stmt = Ddl string | InsertInto conflict "column list" "sqlval list" | DeleteFrom "column \<times> sqlval"

datatype direction = Asc | Desc

text \<open>\<open>SELECT \<dots> FROM runs\<close> with an optional equality in the \<open>WHERE\<close> clause, ordered by row id, with a limit; and
  \<open>SELECT c, COUNT( * ) FROM runs GROUP BY c\<close>.\<close>

datatype query = Select "column list" "(column \<times> sqlval) option" direction sqlval | CountBy column

text \<open>The driver: what it delivers of an answer before it is done, or before an error ends it.\<close>

record 'd sqldb =
  d_MkdirAll :: "string \<Rightarrow> 'd \<Rightarrow> gerr option \<times> 'd"
  d_Open :: "string \<Rightarrow> 'd \<Rightarrow> gerr option \<times> 'd"
  d_Exec :: "stmt \<Rightarrow> 'd \<Rightarrow> gerr option \<times> 'd"
  d_Query :: "query \<Rightarrow> 'd \<Rightarrow> (gerr + sqlval list list \<times> gerr option) \<times> 'd"
  d_Close :: "'d \<Rightarrow> gerr option \<times> 'd"

text \<open>The schema, up to white space.\<close>

definition schema :: string where
  "schema = ''CREATE TABLE IF NOT EXISTS runs (key TEXT PRIMARY KEY, job_id INTEGER NOT NULL, sched_at TEXT NOT NULL, attempt INTEGER NOT NULL DEFAULT 1, node_id TEXT NOT NULL, status TEXT NOT NULL, exit_code INTEGER NOT NULL DEFAULT 0, started_at TEXT, finished_at TEXT, duration_ms INTEGER NOT NULL DEFAULT 0, stdout TEXT, stderr TEXT); CREATE INDEX IF NOT EXISTS idx_runs_job ON runs(job_id, key DESC);''"

definition pragmas :: "string list" where
  "pragmas = [''PRAGMA journal_mode=WAL;'', ''PRAGMA busy_timeout=5000;'', ''PRAGMA synchronous=NORMAL;'']"

fun execAll :: "'d sqldb \<Rightarrow> (string \<Rightarrow> string) \<Rightarrow> string list \<Rightarrow> 'd \<Rightarrow> gerr option \<times> 'd" where
  "execAll db ctx [] d = (None, d)"
| "execAll db ctx (q # qs) d =
     (case d_Exec db (Ddl q) d of
        (Some err, d1) \<Rightarrow> (Some (Wrap (ctx q) err), snd (d_Close db d1))
      | (None, d1) \<Rightarrow> execAll db ctx qs d1)"

definition Open :: "'d sqldb \<Rightarrow> string \<Rightarrow> 'd \<Rightarrow> gerr option \<times> 'd" where
  "Open db path d =
     (case d_MkdirAll db (Dir path) d of
        (Some err, d1) \<Rightarrow> (Some (Wrap ''store: '' err), d1)
      | (None, d1) \<Rightarrow> (case d_Open db path d1 of
          (Some err, d2) \<Rightarrow> (Some (Wrap ''store: open: '' err), d2)
        | (None, d2) \<Rightarrow> (case execAll db (\<lambda>q. ''store: '' @ q @ '': '') pragmas d2 of
            (Some err, d3) \<Rightarrow> (Some err, d3)
          | (None, d3) \<Rightarrow> execAll db (\<lambda>_. ''store: migrate: '') [schema] d3)))"

text \<open>The insertion of store.go: the columns in the order of its text, and the arguments in the order they are
  bound.\<close>

definition insert_columns :: "column list" where
  "insert_columns = [C_key, C_job_id, C_sched_at, C_attempt, C_node_id, C_status, C_exit_code,
     C_started_at, C_finished_at, C_duration_ms, C_stdout, C_stderr]"

definition insert_args :: "string \<Rightarrow> result \<Rightarrow> sqlval list" where
  "insert_args key r = [SqlText key, SqlInt (r_JobID r), SqlText (r_SchedAt r), SqlInt (r_Attempt r), SqlText (r_NodeID r),
     SqlText (r_Status r), SqlInt (r_ExitCode r), SqlText (r_StartedAt r), SqlText (r_FinishedAt r),
     SqlInt (r_DurationMS r), SqlText (r_Stdout r), SqlText (r_Stderr r)]"

definition InsertRun :: "'d sqldb \<Rightarrow> string \<Rightarrow> result \<Rightarrow> 'd \<Rightarrow> gerr option \<times> 'd" where
  "InsertRun db key r d =
     (case d_Exec db (InsertInto OrIgnore insert_columns (insert_args key r)) d of
        (Some err, d') \<Rightarrow> (Some (Wrap ''store: insert run: '' err), d')
      | (None, d') \<Rightarrow> (None, d'))"

text \<open>\<open>rows.Scan\<close>: the variables take the values of a row by position; a string or a number takes no other type and
  no \<open>NULL\<close>, a \<open>sql.NullString\<close> takes \<open>NULL\<close> as the empty string.  The text of a scan error is the library's.\<close>

fun scan_text :: "sqlval \<Rightarrow> string option" where
  "scan_text (SqlText x) = Some x"
| "scan_text _ = None"

fun scan_int :: "sqlval \<Rightarrow> int option" where
  "scan_int (SqlInt i) = Some i"
| "scan_int _ = None"

fun scan_null :: "sqlval \<Rightarrow> string option" where
  "scan_null (SqlText x) = Some x"
| "scan_null SqlNull = Some []"
| "scan_null _ = None"

definition scan_run :: "sqlval list \<Rightarrow> run option" where
  "scan_run vs =
     (case vs of
        [v1, v2, v3, v4, v5, v6, v7, v8, v9, v10, v11, v12] \<Rightarrow>
          do { key \<leftarrow> scan_text v1; job \<leftarrow> scan_int v2; sched \<leftarrow> scan_text v3; att \<leftarrow> scan_int v4; node \<leftarrow> scan_text v5;
               st \<leftarrow> scan_text v6; ex \<leftarrow> scan_int v7; begun \<leftarrow> scan_text v8; fin \<leftarrow> scan_text v9; dur \<leftarrow> scan_int v10;
               stdout \<leftarrow> scan_null v11; stderr \<leftarrow> scan_null v12;
               Some \<lparr>run_Result = \<lparr>r_JobID = job, r_SchedAt = sched, r_Attempt = att, r_NodeID = node, r_Status = st,
                 r_ExitCode = ex, r_StartedAt = begun, r_FinishedAt = fin, r_DurationMS = dur, r_Stdout = stdout,
                 r_Stderr = stderr\<rparr>, run_Key = key\<rparr> }
      | _ \<Rightarrow> None)"

definition scan_error :: gerr where
  "scan_error = Errorf ''sql: Scan error''"

fun scanRuns :: "sqlval list list \<Rightarrow> run list \<Rightarrow> gerr + run list" where
  "scanRuns [] out = Inr out"
| "scanRuns (vs # rows) out =
     (case scan_run vs of
        None \<Rightarrow> Inl (Wrap ''store: scan run: '' scan_error)
      | Some r \<Rightarrow> scanRuns rows (out @ [r]))"

definition list_query :: "int \<Rightarrow> int \<Rightarrow> query" where
  "list_query jobID limit =
     Select [C_key, C_job_id, C_sched_at, C_attempt, C_node_id, C_status, C_exit_code,
         C_started_at, C_finished_at, C_duration_ms, C_stdout, C_stderr]
       (if jobID > 0 then Some (C_job_id, SqlInt jobID) else None) Desc (SqlInt limit)"

text \<open>When the rows end early the code returns what it has together with the error; the handlers look at the
  error first, so that the runs are left out here.\<close>

definition ListRuns :: "'d sqldb \<Rightarrow> int \<Rightarrow> int \<Rightarrow> 'd \<Rightarrow> (gerr + run list) \<times> 'd" where
  "ListRuns db jobID limit d =
     (let limit = (if limit \<le> 0 \<or> limit > 500 then 50 else limit)
      in case d_Query db (list_query jobID limit) d of
           (Inl err, d') \<Rightarrow> (Inl (Wrap ''store: list runs: '' err), d')
         | (Inr (rows, rowsErr), d') \<Rightarrow>
             (case scanRuns rows [] of
                Inl err \<Rightarrow> (Inl err, d')
              | Inr out \<Rightarrow> (case rowsErr of Some err \<Rightarrow> (Inl err, d') | None \<Rightarrow> (Inr out, d'))))"

fun scanCounts :: "sqlval list list \<Rightarrow> (string \<times> int) list \<Rightarrow> gerr + (string \<times> int) list" where
  "scanCounts [] out = Inr out"
| "scanCounts ([v, k] # rows) out =
     (case (scan_text v, scan_int k) of
        (Some st, Some n) \<Rightarrow> scanCounts rows (AList.update st n out)
      | _ \<Rightarrow> Inl scan_error)"
| "scanCounts (_ # rows) out = Inl scan_error"

text \<open>The map and the error are both returned, as the callers in the API drop the error: the map is
  \<open>nil\<close> (\<open>None\<close>) unless the rows could be read.\<close>

definition Counts :: "'d sqldb \<Rightarrow> 'd \<Rightarrow> ((string \<times> int) list option \<times> gerr option) \<times> 'd" where
  "Counts db d =
     (case d_Query db (CountBy C_status) d of
        (Inl err, d') \<Rightarrow> ((None, Some (Wrap ''store: counts: '' err)), d')
      | (Inr (rows, rowsErr), d') \<Rightarrow>
          (case scanCounts rows [] of
             Inl err \<Rightarrow> ((None, Some err), d')
           | Inr out \<Rightarrow> ((Some out, rowsErr), d')))"

subsection \<open>The mirror: mirror.go\<close>

datatype watch_event = PutEvent kv | DeleteEvent string

text \<open>A node's history process: the database is part of the world, as are etcd and the watch, which
  delivers the events of a prefix from a revision on, until its channel is closed.\<close>

record 'w mirror =
  mi_cli :: "'w world"
  mi_watch :: "string \<Rightarrow> int \<Rightarrow> 'w \<Rightarrow> watch_event list \<times> 'w"
  mi_store :: "'w sqldb"

definition New_mirror :: "'w world \<Rightarrow> (string \<Rightarrow> int \<Rightarrow> 'w \<Rightarrow> watch_event list \<times> 'w) \<Rightarrow> 'w sqldb \<Rightarrow> 'w mirror" where
  "New_mirror cli watch st = \<lparr>mi_cli = cli, mi_watch = watch, mi_store = st\<rparr>"

definition put_run :: "'w sqldb \<Rightarrow> kv \<Rightarrow> 'w \<Rightarrow> 'w" where
  "put_run db kv w =
     (case unmarshal_result (kv_value kv) of
        None \<Rightarrow> w
      | Some r \<Rightarrow> snd (InsertRun db (kv_key kv) r w))"

fun put_event :: "'w sqldb \<Rightarrow> watch_event \<Rightarrow> 'w \<Rightarrow> 'w" where
  "put_event db (PutEvent kv) w = put_run db kv w"
| "put_event db (DeleteEvent k) w = w"

text \<open>One turn of the mirror's loop, up to the pause before the next.\<close>

definition mirror_turn :: "'w mirror \<Rightarrow> 'w \<Rightarrow> 'w" where
  "mirror_turn m w =
     (case w_get (mi_cli m) ResultsPrefix (Prefix 0) w of
        (Inl err, w1) \<Rightarrow> w1
      | (Inr resp, w1) \<Rightarrow>
          let w2 = fold (put_run (mi_store m)) (gr_kvs resp) w1;
              (evs, w3) = mi_watch m ResultsPrefix (gr_rev resp + 1) w2
          in fold (put_event (mi_store m)) evs w3)"

text \<open>\<open>Run\<close> repeats the turn until the context is cancelled, here after a number of turns.\<close>

primrec Run_mirror :: "'w mirror \<Rightarrow> nat \<Rightarrow> 'w \<Rightarrow> 'w" where
  "Run_mirror m 0 w = w"
| "Run_mirror m (Suc n) w = Run_mirror m n (mirror_turn m w)"

subsection \<open>The table\<close>

text \<open>A row of the table is a run: \<open>get_col\<close> reads a column and \<open>set_col\<close> stores a value of the column's declared
  type in it.\<close>

fun get_col :: "column \<Rightarrow> run \<Rightarrow> sqlval" where
  "get_col C_key x = SqlText (run_Key x)"
| "get_col C_job_id x = SqlInt (r_JobID (run_Result x))"
| "get_col C_sched_at x = SqlText (r_SchedAt (run_Result x))"
| "get_col C_attempt x = SqlInt (r_Attempt (run_Result x))"
| "get_col C_node_id x = SqlText (r_NodeID (run_Result x))"
| "get_col C_status x = SqlText (r_Status (run_Result x))"
| "get_col C_exit_code x = SqlInt (r_ExitCode (run_Result x))"
| "get_col C_started_at x = SqlText (r_StartedAt (run_Result x))"
| "get_col C_finished_at x = SqlText (r_FinishedAt (run_Result x))"
| "get_col C_duration_ms x = SqlInt (r_DurationMS (run_Result x))"
| "get_col C_stdout x = SqlText (r_Stdout (run_Result x))"
| "get_col C_stderr x = SqlText (r_Stderr (run_Result x))"

definition set_col :: "column \<Rightarrow> sqlval \<Rightarrow> run \<Rightarrow> run option" where
  "set_col c v x =
     (let res = (\<lambda>f. Some (x\<lparr>run_Result := f (run_Result x)\<rparr>))
      in case v of
           SqlNull \<Rightarrow> None
         | SqlInt i \<Rightarrow> (case c of
               C_job_id \<Rightarrow> res (r_JobID_update (\<lambda>_. i))
             | C_attempt \<Rightarrow> res (r_Attempt_update (\<lambda>_. i))
             | C_exit_code \<Rightarrow> res (r_ExitCode_update (\<lambda>_. i))
             | C_duration_ms \<Rightarrow> res (r_DurationMS_update (\<lambda>_. i))
             | _ \<Rightarrow> None)
         | SqlText t \<Rightarrow> (case c of
               C_key \<Rightarrow> Some (x\<lparr>run_Key := t\<rparr>)
             | C_sched_at \<Rightarrow> res (r_SchedAt_update (\<lambda>_. t))
             | C_node_id \<Rightarrow> res (r_NodeID_update (\<lambda>_. t))
             | C_status \<Rightarrow> res (r_Status_update (\<lambda>_. t))
             | C_started_at \<Rightarrow> res (r_StartedAt_update (\<lambda>_. t))
             | C_finished_at \<Rightarrow> res (r_FinishedAt_update (\<lambda>_. t))
             | C_stdout \<Rightarrow> res (r_Stdout_update (\<lambda>_. t))
             | C_stderr \<Rightarrow> res (r_Stderr_update (\<lambda>_. t))
             | _ \<Rightarrow> None))"

fun set_cols :: "column list \<Rightarrow> sqlval list \<Rightarrow> run \<Rightarrow> run option" where
  "set_cols [] [] x = Some x"
| "set_cols (c # cs) (v # vs) x = (case set_col c v x of None \<Rightarrow> None | Some y \<Rightarrow> set_cols cs vs y)"
| "set_cols _ _ x = None"

text \<open>The meaning of the statements.  It is given for insertions that set every column once, to a value of its type,
  and \<open>None\<close> otherwise; definitions of tables and pragmas leave the rows alone.  A row that is replaced gets a new row id.\<close>

definition insert_row :: "column list \<Rightarrow> sqlval list \<Rightarrow> run option" where
  "insert_row cs vs = (if length cs = 12 \<and> distinct cs then set_cols cs vs \<lparr>run_Result = zero_result, run_Key = []\<rparr> else None)"

fun exec_stmt :: "stmt \<Rightarrow> run list \<Rightarrow> run list option" where
  "exec_stmt (Ddl q) rows = Some rows"
| "exec_stmt (DeleteFrom (c, v)) rows = Some (filter (\<lambda>x. get_col c x \<noteq> v) rows)"
| "exec_stmt (InsertInto cf cs vs) rows =
     (case insert_row cs vs of
        None \<Rightarrow> None
      | Some r \<Rightarrow>
          if run_Key r \<in> run_Key ` set rows
          then (case cf of
              OrAbort \<Rightarrow> None
            | OrIgnore \<Rightarrow> Some rows
            | OrReplace \<Rightarrow> Some (filter (\<lambda>x. run_Key x \<noteq> run_Key r) rows @ [r]))
          else Some (rows @ [r]))"

fun ordered :: "direction \<Rightarrow> 'a list \<Rightarrow> 'a list" where
  "ordered Asc xs = xs"
| "ordered Desc xs = rev xs"

fun limited :: "sqlval \<Rightarrow> 'a list \<Rightarrow> 'a list" where
  "limited (SqlInt n) xs = (if n < 0 then xs else take (nat n) xs)"
| "limited _ xs = xs"

definition where_eq :: "(column \<times> sqlval) option \<Rightarrow> run \<Rightarrow> bool" where
  "where_eq cond x = (case cond of None \<Rightarrow> True | Some (c, v) \<Rightarrow> get_col c x = v)"

definition select_rows :: "column list \<Rightarrow> (column \<times> sqlval) option \<Rightarrow> direction \<Rightarrow> sqlval \<Rightarrow> run list \<Rightarrow> sqlval list list" where
  "select_rows cs cond dir lim rows =
     map (\<lambda>x. map (\<lambda>c. get_col c x) cs) (limited lim (ordered dir (filter (where_eq cond) rows)))"

definition count_rows :: "column \<Rightarrow> run list \<Rightarrow> sqlval list list" where
  "count_rows c rows =
     map (\<lambda>v. [v, SqlInt (int (length (filter (\<lambda>x. get_col c x = v) rows)))]) (remdups (map (get_col c) rows))"

text \<open>The groups of a count come in any order.\<close>

fun answers :: "query \<Rightarrow> run list \<Rightarrow> sqlval list list \<Rightarrow> bool" where
  "answers (Select cs cond dir lim) rows res = (res = select_rows cs cond dir lim rows)"
| "answers (CountBy c) rows res = (set res = set (count_rows c rows) \<and> distinct (map hd res))"

text \<open>What the statements of store.go mean: the insertion stores a run under its key unless the key is there, and
  reading a row back gives the run.\<close>

definition insert_or_ignore :: "string \<Rightarrow> result \<Rightarrow> run list \<Rightarrow> run list" where
  "insert_or_ignore key r rows =
     (if key \<in> run_Key ` set rows then rows else rows @ [\<lparr>run_Result = r, run_Key = key\<rparr>])"

definition select_runs :: "int \<Rightarrow> int \<Rightarrow> run list \<Rightarrow> run list" where
  "select_runs jobID limit rows =
     take (nat limit) (rev (filter (\<lambda>x. jobID > 0 \<longrightarrow> r_JobID (run_Result x) = jobID) rows))"

lemma insert_row_args: "insert_row insert_columns (insert_args key r) = Some \<lparr>run_Result = r, run_Key = key\<rparr>"
  by (simp add: insert_row_def insert_columns_def insert_args_def set_col_def zero_result_def)

lemma exec_insert: "exec_stmt (InsertInto OrIgnore insert_columns (insert_args key r)) rows = Some (insert_or_ignore key r rows)"
  by (simp add: insert_row_args insert_or_ignore_def)

lemma scan_run_row:
  "scan_run (map (\<lambda>c. get_col c x) [C_key, C_job_id, C_sched_at, C_attempt, C_node_id, C_status, C_exit_code,
     C_started_at, C_finished_at, C_duration_ms, C_stdout, C_stderr]) = Some x"
  by (simp add: scan_run_def)

lemma scanRuns_rows: "scanRuns (map f xs) out = Inr (out @ xs)" if "\<And>x. scan_run (f x) = Some x"
  using that by (induction xs arbitrary: out) simp_all

lemma scan_list_query:
  assumes "0 < limit" "answers (list_query jobID limit) rows res"
  shows "scanRuns res [] = Inr (select_runs jobID limit rows)"
proof -
  have "res = map (\<lambda>x. map (\<lambda>c. get_col c x) [C_key, C_job_id, C_sched_at, C_attempt, C_node_id, C_status, C_exit_code,
      C_started_at, C_finished_at, C_duration_ms, C_stdout, C_stderr])
    (take (nat limit) (rev (filter (where_eq (if jobID > 0 then Some (C_job_id, SqlInt jobID) else None)) rows)))"
    using assms by (simp add: list_query_def select_rows_def)
  moreover have "where_eq (if jobID > 0 then Some (C_job_id, SqlInt jobID) else None) = (\<lambda>x. jobID > 0 \<longrightarrow> r_JobID (run_Result x) = jobID)"
    by (auto simp: where_eq_def)
  ultimately show ?thesis using scanRuns_rows [OF scan_run_row, of _ "[]"] by (simp add: select_runs_def)
qed

text \<open>The counts by status.\<close>

definition status_count :: "string \<Rightarrow> run list \<Rightarrow> int" where
  "status_count st rows = int (length (filter (\<lambda>x. r_Status (run_Result x) = st) rows))"

lemma scanCounts_rows:
  assumes "\<forall>vs \<in> set res. \<exists>st. vs = [SqlText st, SqlInt (f st)]"
  shows "\<exists>cs. scanCounts res out = Inr cs \<and>
    (\<forall>st. map_of cs st = (if SqlText st \<in> set (map hd res) then Some (f st) else map_of out st))"
  using assms
proof (induction res arbitrary: out)
  case (Cons vs res)
  from Cons.prems obtain st where vs: "vs = [SqlText st, SqlInt (f st)]" by auto
  from Cons.IH [of "AList.update st (f st) out"] Cons.prems obtain cs where
    "scanCounts res (AList.update st (f st) out) = Inr cs"
    "\<forall>st'. map_of cs st' = (if SqlText st' \<in> set (map hd res) then Some (f st') else map_of (AList.update st (f st) out) st')" by auto
  with vs show ?case by (auto simp: update_conv)
qed simp

lemma scan_count_query:
  assumes "answers (CountBy C_status) rows res"
  shows "\<exists>cs. scanCounts res [] = Inr cs \<and>
    (\<forall>st. map_of cs st = (if st \<in> (r_Status \<circ> run_Result) ` set rows then Some (status_count st rows) else None))"
proof -
  have set: "set res = (\<lambda>st. [SqlText st, SqlInt (status_count st rows)]) ` (r_Status \<circ> run_Result) ` set rows"
    using assms by (auto simp: count_rows_def status_count_def image_image)
  then have "\<forall>vs \<in> set res. \<exists>st. vs = [SqlText st, SqlInt (status_count st rows)]" by auto
  from scanCounts_rows [OF this, of "[]"] show ?thesis by (simp add: set image_image) (auto simp: image_iff)
qed

text \<open>How a history grows: rows are only added at the end, and a key is never stored twice.\<close>

definition extends :: "run list \<Rightarrow> run list \<Rightarrow> bool" where
  "extends xs ys \<longleftrightarrow> prefix xs ys \<and> (distinct (map run_Key xs) \<longrightarrow> distinct (map run_Key ys))"

lemma extends_refl [simp]: "extends xs xs"
  by (simp add: extends_def)

lemma extends_trans [trans]: "extends xs ys \<Longrightarrow> extends ys zs \<Longrightarrow> extends xs zs"
  by (auto simp: extends_def intro: prefix_order.trans)

lemma extends_insert: "extends xs (insert_or_ignore k r xs)"
  by (auto simp: extends_def insert_or_ignore_def)

text \<open>The rows a sequence of key-value pairs stands for, and the row of a key.\<close>

fun decoded :: "kv list \<Rightarrow> run list" where
  "decoded [] = []"
| "decoded (kv # kvs) = (case unmarshal_result (kv_value kv) of
     None \<Rightarrow> decoded kvs
   | Some r \<Rightarrow> \<lparr>run_Result = r, run_Key = kv_key kv\<rparr> # decoded kvs)"

fun puts :: "watch_event list \<Rightarrow> kv list" where
  "puts [] = []"
| "puts (PutEvent kv # es) = kv # puts es"
| "puts (DeleteEvent k # es) = puts es"

definition row_of :: "run list \<Rightarrow> string \<Rightarrow> run option" where
  "row_of rows k = find (\<lambda>x. run_Key x = k) rows"

lemma row_of_append: "row_of (xs @ ys) k = (case row_of xs k of Some x \<Rightarrow> Some x | None \<Rightarrow> row_of ys k)"
  unfolding row_of_def by (induction xs) auto

lemma row_of_None: "row_of xs k = None \<longleftrightarrow> k \<notin> run_Key ` set xs"
  by (auto simp: row_of_def find_None_iff)

lemma row_of_Cons: "row_of (x # xs) k = (if run_Key x = k then Some x else row_of xs k)"
  by (simp add: row_of_def)

lemma row_of_Nil [simp]: "row_of [] k = None"
  by (simp add: row_of_def)

lemma row_of_insert: "row_of (insert_or_ignore k' r xs) k = row_of (xs @ [\<lparr>run_Result = r, run_Key = k'\<rparr>]) k"
  using row_of_None [of xs k'] by (auto simp: insert_or_ignore_def row_of_append row_of_Cons split: option.splits)

locale runs_table =
  fixes db :: "'d sqldb"
    and rows :: "'d \<Rightarrow> run list"
  assumes exec_ok: "d_Exec db q d = (None, d') \<Longrightarrow> exec_stmt q (rows d) = Some xs \<Longrightarrow> rows d' = xs"
    and exec_err: "d_Exec db q d = (Some e, d') \<Longrightarrow> rows d' = rows d"
    and query_ok: "d_Query db qry d = (Inr (res, None), d') \<Longrightarrow> answers qry (rows d) res"
    and query_keeps: "rows (snd (d_Query db qry d)) = rows d"
begin

lemma InsertRun_rows:
  "InsertRun db key r d = (e, d') \<Longrightarrow> rows d' = (if e = None then insert_or_ignore key r (rows d) else rows d)"
  by (auto simp: InsertRun_def dest: exec_ok [OF _ exec_insert] exec_err split: prod.splits option.splits)

lemma ListRuns_rows:
  assumes "ListRuns db jobID limit d = (Inr xs, d')"
  shows "xs = select_runs jobID (if limit \<le> 0 \<or> limit > 500 then 50 else limit) (rows d)"
proof -
  let ?limit = "if limit \<le> 0 \<or> limit > 500 then 50 else limit"
  obtain res where q: "d_Query db (list_query jobID ?limit) d = (Inr (res, None), d')" "scanRuns res [] = Inr xs"
    using assms by (auto simp: ListRuns_def Let_def split: prod.splits sum.splits option.splits if_splits)
  have "0 < ?limit" by simp
  from scan_list_query [OF this query_ok [OF q(1)]] q(2) show ?thesis by simp
qed

lemma Counts_rows:
  assumes "Counts db d = ((Some cs, None), d')"
  shows "map_of cs st = (if st \<in> (r_Status \<circ> run_Result) ` set (rows d) then Some (status_count st (rows d)) else None)"
proof -
  obtain res where q: "d_Query db (CountBy C_status) d = (Inr (res, None), d')" "scanCounts res [] = Inr cs"
    using assms by (auto simp: Counts_def split: prod.splits sum.splits)
  from scan_count_query [OF query_ok [OF q(1)]] q(2) show ?thesis by simp
qed

lemma put_run_extends: "extends (rows d) (rows (put_run db kv d))"
proof (cases "unmarshal_result (kv_value kv)")
  case (Some r)
  obtain e d' where "InsertRun db (kv_key kv) r d = (e, d')" by fastforce
  with Some InsertRun_rows [OF this] show ?thesis by (auto simp: put_run_def extends_insert)
qed (simp add: put_run_def)

lemma put_event_extends: "extends (rows d) (rows (put_event db e d))"
  by (cases e) (simp_all add: put_run_extends)

lemma fold_extends: "(\<And>x d. extends (rows d) (rows (f x d))) \<Longrightarrow> extends (rows d) (rows (fold f xs d))"
  by (induction xs arbitrary: d) (auto intro: extends_trans)

lemma fold_put_run:
  assumes "\<And>k r d. fst (InsertRun db k r d) = None"
  shows "row_of (rows (fold (put_run db) kvs d)) k = row_of (rows d @ decoded kvs) k"
proof (induction kvs arbitrary: d)
  case (Cons kv kvs)
  show ?case
  proof (cases "unmarshal_result (kv_value kv)")
    case (Some r)
    obtain e d' where i: "InsertRun db (kv_key kv) r d = (e, d')" by fastforce
    moreover have "e = None" using assms [of "kv_key kv" r d] i by simp
    ultimately have "rows (put_run db kv d) = insert_or_ignore (kv_key kv) r (rows d)"
      using Some InsertRun_rows [OF i] by (simp add: put_run_def)
    with Cons.IH [of "put_run db kv d"] Some show ?thesis
      by (auto simp: row_of_append row_of_insert row_of_Cons split: option.splits)
  qed (use Cons in \<open>simp add: put_run_def\<close>)
qed simp

lemma put_run_set: "set (rows (put_run db kv d)) \<subseteq> set (rows d) \<union> set (decoded [kv])"
proof (cases "unmarshal_result (kv_value kv)")
  case (Some r)
  obtain e d' where "InsertRun db (kv_key kv) r d = (e, d')" by fastforce
  with Some InsertRun_rows [OF this] show ?thesis by (auto simp: put_run_def insert_or_ignore_def)
qed (simp add: put_run_def)

lemma fold_put_run_set: "set (rows (fold (put_run db) kvs d)) \<subseteq> set (rows d) \<union> set (decoded kvs)"
proof (induction kvs arbitrary: d)
  case (Cons kv kvs)
  have "set (decoded (kv # kvs)) = set (decoded [kv]) \<union> set (decoded kvs)" by (simp split: option.splits)
  with Cons.IH [of "put_run db kv d"] put_run_set [of kv d] show ?case by auto
qed simp

lemma fold_put_event: "fold (put_event db) evs d = fold (put_run db) (puts evs) d"
  by (induction evs arbitrary: d rule: puts.induct) auto

end

text \<open>A published result: one that a read of the results prefix finds, or that a watch of that prefix delivers as put, decoded,
  under its key.\<close>

definition published :: "'w mirror \<Rightarrow> run \<Rightarrow> bool" where
  "published m x \<longleftrightarrow>
     (\<exists>w resp w'. w_get (mi_cli m) ResultsPrefix (Prefix 0) w = (Inr resp, w') \<and> x \<in> set (decoded (gr_kvs resp))) \<or>
     (\<exists>rev w evs w'. mi_watch m ResultsPrefix rev w = (evs, w') \<and> x \<in> set (decoded (puts evs)))"

text \<open>The mirror's surroundings: the table, which reading from etcd leaves alone.\<close>

locale mirror_env = runs_table "mi_store m" rows
  for m :: "'w mirror" and rows :: "'w \<Rightarrow> run list" +
  assumes get_rows: "rows (snd (w_get (mi_cli m) k opt w)) = rows w"
    and watch_rows: "rows (snd (mi_watch m p r w)) = rows w"
begin

lemma mirror_turn_extends: "extends (rows w) (rows (mirror_turn m w))"
proof -
  obtain y w1 where g: "w_get (mi_cli m) ResultsPrefix (Prefix 0) w = (y, w1)" by (cases "w_get (mi_cli m) ResultsPrefix (Prefix 0) w")
  have r1: "rows w1 = rows w" using get_rows [of ResultsPrefix "Prefix 0" w] g by simp
  show ?thesis
  proof (cases y)
    case (Inr resp)
    let ?w2 = "fold (put_run (mi_store m)) (gr_kvs resp) w1"
    obtain evs w3 where e: "mi_watch m ResultsPrefix (gr_rev resp + 1) ?w2 = (evs, w3)" by fastforce
    have "rows w3 = rows ?w2" using watch_rows [of ResultsPrefix "gr_rev resp + 1" ?w2] e by simp
    moreover have "extends (rows w) (rows ?w2)" using fold_extends put_run_extends r1 by metis
    moreover have "extends (rows w3) (rows (fold (put_event (mi_store m)) evs w3))"
      by (rule fold_extends) (rule put_event_extends)
    ultimately show ?thesis using g Inr e extends_trans by (simp add: mirror_turn_def)
  qed (simp add: mirror_turn_def g r1)
qed

lemma Run_mirror_extends: "extends (rows w) (rows (Run_mirror m n w))"
proof (induction n arbitrary: w)
  case (Suc n)
  from mirror_turn_extends [of w] Suc.IH [of "mirror_turn m w"]
  have "extends (rows w) (rows (Run_mirror m n (mirror_turn m w)))" by (rule extends_trans)
  then show ?case by simp
qed simp

lemma mirror_turn_set: "set (rows (mirror_turn m w)) \<subseteq> set (rows w) \<union> {x. published m x}"
proof -
  obtain y w1 where g: "w_get (mi_cli m) ResultsPrefix (Prefix 0) w = (y, w1)" by (cases "w_get (mi_cli m) ResultsPrefix (Prefix 0) w")
  have r1: "rows w1 = rows w" using get_rows [of ResultsPrefix "Prefix 0" w] g by simp
  show ?thesis
  proof (cases y)
    case (Inr resp)
    let ?w2 = "fold (put_run (mi_store m)) (gr_kvs resp) w1"
    obtain evs w3 where e: "mi_watch m ResultsPrefix (gr_rev resp + 1) ?w2 = (evs, w3)" by fastforce
    have "rows w3 = rows ?w2" using watch_rows [of ResultsPrefix "gr_rev resp + 1" ?w2] e by simp
    moreover have "set (decoded (gr_kvs resp)) \<subseteq> {x. published m x}" using g Inr by (auto simp: published_def)
    moreover have "set (decoded (puts evs)) \<subseteq> {x. published m x}" using e unfolding published_def by blast
    ultimately show ?thesis
      using g Inr e r1 fold_put_run_set [of "gr_kvs resp" w1] fold_put_run_set [of "puts evs" w3]
      by (auto simp: mirror_turn_def fold_put_event)
  qed (simp add: mirror_turn_def g r1)
qed

lemma Run_mirror_set: "set (rows (Run_mirror m n w)) \<subseteq> set (rows w) \<union> {x. published m x}"
proof (induction n arbitrary: w)
  case (Suc n)
  from Suc.IH [of "mirror_turn m w"] mirror_turn_set [of w] show ?case by auto
qed simp

lemma mirror_turn_rows:
  assumes "\<And>k r d. fst (InsertRun (mi_store m) k r d) = None"
    and "w_get (mi_cli m) ResultsPrefix (Prefix 0) w = (Inr resp, w1)"
    and "mi_watch m ResultsPrefix (gr_rev resp + 1) (fold (put_run (mi_store m)) (gr_kvs resp) w1) = (evs, w3)"
  shows "row_of (rows (mirror_turn m w)) k = row_of (rows w @ decoded (gr_kvs resp) @ decoded (puts evs)) k"
proof -
  have "rows w1 = rows w" using get_rows [of ResultsPrefix "Prefix 0" w] assms(2) by simp
  moreover have "rows w3 = rows (fold (put_run (mi_store m)) (gr_kvs resp) w1)"
    using watch_rows [of ResultsPrefix "gr_rev resp + 1"] assms(3) by (metis snd_conv)
  ultimately show ?thesis
    using assms(2,3)
    by (simp add: mirror_turn_def fold_put_event fold_put_run [OF assms(1)] row_of_append split: option.splits)
qed

end

text \<open>A driver also opens and closes a handle: a statement leaves it as it is, and a failed open gives
  none.\<close>

locale sql_handle = runs_table db rows
  for db :: "'d sqldb" and rows :: "'d \<Rightarrow> run list" +
  fixes is_open :: "'d \<Rightarrow> bool"
  assumes mkdir_keeps: "is_open (snd (d_MkdirAll db p d)) = is_open d"
    and open_iff: "d_Open db p d = (e, d') \<Longrightarrow> is_open d' = (is_open d \<or> e = None)"
    and exec_keeps: "is_open (snd (d_Exec db q d)) = is_open d"
    and close_closes: "\<not> is_open (snd (d_Close db d))"
begin

lemma execAll_handle:
  "execAll db ctx qs d = (e, d') \<Longrightarrow> is_open d' = (is_open d \<and> e = None)"
proof (induction qs arbitrary: d)
  case (Cons q qs)
  obtain e1 d1 where q: "d_Exec db (Ddl q) d = (e1, d1)" by fastforce
  then have "is_open d1 = is_open d" using exec_keeps [of "Ddl q" d] by simp
  with Cons q close_closes [of d1] show ?case by (cases e1) auto
qed simp

lemma Open_handle:
  assumes "Open db path d = (e, d')" "\<not> is_open d"
  shows "is_open d' \<longleftrightarrow> e = None"
proof -
  obtain e1 d1 where 1: "d_MkdirAll db (Dir path) d = (e1, d1)" by fastforce
  then have o1: "\<not> is_open d1" using mkdir_keeps [of "Dir path" d] assms(2) by simp
  obtain e2 d2 where 2: "d_Open db path d1 = (e2, d2)" by fastforce
  have o2: "is_open d2 = (e2 = None)" using open_iff [OF 2] o1 by simp
  obtain e3 d3 where 3: "execAll db (\<lambda>q. ''store: '' @ q @ '': '') pragmas d2 = (e3, d3)" by fastforce
  have o3: "is_open d3 = (e2 = None \<and> e3 = None)" using execAll_handle [OF 3] o2 by simp
  show ?thesis
  proof (cases "e1 = None \<and> e2 = None \<and> e3 = None")
    case True
    then have "execAll db (\<lambda>_. ''store: migrate: '') [schema] d3 = (e, d')" using assms(1) 1 2 3 by (simp add: Open_def)
    from execAll_handle [OF this] True o3 show ?thesis by simp
  next
    case False
    then show ?thesis using assms(1) 1 2 3 o1 o2 o3 by (auto simp: Open_def split: option.splits)
  qed
qed

end

subsection \<open>A database in memory\<close>

text \<open>The table as a list of rows; the script says which statements fail.\<close>

record memdb =
  md_rows :: "run list"
  md_open :: bool
  md_fail :: "bool list"

definition db_error :: gerr where
  "db_error = Errorf ''database is locked''"

definition step_db :: "memdb \<Rightarrow> bool \<times> memdb" where
  "step_db d = (case md_fail d of [] \<Rightarrow> (False, d) | b # bs \<Rightarrow> (b, d\<lparr>md_fail := bs\<rparr>))"

definition try_db :: "(memdb \<Rightarrow> memdb) \<Rightarrow> memdb \<Rightarrow> gerr option \<times> memdb" where
  "try_db f d = (case step_db d of (True, d') \<Rightarrow> (Some db_error, d') | (False, d') \<Rightarrow> (None, f d'))"

definition query_db :: "query \<Rightarrow> run list \<Rightarrow> sqlval list list" where
  "query_db q rows = (case q of Select cs cond dir lim \<Rightarrow> select_rows cs cond dir lim rows | CountBy c \<Rightarrow> count_rows c rows)"

lemma answers_query_db: "answers q rows (query_db q rows)"
proof (cases q)
  case (CountBy c)
  have "distinct (map hd (count_rows c rows))" by (simp add: count_rows_def comp_def)
  with CountBy show ?thesis by (simp add: query_db_def)
qed (simp add: query_db_def)

definition local_db :: "memdb sqldb" where
  "local_db = \<lparr>d_MkdirAll = (\<lambda>p. try_db id), d_Open = (\<lambda>p. try_db (\<lambda>d. d\<lparr>md_open := True\<rparr>)),
     d_Exec = (\<lambda>q d. case exec_stmt q (md_rows d) of
        None \<Rightarrow> (Some db_error, d)
      | Some xs \<Rightarrow> try_db (\<lambda>d. d\<lparr>md_rows := xs\<rparr>) d),
     d_Query = (\<lambda>q d. case step_db d of
        (True, d') \<Rightarrow> (Inl db_error, d')
      | (False, d') \<Rightarrow> (Inr (query_db q (md_rows d'), None), d')),
     d_Close = (\<lambda>d. (None, d\<lparr>md_open := False\<rparr>))\<rparr>"

lemmas local_db_simps = local_db_def try_db_def step_db_def

interpretation ldb: sql_handle local_db md_rows md_open
  by unfold_locales
    (auto simp: local_db_simps answers_query_db split: list.splits bool.splits prod.splits if_splits option.splits)

definition fresh_db :: memdb where
  "fresh_db = \<lparr>md_rows = [], md_open = False, md_fail = []\<rparr>"


text \<open>A world beside a database: the calls of either leave the other alone.\<close>

definition on_fst :: "('w \<Rightarrow> 'r \<times> 'w) \<Rightarrow> 'w \<times> 'd \<Rightarrow> 'r \<times> 'w \<times> 'd" where
  "on_fst f s = (case f (fst s) of (r, w) \<Rightarrow> (r, w, snd s))"

definition on_snd :: "('d \<Rightarrow> 'r \<times> 'd) \<Rightarrow> 'w \<times> 'd \<Rightarrow> 'r \<times> 'w \<times> 'd" where
  "on_snd f s = (case f (snd s) of (r, d) \<Rightarrow> (r, fst s, d))"

lemma on_fst_sel [simp]: "fst (on_fst f s) = fst (f (fst s))" "fst (snd (on_fst f s)) = snd (f (fst s))" "snd (snd (on_fst f s)) = snd s"
  by (simp_all add: on_fst_def split: prod.splits)

lemma on_snd_sel [simp]: "fst (on_snd f s) = fst (f (snd s))" "fst (snd (on_snd f s)) = fst s" "snd (snd (on_snd f s)) = snd (f (snd s))"
  by (simp_all add: on_snd_def split: prod.splits)

lemma on_fst_eq: "on_fst f s = (r, s') \<longleftrightarrow> f (fst s) = (r, fst s') \<and> snd s' = snd s"
  by (cases s') (auto simp: on_fst_def split: prod.splits)

lemma on_snd_eq: "on_snd f s = (r, s') \<longleftrightarrow> f (snd s) = (r, snd s') \<and> fst s' = fst s"
  by (cases s') (auto simp: on_snd_def split: prod.splits)

definition beside :: "'w world \<Rightarrow> ('w \<times> 'd) world" where
  "beside W = \<lparr>w_get = (\<lambda>k opt. on_fst (w_get W k opt)), w_put = (\<lambda>k d l. on_fst (w_put W k d l)),
     w_txn = (\<lambda>cs ts es. on_fst (w_txn W cs ts es)), w_now = on_fst (w_now W), w_rand = (\<lambda>n. on_fst (w_rand W n))\<rparr>"

definition below :: "'d sqldb \<Rightarrow> ('w \<times> 'd) sqldb" where
  "below db = \<lparr>d_MkdirAll = (\<lambda>p. on_snd (d_MkdirAll db p)), d_Open = (\<lambda>p. on_snd (d_Open db p)),
     d_Exec = (\<lambda>q. on_snd (d_Exec db q)), d_Query = (\<lambda>q. on_snd (d_Query db q)), d_Close = on_snd (d_Close db)\<rparr>"

lemma etcd_beside: "etcd W view rely \<Longrightarrow> etcd (beside W) (view \<circ> fst) rely"
  unfolding etcd_def beside_def by (simp add: on_fst_eq)

lemma table_below: "runs_table db rows \<Longrightarrow> runs_table (below db) (rows \<circ> snd)"
  unfolding runs_table_def below_def by (simp add: on_snd_eq)

definition local_mirror :: "watch_event list \<Rightarrow> 'd sqldb \<Rightarrow> (unit mem \<times> 'd) mirror" where
  "local_mirror evs db = New_mirror (beside (mem_world idle)) (\<lambda>p r w. (evs, w)) (below db)"

lemma local_mirror_sel [simp]:
  "mi_cli (local_mirror evs db) = beside (mem_world idle)" "mi_store (local_mirror evs db) = below db"
  "mi_watch (local_mirror evs db) = (\<lambda>p r w. (evs, w))"
  by (simp_all add: local_mirror_def New_mirror_def)

lemma beside_get [simp]: "w_get (beside W) k opt = on_fst (w_get W k opt)"
  by (simp add: beside_def)

lemma local_mirror_env: "runs_table db rows \<Longrightarrow> mirror_env (local_mirror evs db) (rows \<circ> snd)"
  by (intro mirror_env.intro mirror_env_axioms.intro) (simp_all add: table_below)

interpretation lm: mirror_env "local_mirror evs local_db" "md_rows \<circ> snd" for evs
  by (rule local_mirror_env) (rule ldb.runs_table_axioms)

subsection \<open>Properties\<close>

definition demo_event :: kv where
  "demo_event = \<lparr>kv_key = ResultKey demo_ticket, kv_value = marshal_result zero_result, kv_modrev = 1, kv_version = 1, kv_lease = NoLease\<rparr>"

lemma demo_event_result: "unmarshal_result (kv_value demo_event) = Some zero_result" "kv_key demo_event = ResultKey demo_ticket"
  using unmarshal_marshal_result [of zero_result] by (simp_all add: demo_event_def result_int64_def zero_result_def int64_defs)

text \<open>C33. The history is an append-only record of published results: however many turns the mirror makes, whatever
  the watch delivers and whichever statements and reads fail, the rows a node has recorded stay, in their
  order, new rows come after them, no key is recorded twice, and every new row is a published result: one that was read
  or delivered under the results prefix, under the key and with the fields it had there.  The table is
  changed only by the statement that \<open>InsertRun\<close> issues, with the meaning \<open>exec_stmt\<close> gives it.\<close>

theorem history_append_only:
  assumes "mirror_env m rows" "distinct (map run_Key (rows w))"
  shows "prefix (rows w) (rows (Run_mirror m n w)) \<and> distinct (map run_Key (rows (Run_mirror m n w))) \<and>
    (\<forall>x \<in> set (rows (Run_mirror m n w)). x \<in> set (rows w) \<or> published m x)"
  using mirror_env.Run_mirror_extends [OF assms(1), of w n] mirror_env.Run_mirror_set [OF assms(1), of n w] assms(2)
  by (auto simp: extends_def)

definition old_run :: run where
  "old_run = \<lparr>run_Result = zero_result, run_Key = ''old''\<rparr>"

theorem history_append_only_witness:
  "\<exists>xs. md_rows (snd (Run_mirror (local_mirror [PutEvent demo_event] local_db) 2 (mem_of empty_store 0, fresh_db\<lparr>md_rows := [old_run]\<rparr>))) = old_run # xs \<and>
     distinct (map run_Key (old_run # xs)) \<and> (\<forall>y \<in> set xs. published (local_mirror [PutEvent demo_event] local_db) y)"
proof -
  let ?w = "(mem_of empty_store 0, fresh_db\<lparr>md_rows := [old_run]\<rparr>)"
  let ?rows = "md_rows (snd (Run_mirror (local_mirror [PutEvent demo_event] local_db) 2 ?w))"
  from history_append_only [OF lm.mirror_env_axioms, of ?w "[PutEvent demo_event]" 2]
  have h: "prefix [old_run] ?rows" "distinct (map run_Key ?rows)"
    "\<forall>y \<in> set ?rows. y = old_run \<or> published (local_mirror [PutEvent demo_event] local_db) y" by auto
  then obtain xs where xs: "?rows = old_run # xs" by (auto simp: prefix_def)
  moreover from this h(2) have "old_run \<notin> set xs" by force
  ultimately show ?thesis using h(2,3) by (intro exI [of _ xs]) auto
qed

text \<open>C34. A turn of the mirror misses nothing and lets the first result of a key win: if the read and the
  inserts succeed, there was a moment such that afterwards the row of every key is the one it had
  before, else the result the store held under the key at that moment, else the first result the watch
  delivered for it; entries that do not decode are skipped, and deletions are not mirrored.\<close>

theorem mirror_turn_complete:
  assumes "etcd (mi_cli m) view rely" "mirror_env m rows" "\<And>k r d. fst (InsertRun (mi_store m) k r d) = None"
    and "w_get (mi_cli m) ResultsPrefix (Prefix 0) w = (Inr resp, w1)"
    and "mi_watch m ResultsPrefix (gr_rev resp + 1) (fold (put_run (mi_store m)) (gr_kvs resp) w1) = (evs, w3)"
  shows "\<exists>u. rely (view w) u \<and> gr_rev resp = es_rev u \<and>
    (\<forall>k. row_of (rows (mirror_turn m w)) k =
       row_of (rows w @ decoded (prefix_kvs u ResultsPrefix) @ decoded (puts evs)) k)"
proof -
  from etcd.get_ok [OF assms(1,4)] obtain u where "rely (view w) u" "resp = get_view u ResultsPrefix (Prefix 0)" by blast
  then show ?thesis
    using mirror_env.mirror_turn_rows [OF assms(2-5)] by (auto simp: get_view_def)
qed

definition reliable_db :: "run list sqldb" where
  "reliable_db = \<lparr>d_MkdirAll = (\<lambda>p d. (None, d)), d_Open = (\<lambda>p d. (None, d)),
     d_Exec = (\<lambda>q d. case exec_stmt q d of None \<Rightarrow> (Some db_error, d) | Some d' \<Rightarrow> (None, d')),
     d_Query = (\<lambda>q d. (Inr (query_db q d, None), d)), d_Close = (\<lambda>d. (None, d))\<rparr>"

interpretation rdb: runs_table reliable_db "\<lambda>d. d"
  by unfold_locales (auto simp: reliable_db_def answers_query_db split: option.splits)

lemma reliable_insert: "fst (InsertRun (below reliable_db) k r d) = None"
  by (simp add: InsertRun_def below_def reliable_db_def on_snd_def exec_insert del: exec_stmt.simps split: prod.splits option.splits)

lemma mem_beside_quiet:
  "mem_script m = [] \<Longrightarrow> on_fst (mem_get env k opt) (m, d) = (Inr (get_view (mem_store m) k opt), m, d)"
  by (simp add: on_fst_def mem_get_quiet)

theorem mirror_turn_complete_witness:
  "row_of (snd (mirror_turn (local_mirror [PutEvent demo_event] reliable_db) (mem_of empty_store 0, []))) (ResultKey demo_ticket) =
     Some \<lparr>run_Result = zero_result, run_Key = ResultKey demo_ticket\<rparr>"
proof -
  let ?m = "local_mirror [PutEvent demo_event] reliable_db" and ?w = "(mem_of empty_store 0, [])"
  have env: "etcd (mi_cli ?m) (mem_store \<circ> fst) (=)" "mirror_env ?m ((\<lambda>d. d) \<circ> snd)"
    using etcd_beside [OF calm.etcd_axioms] local_mirror_env [OF rdb.runs_table_axioms] by simp_all
  have g: "w_get (mi_cli ?m) ResultsPrefix (Prefix 0) ?w = (Inr (get_view empty_store ResultsPrefix (Prefix 0)), ?w)"
    by (simp add: mem_beside_quiet)
  from mirror_turn_complete [OF env _ g] show ?thesis
    by (auto simp: reliable_insert prefix_kvs_def empty_store_def demo_event_result row_of_Cons)
qed

text \<open>Opening the store leaks no handle: \<open>Open\<close> returns with an open database exactly when it reports no
  error; when a pragma or the migration fails the handle it had opened is closed again.\<close>

theorem Open_no_leak:
  assumes "sql_handle db rows is_open" "Open db path d = (e, d')" "\<not> is_open d"
  shows "is_open d' \<longleftrightarrow> e = None"
  using assms by (rule sql_handle.Open_handle)

theorem Open_no_leak_witness:
  "\<not> md_open (snd (Open local_db ''data/orbix.db'' (fresh_db\<lparr>md_fail := [False, False, False, True]\<rparr>)))"
proof -
  let ?d = "fresh_db\<lparr>md_fail := [False, False, False, True]\<rparr>"
  obtain e d' where o: "Open local_db ''data/orbix.db'' ?d = (e, d')" by fastforce
  then have "e \<noteq> None" by (auto simp: Open_def pragmas_def local_db_simps fresh_db_def)
  with Open_no_leak [OF ldb.sql_handle_axioms o] o show ?thesis by (simp add: fresh_db_def)
qed

end
