(* ===== verification/Cluster.thy ===== *)
theory Cluster
  imports History
begin

section \<open>Membership and election: internal/cluster\<close>

text \<open>
  A node keeps two etcd sessions: one for its membership and the leader key, one for its claims.  A
  session of etcd's \<open>concurrency\<close> package is a lease that is kept alive until it is closed or lost; the
  package, the context and the watch are the parameter \<open>cenv\<close>, beside the client of theory \<open>Etcd\<close>.
  The node's own state is a record; each method is a function on it.  The loop of \<open>Run\<close> is cut where
  it blocks: \<open>electTurn\<close> is one turn up to the point where the node leads, follows or stops, and
  \<open>stepDown\<close> is what happens when the session of a leader ends.  The election's steps on the store are
  the relation \<open>leader_step\<close>; the refinement lemmas show that the methods move the store by such steps
  only, and the invariant gives the safety of the election.
\<close>

subsection \<open>The node: session.go\<close>

definition leaderKey :: string where "leaderKey = ''/cron/leader''"
definition membersPrefix :: string where "membersPrefix = ''/cron/members/''"

datatype EventKind = LeaderGained | LeaderLost

record node =
  n_ID :: string
  n_cfg :: config
  n_session :: "int option"
  n_claimSession :: "int option"
  n_isLeader :: bool
  n_leader :: leader_info
  n_events :: "EventKind list"

text \<open>What a watch on one key delivers while a node follows: batches of events until the context is
  done, the session is lost or the channel is closed.\<close>

datatype follow_stream = CtxDone | SessDone | Closed | Batch "watch_event list" follow_stream

text \<open>The surroundings of a node: dialling and closing the client, opening a session with a time to live
  and closing it, the context's error, waiting until a session is lost (or the context is done first,
  which is the answer \<open>True\<close>), waiting for a while (which the context may end), and the watch.\<close>

record 'w cenv =
  ce_cli :: "'w world"
  ce_dial :: "string list \<Rightarrow> 'w \<Rightarrow> gerr option \<times> 'w"
  ce_hangup :: "'w \<Rightarrow> 'w"
  ce_NewSession :: "int \<Rightarrow> 'w \<Rightarrow> (gerr + int) \<times> 'w"
  ce_CloseSession :: "int \<Rightarrow> 'w \<Rightarrow> 'w"
  ce_Err :: "'w \<Rightarrow> gerr option \<times> 'w"
  ce_Done :: "int \<Rightarrow> 'w \<Rightarrow> bool \<times> 'w"
  ce_After :: "duration \<Rightarrow> 'w \<Rightarrow> gerr option \<times> 'w"
  ce_Watch :: "string \<Rightarrow> int \<Rightarrow> 'w \<Rightarrow> follow_stream \<times> 'w"

text \<open>The retry loop both sessions are opened with: it ends when a session is granted or the context is
  done, and may otherwise go on for ever.\<close>

definition nextBackoff :: "duration \<Rightarrow> duration" where
  "nextBackoff backoff = (if backoff < 8 * Second then backoff * 2 else backoff)"

partial_function (option) sessionLoop :: "'w cenv \<Rightarrow> int \<Rightarrow> duration \<Rightarrow> 'w \<Rightarrow> ((gerr + int) \<times> 'w) option" where
  "sessionLoop E ttl backoff w =
     (case ce_Err E w of
        (Some err, w1) \<Rightarrow> Some (Inl err, w1)
      | (None, w1) \<Rightarrow> (case ce_NewSession E ttl w1 of
          (Inr sess, w2) \<Rightarrow> Some (Inr sess, w2)
        | (Inl _, w2) \<Rightarrow> (case ce_After E backoff w2 of
            (Some err, w3) \<Rightarrow> Some (Inl err, w3)
          | (None, w3) \<Rightarrow> sessionLoop E ttl (nextBackoff backoff) w3)))"

declare sessionLoop.simps [code]

definition ensureSession :: "'w cenv \<Rightarrow> node \<Rightarrow> 'w \<Rightarrow> ((gerr option \<times> node) \<times> 'w) option" where
  "ensureSession E n w =
     (if n_session n \<noteq> None then Some ((None, n), w)
      else case sessionLoop E (cf_ElectionTTLSec (n_cfg n)) Second w of
             None \<Rightarrow> None
           | Some (Inl err, w1) \<Rightarrow> Some ((Some err, n), w1)
           | Some (Inr sess, w1) \<Rightarrow> Some ((None, n\<lparr>n_session := Some sess\<rparr>), w1))"

definition ensureClaimSession :: "'w cenv \<Rightarrow> node \<Rightarrow> 'w \<Rightarrow> ((gerr option \<times> node) \<times> 'w) option" where
  "ensureClaimSession E n w =
     (if n_claimSession n \<noteq> None then Some ((None, n), w)
      else case sessionLoop E (cf_WorkerLeaseSec (n_cfg n)) Second w of
             None \<Rightarrow> None
           | Some (Inl err, w1) \<Rightarrow> Some ((Some err, n), w1)
           | Some (Inr sess, w1) \<Rightarrow> Some ((None, n\<lparr>n_claimSession := Some sess\<rparr>), w1))"

definition dropSession :: "'w cenv \<Rightarrow> node \<Rightarrow> 'w \<Rightarrow> node \<times> 'w" where
  "dropSession E n w = (case n_session n of
     None \<Rightarrow> (n, w) | Some l \<Rightarrow> (n\<lparr>n_session := None\<rparr>, ce_CloseSession E l w))"

definition dropClaimSession :: "'w cenv \<Rightarrow> node \<Rightarrow> 'w \<Rightarrow> node \<times> 'w" where
  "dropClaimSession E n w = (case n_claimSession n of
     None \<Rightarrow> (n, w) | Some l \<Rightarrow> (n\<lparr>n_claimSession := None\<rparr>, ce_CloseSession E l w))"

definition new_node :: "config \<Rightarrow> node" where
  "new_node cfg = \<lparr>n_ID = cf_NodeID cfg, n_cfg = cfg, n_session = None, n_claimSession = None,
     n_isLeader = False, n_leader = zero_leader, n_events = []\<rparr>"

definition Connect :: "'w cenv \<Rightarrow> config \<Rightarrow> 'w \<Rightarrow> ((gerr + node) \<times> 'w) option" where
  "Connect E cfg w =
     (case ce_dial E (cf_EtcdEndpoints cfg) w of
        (Some err, w1) \<Rightarrow> Some (Inl (Wrap ''cluster: etcd dial: '' err), w1)
      | (None, w1) \<Rightarrow> (case ensureSession E (new_node cfg) w1 of
          None \<Rightarrow> None
        | Some ((Some err, _), w2) \<Rightarrow> Some (Inl err, ce_hangup E w2)
        | Some ((None, n), w2) \<Rightarrow> (case ensureClaimSession E n w2 of
            None \<Rightarrow> None
          | Some ((Some err, n'), w3) \<Rightarrow> Some (Inl err, ce_hangup E (snd (dropSession E n' w3)))
          | Some ((None, n'), w3) \<Rightarrow> Some (Inr n', w3))))"

definition LeaseID :: "node \<Rightarrow> int" where
  "LeaseID n = (case n_session n of None \<Rightarrow> NoLease | Some l \<Rightarrow> l)"

text \<open>The mutexes of a node are left out: a method reads or changes the node record in one piece.  For \<open>ClaimLeaseID\<close>
  this means that a call made while \<open>ensureClaimSession\<close> holds the mutex and retries, which in the program waits for
  its outcome, is a call made after that outcome; no lease is answered only between the drop of a session
  and the next \<open>ensureClaimSession\<close>, or after one that gave up.\<close>

definition ClaimLeaseID :: "node \<Rightarrow> int" where
  "ClaimLeaseID n = (case n_claimSession n of None \<Rightarrow> NoLease | Some l \<Rightarrow> l)"

definition IsLeader :: "node \<Rightarrow> bool" where "IsLeader n = n_isLeader n"

definition Leader :: "node \<Rightarrow> leader_info" where "Leader n = n_leader n"

definition Close :: "'w cenv \<Rightarrow> node \<Rightarrow> 'w \<Rightarrow> node \<times> 'w" where
  "Close E n w = (let (n1, w1) = dropClaimSession E n w; (n2, w2) = dropSession E n1 w1 in (n2, ce_hangup E w2))"

text \<open>How a turn of a loop ends: the loop returns, goes on, or the node leads until its session ends.\<close>

datatype turn = Return | Continue | Lead

text \<open>One turn of \<open>MaintainClaims\<close>: a session is there, or the loop ends; when it is lost it is dropped
  and the loop pauses for a second.  The channel of \<open>claimDone\<close> is closed when there is no session.\<close>

definition claimDone :: "'w cenv \<Rightarrow> node \<Rightarrow> 'w \<Rightarrow> bool \<times> 'w" where
  "claimDone E n w = (case n_claimSession n of None \<Rightarrow> (False, w) | Some l \<Rightarrow> ce_Done E l w)"

definition claimTurn :: "'w cenv \<Rightarrow> node \<Rightarrow> 'w \<Rightarrow> ((turn \<times> node) \<times> 'w) option" where
  "claimTurn E n w =
     (case ce_Err E w of
        (Some _, w1) \<Rightarrow> Some ((Return, n), w1)
      | (None, w1) \<Rightarrow> (case ensureClaimSession E n w1 of
          None \<Rightarrow> None
        | Some ((Some err, n1), w2) \<Rightarrow> Some ((Return, n1), w2)
        | Some ((None, n1), w2) \<Rightarrow> (case claimDone E n1 w2 of
            (True, w3) \<Rightarrow> Some ((Return, n1), w3)
          | (False, w3) \<Rightarrow> let (n2, w4) = dropClaimSession E n1 w3; (_, w5) = ce_After E Second w4
                          in Some ((Continue, n2), w5))))"

definition registerMember :: "'w cenv \<Rightarrow> node \<Rightarrow> 'w \<Rightarrow> gerr option \<times> 'w" where
  "registerMember E n w =
     (case n_session n of
        None \<Rightarrow> (Some (Errorf ''cluster: no session''), w)
      | Some l \<Rightarrow>
          let (now, w1) = w_now (ce_cli E) w;
              m = \<lparr>m_NodeID = n_ID n, m_Addr = cf_HTTPListen (n_cfg n), m_JoinedAt = Format_RFC3339 now\<rparr>
          in case w_put (ce_cli E) (membersPrefix @ n_ID n) (marshal_member m) l w1 of
               (Inl err, w2) \<Rightarrow> (Some err, w2) | (Inr _, w2) \<Rightarrow> (None, w2))"

definition Members :: "'w world \<Rightarrow> 'w \<Rightarrow> (gerr + member list) \<times> 'w" where
  "Members cli w =
     (case w_get cli membersPrefix (Prefix 0) w of
        (Inl err, w1) \<Rightarrow> (Inl err, w1)
      | (Inr resp, w1) \<Rightarrow> (Inr (List.map_filter (unmarshal_member \<circ> kv_value) (gr_kvs resp)), w1))"

text \<open>The event channel holds eight events; one that does not fit is dropped.\<close>

definition emit :: "EventKind \<Rightarrow> node \<Rightarrow> node" where
  "emit e n = (if length (n_events n) < 8 then n\<lparr>n_events := n_events n @ [e]\<rparr> else n)"

subsection \<open>The election: election.go\<close>

definition leaderInfo :: "node \<Rightarrow> instant \<Rightarrow> leader_info" where
  "leaderInfo n now = \<lparr>l_NodeID = n_ID n, l_Since = Format_RFC3339 now\<rparr>"

definition campaign :: "'w cenv \<Rightarrow> node \<Rightarrow> 'w \<Rightarrow> (gerr + bool) \<times> 'w" where
  "campaign E n w =
     (let (now, w1) = w_now (ce_cli E) w
      in w_txn (ce_cli E) [CmpVersion leaderKey 0]
           [OpPut leaderKey (marshal_leader (leaderInfo n now)) (LeaseID n)] [] w1)"

definition rememberLeader :: "data \<Rightarrow> node \<Rightarrow> node" where
  "rememberLeader v n = (case unmarshal_leader v of None \<Rightarrow> n | Some li \<Rightarrow> n\<lparr>n_leader := li\<rparr>)"

text \<open>The events of a batch up to the first deletion, which ends the following.\<close>

fun followEvents :: "watch_event list \<Rightarrow> node \<Rightarrow> bool \<times> node" where
  "followEvents [] n = (False, n)"
| "followEvents (DeleteEvent k # evs) n = (True, n\<lparr>n_leader := zero_leader\<rparr>)"
| "followEvents (PutEvent kv # evs) n = followEvents evs (rememberLeader (kv_value kv) n)"

fun followLoop :: "'w cenv \<Rightarrow> follow_stream \<Rightarrow> node \<Rightarrow> 'w \<Rightarrow> (bool \<times> node) \<times> 'w" where
  "followLoop E CtxDone n w = ((False, n), w)"
| "followLoop E SessDone n w = (let (n1, w1) = dropSession E n w in ((True, n1), w1))"
| "followLoop E Closed n w = (let (err, w1) = ce_Err E w in ((err = None, n), w1))"
| "followLoop E (Batch evs rest) n w =
     (case followEvents evs n of (True, n1) \<Rightarrow> ((True, n1), w) | (False, n1) \<Rightarrow> followLoop E rest n1 w)"

definition follow :: "'w cenv \<Rightarrow> node \<Rightarrow> 'w \<Rightarrow> (bool \<times> node) \<times> 'w" where
  "follow E n w =
     (case w_get (ce_cli E) leaderKey Single w of
        (Inl err, w1) \<Rightarrow>
          let (n1, w2) = dropSession E n w1; (_, w3) = ce_After E Second w2; (err, w4) = ce_Err E w3
          in ((err = None, n1), w4)
      | (Inr resp, w1) \<Rightarrow> (case gr_kvs resp of
            [] \<Rightarrow> (let (err, w2) = ce_Err E w1 in ((err = None, n), w2))
          | kv # _ \<Rightarrow>
              let n1 = rememberLeader (kv_value kv) n;
                  (s, w2) = ce_Watch E leaderKey (gr_rev resp + 1) w1
              in followLoop E s n1 w2))"

definition giveUpSession :: "'w cenv \<Rightarrow> node \<Rightarrow> 'w \<Rightarrow> (turn \<times> node) \<times> 'w" where
  "giveUpSession E n w = (let (n1, w1) = dropSession E n w; (_, w2) = ce_After E Second w1 in ((Continue, n1), w2))"

definition takeLead :: "'w cenv \<Rightarrow> node \<Rightarrow> 'w \<Rightarrow> (turn \<times> node) \<times> 'w" where
  "takeLead E n w =
     (let (now, w1) = w_now (ce_cli E) w
      in ((Lead, emit LeaderGained (n\<lparr>n_isLeader := True, n_leader := leaderInfo n now\<rparr>)), w1))"

definition sessionDone :: "'w cenv \<Rightarrow> node \<Rightarrow> 'w \<Rightarrow> bool \<times> 'w" where
  "sessionDone E n w = (case n_session n of None \<Rightarrow> (False, w) | Some l \<Rightarrow> ce_Done E l w)"

text \<open>A leader waits for the end of its session, also when the context is done, and steps down.\<close>

definition stepDown :: "'w cenv \<Rightarrow> node \<Rightarrow> 'w \<Rightarrow> node \<times> 'w" where
  "stepDown E n w = dropSession E (emit LeaderLost (n\<lparr>n_isLeader := False, n_leader := zero_leader\<rparr>)) (snd (sessionDone E n w))"

definition electTurn :: "'w cenv \<Rightarrow> node \<Rightarrow> 'w \<Rightarrow> ((turn \<times> node) \<times> 'w) option" where
  "electTurn E n w =
     (case ce_Err E w of
        (Some _, w0) \<Rightarrow> Some ((Return, n), w0)
      | (None, w0) \<Rightarrow> (case ensureSession E n w0 of
          None \<Rightarrow> None
        | Some ((Some err, n1), w1) \<Rightarrow> Some ((Return, n1), w1)
        | Some ((None, n1), w1) \<Rightarrow> Some (case registerMember E n1 w1 of
            (Some err, w2) \<Rightarrow> giveUpSession E n1 w2
          | (None, w2) \<Rightarrow> (case campaign E n1 w2 of
              (Inl err, w3) \<Rightarrow> (case ce_Err E w3 of
                  (Some _, w4) \<Rightarrow> ((Return, n1), w4) | (None, w4) \<Rightarrow> giveUpSession E n1 w4)
            | (Inr True, w3) \<Rightarrow> takeLead E n1 w3
            | (Inr False, w3) \<Rightarrow> (case follow E n1 w3 of
                  ((False, n2), w4) \<Rightarrow> ((Return, n2), w4) | ((True, n2), w4) \<Rightarrow> ((Continue, n2), w4))))))"

text \<open>The loop of \<open>Run\<close> as steps: a turn, or a leader stepping down.\<close>

inductive run_step :: "'w cenv \<Rightarrow> turn \<times> node \<times> 'w \<Rightarrow> turn \<times> node \<times> 'w \<Rightarrow> bool" for E where
  elect: "electTurn E n w = Some ((t, n'), w') \<Longrightarrow> run_step E (Continue, n, w) (t, n', w')"
| lost: "stepDown E n w = (n', w') \<Longrightarrow> run_step E (Lead, n, w) (Continue, n', w')"

inductive_cases run_stepE: "run_step E (t, n, w) (t', n', w')"

subsection \<open>Steps of the election on the store\<close>

text \<open>Taking the key needs that it is free; etcd never grants the same lease twice.\<close>

inductive leader_step :: "est \<Rightarrow> est \<Rightarrow> bool" where
  take: "version_at v leaderKey = 0 \<Longrightarrow> leader_step v (commit [OpPut leaderKey info l] v)"
| other: "list_all (\<lambda>x. op_key x \<noteq> leaderKey) ops \<Longrightarrow> leader_step v (commit ops v)"
| lapse: "l \<noteq> NoLease \<Longrightarrow> leader_step v (expire l v)"
| granted: "l \<notin> set (es_used v) \<Longrightarrow> leader_step v (grant l v)"

lemma leader_step_later: "leader_step v v' \<Longrightarrow> wf_est v \<Longrightarrow> wf_est v' \<and> mvcc_le v v'"
  by (erule leader_step.cases)
    (auto simp: wf_commit wf_expire wf_grant mvcc_commit mvcc_expire mvcc_grant)

lemma env_ok_leader: "env_ok leader_step\<^sup>*\<^sup>*"
  by (rule env_ok_steps) (rule leader_step_later)

text \<open>While its lease, which was granted, lives, the leader key is the holder's.\<close>

definition holds :: "int \<Rightarrow> est \<Rightarrow> bool" where
  "holds l v \<longleftrightarrow> l \<in> set (es_used v) \<and>
     (l \<in> es_leases v \<longrightarrow> (\<exists>kv. kv_at v leaderKey = Some kv \<and> kv_lease kv = l))"

lemma holds_step: "leader_step v v' \<Longrightarrow> wf_est v \<Longrightarrow> holds l v \<Longrightarrow> holds l v'"
proof (induction rule: leader_step.induct)
  case (other ops v)
  then have "kv_at (commit ops v) leaderKey = kv_at v leaderKey" by (intro kv_at_commit_other) (auto simp: list_all_iff)
  with other show ?case by (simp add: holds_def commit_leases)
next
  case (lapse l' v)
  then show ?case by (auto simp: holds_def kv_at_expired) (auto simp: expire_def)
qed (auto simp: holds_def wf_version commit_leases grant_def etcd_simps)

lemma holds_steps: "leader_step\<^sup>*\<^sup>* v v' \<Longrightarrow> wf_est v \<Longrightarrow> holds l v \<Longrightarrow> wf_est v' \<and> holds l v'"
  by (induction rule: rtranclp_induct) (auto dest: leader_step_later holds_step)

lemma leader_steps_used: "leader_step\<^sup>*\<^sup>* v v' \<Longrightarrow> set (es_used v) \<subseteq> set (es_used v')"
proof (induction rule: rtranclp_induct)
  case (step y z)
  from step(2) have "set (es_used y) \<subseteq> set (es_used z)"
    by (cases rule: leader_step.cases) (auto simp: commit_leases expire_def grant_def)
  with step show ?case by blast
qed simp

lemma lease_shrinks: "leader_step\<^sup>*\<^sup>* v v' \<Longrightarrow> l \<in> set (es_used v) \<Longrightarrow> l \<in> es_leases v' \<Longrightarrow> l \<in> es_leases v"
proof (induction rule: rtranclp_induct)
  case (step y z)
  have u: "l \<in> set (es_used y)" using leader_steps_used [OF step(1)] step(4) by blast
  from step(2) have "l \<in> es_leases y"
    by (cases rule: leader_step.cases) (use u step(5) in \<open>auto simp: commit_leases expire_def grant_def\<close>)
  with step show ?case by blast
qed

lemma leader_member_keys [simp]: "membersPrefix @ x \<noteq> leaderKey"
  by (simp add: membersPrefix_def leaderKey_def)

text \<open>The steps of the election that a node makes itself: taking the free leader key, and writing its
  member key.\<close>

definition leader_own :: "est \<Rightarrow> est \<Rightarrow> bool" where
  "leader_own v v' \<longleftrightarrow>
     (\<exists>info l. v' = commit [OpPut leaderKey info l] v \<and> version_at v leaderKey = 0 \<and> leases_ok v [OpPut leaderKey info l]) \<or>
     (\<exists>x d l. v' = commit [OpPut (membersPrefix @ x) d l] v \<and> leases_ok v [OpPut (membersPrefix @ x) d l])"

lemma leader_ownI:
  "version_at v leaderKey = 0 \<Longrightarrow> leases_ok v [OpPut leaderKey info l] \<Longrightarrow> leader_own v (commit [OpPut leaderKey info l] v)"
  "leases_ok v [OpPut (membersPrefix @ x) d l] \<Longrightarrow> leader_own v (commit [OpPut (membersPrefix @ x) d l] v)"
  unfolding leader_own_def by blast+

lemma leader_own_step: "leader_own v v' \<Longrightarrow> leader_step v v'"
  by (auto simp: leader_own_def intro: leader_step.take leader_step.other)

text \<open>A node among others: etcd, whose other clients only make steps of the election, and the session
  package, which grants, revokes and loses leases.  The environment allows the node's own steps.\<close>

locale cluster_env = etcd "ce_cli E" view rely
  for E :: "'w cenv" and view :: "'w \<Rightarrow> est" and rely :: "est \<Rightarrow> est \<Rightarrow> bool" +
  assumes leader_own: "leader_own v v' \<Longrightarrow> rely v v'"
    and leader_follow: "rely v v' \<Longrightarrow> leader_step\<^sup>*\<^sup>* v v'"
    and dial_rely: "rely (view w) (view (snd (ce_dial E es w)))"
    and hangup_rely: "rely (view w) (view (ce_hangup E w))"
    and new_lease: "ce_NewSession E ttl w = (Inr l, w') \<Longrightarrow>
      \<exists>u. rely (view w) u \<and> l \<notin> set (es_used u) \<and> l \<noteq> NoLease \<and> rely u (grant l u) \<and> rely (grant l u) (view w')"
    and new_err: "ce_NewSession E ttl w = (Inl err, w') \<Longrightarrow> rely (view w) (view w')"
    and close_rely: "rely (view w) (view (ce_CloseSession E l w))"
    and err_rely: "rely (view w) (view (snd (ce_Err E w)))"
    and done_rely: "rely (view w) (view (snd (ce_Done E l w)))"
    and after_rely: "rely (view w) (view (snd (ce_After E d w)))"
    and watch_rely: "rely (view w) (view (snd (ce_Watch E k r w)))"
begin

lemma holds_later: "rely v v' \<Longrightarrow> wf_est v \<Longrightarrow> holds l v \<Longrightarrow> wf_est v' \<and> holds l v'"
  by (rule holds_steps) (rule leader_follow)

lemma used_later: "rely v v' \<Longrightarrow> l \<in> set (es_used v) \<Longrightarrow> l \<in> set (es_used v')"
  using leader_steps_used [OF leader_follow] by blast

lemma new_rely: "rely (view w) (view (snd (ce_NewSession E ttl w)))"
proof (cases "ce_NewSession E ttl w")
  case (Pair r w')
  show ?thesis
  proof (cases r)
    case (Inr l)
    with Pair new_lease [of ttl w l w'] show ?thesis by (auto intro: rely_trans [OF rely_trans])
  qed (use Pair new_err in auto)
qed

text \<open>The lease of a new session was not used before the call, and is used after it.\<close>

lemma new_fresh: "ce_NewSession E ttl w = (Inr l, w') \<Longrightarrow>
  l \<notin> set (es_used (view w)) \<and> l \<in> set (es_used (view w')) \<and> l \<noteq> NoLease"
proof -
  assume "ce_NewSession E ttl w = (Inr l, w')"
  from new_lease [OF this] obtain u where u: "rely (view w) u" "l \<notin> set (es_used u)" "l \<noteq> NoLease" "rely (grant l u) (view w')" by blast
  have "l \<in> set (es_used (grant l u))" by (simp add: grant_def)
  with u used_later show ?thesis by blast
qed
text \<open>What a call does to the store, as a rule for the result of the call.\<close>

lemma call_rely:
  "ce_NewSession E ttl w = (x, w') \<Longrightarrow> rely (view w) (view w')"
  "ce_Err E w = (e, w') \<Longrightarrow> rely (view w) (view w')"
  "ce_Done E l w = (b, w') \<Longrightarrow> rely (view w) (view w')"
  "ce_After E d w = (e, w') \<Longrightarrow> rely (view w) (view w')"
  "ce_Watch E k r w = (s, w') \<Longrightarrow> rely (view w) (view w')"
  "ce_dial E es w = (e, w') \<Longrightarrow> rely (view w) (view w')"
  "w_now (ce_cli E) w = (i, w') \<Longrightarrow> rely (view w) (view w')"
  "w_get (ce_cli E) k opt w = (g, w') \<Longrightarrow> rely (view w) (view w')"
  using new_rely [of w ttl] err_rely [of w] done_rely [of w l] after_rely [of w d] watch_rely [of w k r] dial_rely [of w es]
    now [of w] get_rely [of w k opt] by auto

lemma sessionLoop_rely: "sessionLoop E ttl b w = Some y \<Longrightarrow> rely (view w) (view (snd y))"
proof -
  have "E' = E \<longrightarrow> rely (view w) (view (snd y))" if "sessionLoop E' ttl b w = Some y" for E'
    using that
  proof (rule sessionLoop.raw_induct [rotated])
    fix f E' ttl b w y
    assume IH: "\<And>E' ttl b w y. f E' ttl b w = Some y \<Longrightarrow> E' = E \<longrightarrow> rely (view w) (view (snd y))"
      and eq: "(case ce_Err E' w of
        (Some err, w1) \<Rightarrow> Some (Inl err, w1)
      | (None, w1) \<Rightarrow> (case ce_NewSession E' ttl w1 of
          (Inr sess, w2) \<Rightarrow> Some (Inr sess, w2)
        | (Inl _, w2) \<Rightarrow> (case ce_After E' b w2 of
            (Some err, w3) \<Rightarrow> Some (Inl err, w3)
          | (None, w3) \<Rightarrow> f E' ttl (nextBackoff b) w3))) = Some y"
    show "E' = E \<longrightarrow> rely (view w) (view (snd y))"
    proof
      assume "E' = E"
      with eq show "rely (view w) (view (snd y))"
        by (auto split: prod.splits option.splits sum.splits dest!: call_rely IH [rule_format, OF _ refl] intro: rely_trans [OF _ new_rely] rely_trans)
    qed
  qed
  then show "sessionLoop E ttl b w = Some y \<Longrightarrow> ?thesis" by blast
qed

lemma sessionLoop_fresh:
  "sessionLoop E ttl b w = Some (Inr l, w') \<Longrightarrow> l \<notin> set (es_used (view w)) \<and> l \<in> set (es_used (view w')) \<and> l \<noteq> NoLease"
proof -
  let ?ok = "\<lambda>w y. \<forall>l. fst y = Inr l \<longrightarrow> l \<notin> set (es_used (view w)) \<and> l \<in> set (es_used (view (snd y))) \<and> l \<noteq> NoLease"
  have prior: "rely (view w) (view w1) \<Longrightarrow> ?ok w1 y \<Longrightarrow> ?ok w y" for w w1 y using used_later by blast
  have "E' = E \<longrightarrow> ?ok w y" if "sessionLoop E' ttl b w = Some y" for E' y
    using that
  proof (rule sessionLoop.raw_induct [rotated])
    fix f E' ttl b w y
    assume IH: "\<And>E' ttl b w y. f E' ttl b w = Some y \<Longrightarrow> E' = E \<longrightarrow> ?ok w y"
      and eq: "(case ce_Err E' w of
        (Some err, w1) \<Rightarrow> Some (Inl err, w1)
      | (None, w1) \<Rightarrow> (case ce_NewSession E' ttl w1 of
          (Inr sess, w2) \<Rightarrow> Some (Inr sess, w2)
        | (Inl _, w2) \<Rightarrow> (case ce_After E' b w2 of
            (Some err, w3) \<Rightarrow> Some (Inl err, w3)
          | (None, w3) \<Rightarrow> f E' ttl (nextBackoff b) w3))) = Some y"
    show "E' = E \<longrightarrow> ?ok w y"
    proof
      assume E: "E' = E"
      obtain e w1 where 1: "ce_Err E w = (e, w1)" by fastforce
      obtain x w2 where 2: "ce_NewSession E ttl w1 = (x, w2)" by fastforce
      obtain e' w3 where 3: "ce_After E b w2 = (e', w3)" by fastforce
      note w1 = call_rely(2) [OF 1] and w3 = rely_trans [OF rely_trans [OF call_rely(2) [OF 1] call_rely(1) [OF 2]] call_rely(4) [OF 3]]
      show "?ok w y"
      proof (cases x)
        case (Inr l)
        then have "?ok w (Inr l, w2)" using new_fresh 2 by (intro prior [OF w1]) auto
        moreover have "y = (Inr l, w2) \<or> (\<exists>err v. y = (Inl err, v))" using eq E 1 2 Inr by (auto split: option.splits)
        ultimately show ?thesis by auto
      next
        case (Inl err)
        then have "(\<exists>e v. y = (Inl e, v)) \<or> f E ttl (nextBackoff b) w3 = Some y" using eq E 1 2 3 by (auto split: option.splits)
        then show ?thesis
        proof
          assume "f E ttl (nextBackoff b) w3 = Some y"
          then have "?ok w3 y" using IH by blast
          then show ?thesis by (rule prior [OF w3])
        qed auto
      qed
    qed
  qed
  from this [of E "(Inr l, w')"] show "sessionLoop E ttl b w = Some (Inr l, w') \<Longrightarrow> ?thesis" by simp
qed

lemma ensure_rely:
  "ensureSession E n w = Some (x, w') \<Longrightarrow> rely (view w) (view w')"
  "ensureClaimSession E n w = Some (x, w') \<Longrightarrow> rely (view w) (view w')"
  by (auto simp: ensureSession_def ensureClaimSession_def dest!: sessionLoop_rely split: if_splits option.splits prod.splits sum.splits)

lemma drop_rely:
  "dropSession E n w = (n', w') \<Longrightarrow> rely (view w) (view w')"
  "dropClaimSession E n w = (n', w') \<Longrightarrow> rely (view w) (view w')"
  using close_rely by (auto simp: dropSession_def dropClaimSession_def split: option.splits)

lemma campaign_txn:
  assumes "campaign E n w = (r, w')"
  shows "\<exists>now w1. rely (view w) (view w1) \<and>
    w_txn (ce_cli E) [CmpVersion leaderKey 0] [OpPut leaderKey (marshal_leader (leaderInfo n now)) (LeaseID n)] [] w1 = (r, w')"
proof -
  obtain now w1 where w1: "w_now (ce_cli E) w = (now, w1)" by fastforce
  with assms call_rely(7) [OF w1] show ?thesis by (auto simp: campaign_def)
qed

lemma campaign_rely: "campaign E n w = (r, w') \<Longrightarrow> rely (view w) (view w')"
proof -
  assume "campaign E n w = (r, w')"
  from campaign_txn [OF this] obtain now w1 where w1: "rely (view w) (view w1)"
    and t: "w_txn (ce_cli E) [CmpVersion leaderKey 0] [OpPut leaderKey (marshal_leader (leaderInfo n now)) (LeaseID n)] [] w1 = (r, w')" by blast
  from t have "rely (view w1) (view w')"
    by (rule txn_refine) (auto intro: leader_own leader_ownI simp: commit_Nil)
  with w1 show ?thesis by (rule rely_trans)
qed

lemma registerMember_rely: "registerMember E n w = (r, w') \<Longrightarrow> rely (view w) (view w')"
proof -
  assume r: "registerMember E n w = (r, w')"
  have p: "rely (view w1) (view w2)" if "w_put (ce_cli E) (membersPrefix @ n_ID n) d l w1 = (x, w2)" for d l w1 x w2
    using that by (rule put_refine) (intro leader_own leader_ownI)
  from r show ?thesis
    by (auto simp: registerMember_def split: option.splits prod.splits sum.splits dest!: call_rely p intro: rely_trans)
qed

lemma followLoop_rely: "followLoop E s n w = (r, w') \<Longrightarrow> rely (view w) (view w')"
  by (induction s arbitrary: n) (auto split: prod.splits bool.splits dest: call_rely drop_rely)

lemma follow_rely: "follow E n w = (r, w') \<Longrightarrow> rely (view w) (view w')"
  by (auto simp: follow_def Let_def split: prod.splits sum.splits list.splits
      dest!: call_rely drop_rely followLoop_rely intro: rely_trans)

lemma giveUpSession_rely: "giveUpSession E n w = (r, w') \<Longrightarrow> rely (view w) (view w')"
  by (auto simp: giveUpSession_def split: prod.splits dest!: call_rely drop_rely intro: rely_trans)

lemma takeLead_rely: "takeLead E n w = (r, w') \<Longrightarrow> rely (view w) (view w')"
  by (auto simp: takeLead_def split: prod.splits dest!: call_rely)

lemma stepDown_rely: "stepDown E n w = (n', w') \<Longrightarrow> rely (view w) (view w')"
proof -
  assume s: "stepDown E n w = (n', w')"
  have "rely (view w) (view (snd (sessionDone E n w)))"
    using done_rely by (simp add: sessionDone_def split: option.splits)
  moreover have "rely (view (snd (sessionDone E n w))) (view w')"
    using s drop_rely(1) by (simp add: stepDown_def)
  ultimately show ?thesis by (rule rely_trans)
qed

lemma electTurn_rely:
  assumes "electTurn E n w = Some (r, w')"
  shows "rely (view w) (view w')"
  using assms
  by (auto simp: electTurn_def split: prod.splits option.splits sum.splits bool.splits
      dest!: call_rely(2) ensure_rely registerMember_rely campaign_rely follow_rely giveUpSession_rely takeLead_rely)
    (meson rely_trans)+

lemma run_step_rely: "run_step E (t, n, w) (t', n', w') \<Longrightarrow> rely (view w) (view w')"
  by (erule run_stepE) (auto dest: electTurn_rely stepDown_rely)

lemma claimTurn_rely: "claimTurn E n w = Some (r, w') \<Longrightarrow> rely (view w) (view w')"
  using done_rely
  by (auto simp: claimTurn_def claimDone_def Let_def split: prod.splits option.splits bool.splits
      dest!: call_rely(2,3,4) ensure_rely drop_rely) (meson rely_trans)+

lemma Connect_rely: "Connect E cfg w = Some (r, w') \<Longrightarrow> rely (view w) (view w')"
  using hangup_rely
  by (auto simp: Connect_def split: prod.splits option.splits sum.splits
      dest!: call_rely(6) ensure_rely intro: rely_trans) (metis drop_rely(1) prod.collapse rely_trans)

lemma Close_rely: "rely (view w) (view (snd (Close E n w)))"
  by (auto simp: Close_def split: prod.splits dest!: drop_rely intro: rely_trans hangup_rely)

text \<open>Winning the campaign takes the key, and keeps it while the lease lives.\<close>

lemma campaign_wins:
  assumes "campaign E n w = (Inr True, w')" "wf_est (view w)" "LeaseID n \<noteq> NoLease"
  shows "holds (LeaseID n) (view w') \<and> wf_est (view w')"
proof -
  let ?op = "\<lambda>now. [OpPut leaderKey (marshal_leader (leaderInfo n now)) (LeaseID n)]"
  from campaign_txn [OF assms(1)] obtain now w1 where w1: "rely (view w) (view w1)"
    and t: "w_txn (ce_cli E) [CmpVersion leaderKey 0] (?op now) [] w1 = (Inr True, w')" by blast
  from txn_ok [OF t] obtain u where u: "rely (view w1) u" "rely (commit (?op now) u) (view w')" and l: "leases_ok u (?op now)"
    by (auto simp: commits_def)
  have "wf_est u" using rely_wf [OF rely_trans [OF w1 u(1)] assms(2)] .
  then have "wf_est (commit (?op now) u)" by (rule wf_commit)
  moreover have "LeaseID n \<in> set (es_used u)" using l assms(3) \<open>wf_est u\<close> by (auto simp: leases_ok_def wf_est_def)
  then have "holds (LeaseID n) (commit (?op now) u)" by (simp add: holds_def etcd_simps)
  ultimately show ?thesis using holds_later [OF u(2)] by blast
qed

lemma campaign_blocked:
  assumes "campaign E n w = (Inr b, w')" "wf_est (view w)" "holds l (view w)" "l \<in> es_leases (view w')"
  shows "\<not> b \<and> (\<exists>kv. kv_at (view w') leaderKey = Some kv \<and> kv_lease kv = l)"
proof -
  let ?op = "\<lambda>now. [OpPut leaderKey (marshal_leader (leaderInfo n now)) (LeaseID n)]"
  from campaign_txn [OF assms(1)] obtain now w1 where w1: "rely (view w) (view w1)"
    and t: "w_txn (ce_cli E) [CmpVersion leaderKey 0] (?op now) [] w1 = (Inr b, w')" by blast
  from txn_ok [OF t] obtain u where u: "rely (view w1) u" "b \<longleftrightarrow> version_at u leaderKey = 0"
    "rely (commit (if b then ?op now else []) u) (view w')" by (auto simp: commits_def)
  have h: "wf_est u \<and> holds l u" using holds_later [OF rely_trans [OF w1 u(1)] assms(2,3)] .
  have "l \<in> es_leases u" using lease_shrinks [OF leader_follow [OF u(3)] _ assms(4)] h by (simp add: commit_leases holds_def)
  with h u(2) have "\<not> b" by (auto simp: holds_def wf_version)
  with h holds_later [OF campaign_rely [OF assms(1)] assms(2,3)] assms(4) show ?thesis by (auto simp: holds_def)
qed

end

subsection \<open>The node's own state\<close>

text \<open>The leader flag is up exactly while the loop waits for the end of the session it won with, and the
  event channel never holds more than eight events.\<close>

definition node_inv :: "turn \<Rightarrow> node \<Rightarrow> bool" where
  "node_inv t n \<longleftrightarrow> (n_isLeader n \<longleftrightarrow> t = Lead) \<and> (t = Lead \<longrightarrow> n_session n \<noteq> None) \<and> length (n_events n) \<le> 8"

lemma emit_simps [simp]:
  "n_isLeader (emit e n) = n_isLeader n" "n_session (emit e n) = n_session n" "n_ID (emit e n) = n_ID n"
  "n_leader (emit e n) = n_leader n" "n_cfg (emit e n) = n_cfg n"
  by (simp_all add: emit_def)

lemma emit_bound: "length (n_events n) \<le> 8 \<Longrightarrow> length (n_events (emit e n)) \<le> 8"
  by (simp add: emit_def)

lemma ensureSession_node:
  "ensureSession E n w = Some ((e, n'), w') \<Longrightarrow>
     n_isLeader n' = n_isLeader n \<and> n_events n' = n_events n \<and> (e = None \<longrightarrow> n_session n' \<noteq> None)"
  by (auto simp: ensureSession_def split: if_splits option.splits prod.splits sum.splits)

lemma dropSession_node: "dropSession E n w = (n', w') \<Longrightarrow> n_isLeader n' = n_isLeader n \<and> n_events n' = n_events n"
  by (auto simp: dropSession_def split: option.splits)

lemma rememberLeader_node [simp]:
  "n_isLeader (rememberLeader v n) = n_isLeader n" "n_events (rememberLeader v n) = n_events n"
  by (simp_all add: rememberLeader_def split: option.splits)

lemma followEvents_node: "followEvents evs n = (b, n') \<Longrightarrow> n_isLeader n' = n_isLeader n \<and> n_events n' = n_events n"
  by (induction evs n rule: followEvents.induct) auto

lemma followLoop_node: "followLoop E s n w = ((b, n'), w') \<Longrightarrow> n_isLeader n' = n_isLeader n \<and> n_events n' = n_events n"
  by (induction s arbitrary: n) (auto split: prod.splits bool.splits dest!: followEvents_node dropSession_node)

lemma follow_node: "follow E n w = ((b, n'), w') \<Longrightarrow> n_isLeader n' = n_isLeader n \<and> n_events n' = n_events n"
  by (auto simp: follow_def Let_def split: prod.splits sum.splits list.splits dest!: followLoop_node dropSession_node)

lemma giveUpSession_node:
  "giveUpSession E n w = ((t, n'), w') \<Longrightarrow> t = Continue \<and> n_isLeader n' = n_isLeader n \<and> n_events n' = n_events n"
  by (auto simp: giveUpSession_def split: prod.splits dest!: dropSession_node)

lemma takeLead_node:
  "takeLead E n w = ((t, n'), w') \<Longrightarrow>
     t = Lead \<and> n_isLeader n' \<and> n_session n' = n_session n \<and> (length (n_events n) \<le> 8 \<longrightarrow> length (n_events n') \<le> 8)"
  by (auto simp: takeLead_def emit_def split: prod.splits)

lemma electTurn_inv: "electTurn E n w = Some ((t, n'), w') \<Longrightarrow> node_inv Continue n \<Longrightarrow> node_inv t n'"
  by (auto simp: electTurn_def node_inv_def split: prod.splits option.splits sum.splits bool.splits
      dest!: ensureSession_node follow_node giveUpSession_node takeLead_node)

lemma run_step_inv: "run_step E s s' \<Longrightarrow> node_inv (fst s) (fst (snd s)) \<Longrightarrow> node_inv (fst s') (fst (snd s'))"
proof (induction rule: run_step.induct)
  case (lost n w n' w')
  then show ?case using emit_bound [of "n\<lparr>n_isLeader := False, n_leader := zero_leader\<rparr>" LeaderLost]
    by (auto simp: stepDown_def node_inv_def dest!: dropSession_node)
qed (use electTurn_inv in auto)

lemma run_steps_inv: "(run_step E)\<^sup>*\<^sup>* s s' \<Longrightarrow> node_inv (fst s) (fst (snd s)) \<Longrightarrow> node_inv (fst s') (fst (snd s'))"
  by (induction rule: rtranclp_induct) (auto intro: run_step_inv)

text \<open>The loop that keeps the claim session leaves the election alone.\<close>

lemma claimTurn_node:
  "claimTurn E n w = Some ((t, n'), w') \<Longrightarrow>
     n_isLeader n' = n_isLeader n \<and> n_session n' = n_session n \<and> n_events n' = n_events n"
  by (auto simp: claimTurn_def ensureClaimSession_def dropClaimSession_def Let_def
      split: prod.splits option.splits bool.splits sum.splits if_splits)

lemma electTurn_Lead:
  "electTurn E n w = Some ((Lead, n'), w') \<Longrightarrow>
     \<exists>w1 n1 w2 w3 w4. ce_Err E w = (None, w1) \<and> ensureSession E n w1 = Some ((None, n1), w2) \<and>
       registerMember E n1 w2 = (None, w3) \<and> campaign E n1 w3 = (Inr True, w4) \<and> takeLead E n1 w4 = ((Lead, n'), w')"
  unfolding electTurn_def
  by (fastforce split: prod.splits option.splits sum.splits bool.splits dest: giveUpSession_node)

text \<open>The leases of the sessions a node has; most of the methods only give leases up.\<close>

definition held :: "node \<Rightarrow> int set" where
  "held n = set_option (n_session n) \<union> set_option (n_claimSession n)"

lemma held_updates [simp]:
  "held (n\<lparr>n_leader := x\<rparr>) = held n" "held (n\<lparr>n_isLeader := b\<rparr>) = held n" "held (emit e n) = held n"
  "held (rememberLeader d n) = held n"
  by (simp_all add: held_def emit_def rememberLeader_def split: option.splits)

lemma drop_held:
  "dropSession E n w = (n', w') \<Longrightarrow> held n' \<subseteq> held n" "dropClaimSession E n w = (n', w') \<Longrightarrow> held n' \<subseteq> held n"
  by (auto simp: dropSession_def dropClaimSession_def held_def split: option.splits)

lemma followEvents_held: "followEvents evs n = (b, n') \<Longrightarrow> held n' = held n"
  by (induction evs n rule: followEvents.induct) auto

lemma followLoop_held: "followLoop E s n w = ((b, n'), w') \<Longrightarrow> held n' \<subseteq> held n"
  by (induction s arbitrary: n) (fastforce split: prod.splits bool.splits dest: followEvents_held drop_held)+

lemma follow_held: "follow E n w = ((b, n'), w') \<Longrightarrow> held n' \<subseteq> held n"
  by (auto simp: follow_def Let_def split: prod.splits sum.splits list.splits dest!: followLoop_held drop_held)

lemma turn_held:
  "giveUpSession E n w = ((t, n'), w') \<Longrightarrow> held n' \<subseteq> held n" "takeLead E n w = ((t, n'), w') \<Longrightarrow> held n' \<subseteq> held n"
  "stepDown E n w = (n', w') \<Longrightarrow> held n' \<subseteq> held n"
  by (auto simp: giveUpSession_def takeLead_def stepDown_def split: prod.splits dest!: drop_held)

lemma electTurn_held:
  assumes "electTurn E n w = Some ((t, n'), w')"
  shows "held n' \<subseteq> held n \<or>
    (\<exists>w0 e n1 w1. ce_Err E w = (None, w0) \<and> ensureSession E n w0 = Some ((e, n1), w1) \<and> held n' \<subseteq> held n1)"
  using assms unfolding electTurn_def
  by (auto split: prod.splits option.splits sum.splits bool.splits dest!: follow_held turn_held)

text \<open>A lease that a node comes to hold was not used before.\<close>

definition gains :: "est \<Rightarrow> node \<Rightarrow> est \<Rightarrow> node \<Rightarrow> bool" where
  "gains v n v' n' \<longleftrightarrow> (\<forall>l \<in> held n'. l \<in> held n \<or> l \<notin> set (es_used v) \<and> l \<in> set (es_used v') \<and> l \<noteq> NoLease)"

lemma gains_less: "held n' \<subseteq> held n \<Longrightarrow> gains v n v' n'"
  by (auto simp: gains_def)

context cluster_env
begin

lemma gains_later: "gains v1 n v2 n' \<Longrightarrow> rely v0 v1 \<Longrightarrow> rely v2 v3 \<Longrightarrow> gains v0 n v3 n'"
  using used_later unfolding gains_def by blast

lemma gains_trans: "gains v1 n1 v2 n2 \<Longrightarrow> gains v2 n2 v3 n3 \<Longrightarrow> rely v1 v2 \<Longrightarrow> rely v2 v3 \<Longrightarrow> gains v1 n1 v3 n3"
  using used_later unfolding gains_def by blast

lemma ensure_gains:
  "ensureSession E n w = Some ((e, n'), w') \<Longrightarrow> gains (view w) n (view w') n'"
  "ensureClaimSession E n w = Some ((e, n'), w') \<Longrightarrow> gains (view w) n (view w') n'"
  unfolding ensureSession_def ensureClaimSession_def
  by (auto simp: gains_def held_def split: if_splits option.splits prod.splits sum.splits dest: sessionLoop_fresh)

lemma electTurn_gains:
  assumes "electTurn E n w = Some ((t, n'), w')"
  shows "gains (view w) n (view w') n'"
proof -
  have "gains (view w) n (view w') n'" if e: "ce_Err E w = (None, w0)" "ensureSession E n w0 = Some ((err, n1), w1)" "held n' \<subseteq> held n1"
      "rely (view w1) (view w')" for w0 err n1 w1
    using gains_later [OF ensure_gains(1) [OF e(2)] call_rely(2) [OF e(1)] e(4)] e(3) by (auto simp: gains_def)
  moreover have "rely (view w1) (view w')" if "ce_Err E w = (None, w0)" "ensureSession E n w0 = Some ((err, n1), w1)" for w0 err n1 w1
    using assms that
    by (auto simp: electTurn_def split: prod.splits option.splits sum.splits bool.splits
      dest!: call_rely(2) registerMember_rely campaign_rely follow_rely giveUpSession_rely takeLead_rely) (meson rely_trans)+
  ultimately show ?thesis using electTurn_held [OF assms] gains_less by blast
qed

lemma claimTurn_gains:
  assumes "claimTurn E n w = Some ((t, n'), w')"
  shows "gains (view w) n (view w') n'"
proof -
  obtain e w0 where e: "ce_Err E w = (e, w0)" by fastforce
  show ?thesis
  proof (cases "e = None")
    case True
    then obtain err n1 w1 where n1: "ensureClaimSession E n w0 = Some ((err, n1), w1)" and h: "held n' \<subseteq> held n1"
      using assms e by (auto simp: claimTurn_def Let_def split: option.splits prod.splits bool.splits dest!: drop_held)
    have "rely (view w1) (view w')"
      using assms e n1 True
      by (auto simp: claimTurn_def claimDone_def Let_def split: prod.splits option.splits bool.splits
          dest!: call_rely(3,4) drop_rely) (meson rely_trans)+
    from gains_later [OF ensure_gains(2) [OF n1] call_rely(2) [OF e] this] h show ?thesis by (auto simp: gains_def)
  qed (use assms e in \<open>auto simp: claimTurn_def gains_def\<close>)
qed

lemma Connect_gains:
  assumes "Connect E cfg w = Some (Inr n, w')"
  shows "gains (view w) (new_node cfg) (view w') n"
proof -
  obtain w1 n1 w2 where d: "ce_dial E (cf_EtcdEndpoints cfg) w = (None, w1)" and s: "ensureSession E (new_node cfg) w1 = Some ((None, n1), w2)"
    and c: "ensureClaimSession E n1 w2 = Some ((None, n), w')"
    using assms by (auto simp: Connect_def split: prod.splits option.splits sum.splits)
  from gains_trans [OF ensure_gains(1) [OF s] ensure_gains(2) [OF c]] ensure_rely(1) [OF s] ensure_rely(2) [OF c]
  have "gains (view w1) (new_node cfg) (view w') n" by blast
  then show ?thesis using call_rely(6) [OF d] by (rule gains_later) simp
qed

lemma run_step_gains: "run_step E (t, n, w) (t', n', w') \<Longrightarrow> gains (view w) n (view w') n'"
  by (erule run_stepE) (auto dest: electTurn_gains turn_held(3) intro: gains_less)

lemma electTurn_wins:
  assumes "electTurn E n w = Some ((Lead, n'), w')" "wf_est (view w)" "LeaseID n' \<noteq> NoLease"
  shows "holds (LeaseID n') (view w')"
proof -
  obtain w1 n1 w2 w3 w4 where e: "ce_Err E w = (None, w1)" "ensureSession E n w1 = Some ((None, n1), w2)"
      "registerMember E n1 w2 = (None, w3)"
    and w4: "campaign E n1 w3 = (Inr True, w4)" "takeLead E n1 w4 = ((Lead, n'), w')"
    using electTurn_Lead [OF assms(1)] by blast
  have "rely (view w) (view w3)"
    using call_rely(2) [OF e(1)] ensure_rely(1) [OF e(2)] registerMember_rely [OF e(3)] by (auto intro: rely_trans)
  then have "wf_est (view w3)" using assms(2) by (rule rely_wf)
  moreover have "LeaseID n1 = LeaseID n'" using takeLead_node [OF w4(2)] by (simp add: LeaseID_def)
  ultimately have "holds (LeaseID n') (view w4) \<and> wf_est (view w4)" using campaign_wins [OF w4(1)] assms(3) by simp
  then show ?thesis using holds_later [OF takeLead_rely [OF w4(2)]] by blast
qed

lemma run_steps_lease: "(run_step E)\<^sup>*\<^sup>* (t, n, w) (t', n', w') \<Longrightarrow> NoLease \<notin> held n \<Longrightarrow> NoLease \<notin> held n'"
proof (induction "(t', n', w')" arbitrary: t' n' w' rule: rtranclp_induct)
  case (step y)
  obtain t1 n1 w1 where y: "y = (t1, n1, w1)" by (cases y)
  show ?case using step.hyps(3) [OF y] step.prems run_step_gains [OF step.hyps(2) [unfolded y]] by (auto simp: gains_def)
qed simp

lemma run_steps_holds:
  assumes "(run_step E)\<^sup>*\<^sup>* (Continue, n, w) (t, n', w')" "wf_est (view w)" "t = Lead" "LeaseID n' \<noteq> NoLease"
  shows "holds (LeaseID n') (view w')"
proof -
  have wf: "(run_step E)\<^sup>*\<^sup>* (Continue, n, w) s \<Longrightarrow> wf_est (view (snd (snd s)))" for s
  proof (induction rule: rtranclp_induct)
    case (step y z)
    then show ?case using run_step_rely [of "fst y" "fst (snd y)" "snd (snd y)" "fst z" "fst (snd z)" "snd (snd z)"]
      by (auto dest: rely_wf)
  qed (simp add: assms(2))
  from assms(1,3) obtain y where y: "(run_step E)\<^sup>*\<^sup>* (Continue, n, w) y" "run_step E y (Lead, n', w')"
    by (metis rtranclp.cases Pair_inject turn.distinct(5))
  from y(2) obtain m v where "electTurn E m v = Some ((Lead, n'), w')" "y = (Continue, m, v)" by (auto elim: run_step.cases)
  with electTurn_wins [of m v n' w'] wf [OF y(1)] assms(4) show ?thesis by simp
qed

end

text \<open>The rounds of the retry loop that fail: the world after \<open>k\<close> of them.\<close>

fun failed_rounds :: "'w cenv \<Rightarrow> int \<Rightarrow> duration \<Rightarrow> nat \<Rightarrow> 'w \<Rightarrow> 'w option" where
  "failed_rounds E ttl b 0 w = Some w"
| "failed_rounds E ttl b (Suc k) w =
     (case ce_Err E w of
        (Some _, _) \<Rightarrow> None
      | (None, w1) \<Rightarrow> (case ce_NewSession E ttl w1 of
          (Inr _, _) \<Rightarrow> None
        | (Inl _, w2) \<Rightarrow> (case ce_After E b w2 of
            (Some _, _) \<Rightarrow> None
          | (None, w3) \<Rightarrow> failed_rounds E ttl (nextBackoff b) k w3)))"

lemma sessionLoop_rounds: "failed_rounds E ttl b k w = Some w' \<Longrightarrow> sessionLoop E ttl b w = sessionLoop E ttl ((nextBackoff ^^ k) b) w'"
proof (induction k arbitrary: b w)
  case (Suc k)
  then have "sessionLoop E ttl b w = sessionLoop E ttl ((nextBackoff ^^ k) (nextBackoff b)) w'"
    by (subst sessionLoop.simps) (auto split: prod.splits option.splits sum.splits)
  then show ?case by (simp add: funpow_swap1)
qed simp

lemma backoff_values: "(nextBackoff ^^ k) Second \<in> {Second, 2 * Second, 4 * Second, 8 * Second}"
  by (induction k) (auto simp: nextBackoff_def)

subsection \<open>A local node\<close>

text \<open>A node over the in-memory store, whose sessions get a fresh lease and whose watch delivers a given
  stream; closing a session revokes its lease.\<close>

definition local_cenv :: "follow_stream \<Rightarrow> unit mem cenv" where
  "local_cenv s = \<lparr>ce_cli = mem_world idle, ce_dial = (\<lambda>_ m. (None, m)), ce_hangup = (\<lambda>m. m),
     ce_NewSession = (\<lambda>ttl m. (Inr (fresh_lease (mem_store m)), m\<lparr>mem_store := grant (fresh_lease (mem_store m)) (mem_store m)\<rparr>)),
     ce_CloseSession = (\<lambda>x m. if x = NoLease then m else m\<lparr>mem_store := expire x (mem_store m)\<rparr>),
     ce_Err = (\<lambda>m. (None, m)), ce_Done = (\<lambda>x m. (False, m)), ce_After = (\<lambda>d m. (None, m)),
     ce_Watch = (\<lambda>k r m. (s, m))\<rparr>"

lemma local_cenv_rely:
  assumes "env_ok rely" "\<And>v v'. leader_own v v' \<Longrightarrow> rely v v'" "\<And>v v'. rely v v' \<Longrightarrow> leader_step\<^sup>*\<^sup>* v v'"
    and "\<And>v l. l \<notin> set (es_used v) \<Longrightarrow> rely v (grant l v)" "\<And>v x. x \<noteq> NoLease \<Longrightarrow> rely v (expire x v)"
  shows "cluster_env (local_cenv s) mem_store rely"
proof -
  have refl: "rely v v" for v using assms(1) by (simp add: env_ok_def reflp_def)
  have "\<exists>u. rely v u \<and> fresh_lease v \<notin> set (es_used u) \<and> fresh_lease v \<noteq> NoLease \<and> rely u (grant (fresh_lease v) u) \<and>
    rely (grant (fresh_lease v) u) (grant (fresh_lease v) v)" for v
    using refl fresh_lease [of v] assms(4) by blast
  with refl assms show ?thesis
    unfolding cluster_env_def cluster_env_axioms_def by (auto simp: local_cenv_def calm_etcd)
qed

lemma local_cenv_env: "cluster_env (local_cenv s) mem_store leader_step\<^sup>*\<^sup>*"
  by (rule local_cenv_rely)
    (auto intro: env_ok_leader leader_own_step leader_step.granted leader_step.lapse)

interpretation lc: cluster_env "local_cenv s" mem_store "leader_step\<^sup>*\<^sup>*" for s
  by (rule local_cenv_env)

definition demo_node :: "string \<Rightarrow> int option \<Rightarrow> node" where
  "demo_node i sess = (new_node (Default bare_host))\<lparr>n_ID := i, n_session := sess\<rparr>"

subsection \<open>Properties\<close>

text \<open>C14. There is one live leader: once a node has won the campaign, then at any later moment at which its
  lease has lived until then, the leader key is still the one it wrote, and no campaign, by whichever
  node, succeeds; whatever the other nodes, the sessions and the lease expiries do in between.\<close>

theorem one_live_leader:
  assumes "cluster_env E view leader_step\<^sup>*\<^sup>*" "wf_est (view w1)" "campaign E n1 w1 = (Inr True, w1')" "LeaseID n1 \<noteq> NoLease"
    and "leader_step\<^sup>*\<^sup>* (view w1') (view w2)" "campaign E n2 w2 = (Inr b, w2')" "LeaseID n1 \<in> es_leases (view w2')"
  shows "\<not> b \<and> (\<exists>kv. kv_at (view w2') leaderKey = Some kv \<and> kv_lease kv = LeaseID n1)"
proof -
  have "holds (LeaseID n1) (view w1') \<and> wf_est (view w1')" using cluster_env.campaign_wins [OF assms(1,3,2,4)] .
  then have "wf_est (view w2) \<and> holds (LeaseID n1) (view w2)" using holds_steps [OF assms(5)] by blast
  then show ?thesis using cluster_env.campaign_blocked [OF assms(1,6)] assms(7) by blast
qed

lemma campaign_local:
  assumes "mem_script m = []" "LeaseID n = NoLease \<or> LeaseID n \<in> es_leases (mem_store m)"
  shows "\<exists>m'. campaign (local_cenv s) n m = (Inr (version_at (mem_store m) leaderKey = 0), m') \<and> mem_script m' = [] \<and>
    es_leases (mem_store m') = es_leases (mem_store m)"
  using assms by (auto simp: campaign_def local_cenv_def mem_txn_quiet leases_ok_def commit_leases commit_Nil)

theorem one_live_leader_witness:
  "\<exists>m1 m2. campaign (local_cenv Closed) (demo_node ''n1'' (Some 7)) (mem_of (grant 8 empty_store) 0) = (Inr True, m1) \<and>
     campaign (local_cenv Closed) (demo_node ''n2'' (Some 8)) m1 = (Inr False, m2)"
proof -
  let ?n1 = "demo_node ''n1'' (Some 7)" and ?n2 = "demo_node ''n2'' (Some 8)" and ?m = "mem_of (grant 8 empty_store) 0"
  have l: "LeaseID ?n1 = 7" "LeaseID ?n2 = 8" by (simp_all add: demo_node_def LeaseID_def)
  have g: "wf_est (grant 8 empty_store)" "es_leases (grant 8 empty_store) = {7, 8}" by (auto simp: wf_grant) (auto simp: grant_def empty_store_def)
  have v: "version_at (grant 8 empty_store) leaderKey = 0" using g by (simp add: wf_version) (simp add: grant_def empty_store_def etcd_simps kv_at_def)
  obtain m1 where m1: "campaign (local_cenv Closed) ?n1 ?m = (Inr True, m1)" "mem_script m1 = []" "es_leases (mem_store m1) = {7, 8}"
    using campaign_local [of ?m ?n1 Closed] l v g by auto
  obtain b m2 where m2: "campaign (local_cenv Closed) ?n2 m1 = (Inr b, m2)" "7 \<in> es_leases (mem_store m2)"
    using campaign_local [of m1 ?n2 Closed] m1 l by auto
  have "\<not> b"
    using one_live_leader [OF local_cenv_env _ m1(1) _ _ m2(1)] m2(2) l g by (simp add: NoLease_def)
  with m1 m2 show ?thesis by auto
qed

text \<open>The leader flag the scheduler asks is sound: in every state \<open>Run\<close> can reach, \<open>IsLeader\<close> holds exactly
  while the loop waits for the end of the session it won with, and from the moment it is set the leader
  key is attached to the node's lease for as long as that lease lives.  The event channel never overflows.\<close>

theorem leader_flag_sound:
  assumes "cluster_env E view leader_step\<^sup>*\<^sup>*" "wf_est (view w)" "node_inv Continue n" "NoLease \<notin> held n"
    and "(run_step E)\<^sup>*\<^sup>* (Continue, n, w) (t, n', w')"
  shows "(IsLeader n' \<longleftrightarrow> t = Lead) \<and> length (n_events n') \<le> 8 \<and>
    (IsLeader n' \<longrightarrow> holds (LeaseID n') (view w'))"
  using run_steps_inv [OF assms(5)] assms(3) cluster_env.run_steps_holds [OF assms(1,5,2)] cluster_env.run_steps_lease [OF assms(1,5,4)]
  by (auto simp: node_inv_def IsLeader_def LeaseID_def held_def)

text \<open>A node with a live session wins a free leader key in its first turn.\<close>

lemma elect_local:
  assumes "mem_script m = []" "n_session n = Some l" "l \<in> es_leases (mem_store m)" "wf_est (mem_store m)" "kv_at (mem_store m) leaderKey = None"
  shows "\<exists>n' m'. run_step (local_cenv s) (Continue, n, m) (Lead, n', m') \<and> LeaseID n' = l \<and> l \<in> es_leases (mem_store m')"
proof -
  let ?E = "local_cenv s"
  have e: "ensureSession ?E n m = Some ((None, n), m)" using assms(2) by (simp add: ensureSession_def)
  have v: "version_at (commit [OpPut (membersPrefix @ x) d l] (mem_store m)) leaderKey = 0" for x d
    using leader_member_keys [of x] assms(4,5) by (auto simp: wf_version wf_commit etcd_simps simp del: leader_member_keys)
  obtain m1 where m1: "registerMember ?E n m = (None, m1)" "mem_script m1 = []" "l \<in> es_leases (mem_store m1)"
      "version_at (mem_store m1) leaderKey = 0"
    using assms(1-3) v by (auto simp: registerMember_def local_cenv_def mem_put_quiet leases_ok_def commit_leases)
  obtain m2 where m2: "campaign ?E n m1 = (Inr True, m2)" "l \<in> es_leases (mem_store m2)"
    using campaign_local [of m1 n s] m1 by (auto simp: LeaseID_def assms(2))
  obtain t n' m3 where t: "takeLead ?E n m2 = ((t, n'), m3)" by (metis prod.collapse)
  have "t = Lead" "LeaseID n' = l" using takeLead_node [OF t] assms(2) by (simp_all add: LeaseID_def)
  moreover have "l \<in> es_leases (mem_store m3)" using t m2(2) by (auto simp: takeLead_def local_cenv_def)
  moreover have "electTurn ?E n m = Some ((t, n'), m3)"
    using e m1 m2 t by (simp add: electTurn_def) (simp add: local_cenv_def)
  ultimately show ?thesis by (auto intro: run_step.elect)
qed

theorem leader_flag_sound_witness:
  "\<exists>n m. (run_step (local_cenv Closed))\<^sup>*\<^sup>* (Continue, demo_node ''n1'' (Some 7), mem_of empty_store 0) (Lead, n, m) \<and> IsLeader n"
proof -
  obtain n m where r: "(run_step (local_cenv Closed))\<^sup>*\<^sup>* (Continue, demo_node ''n1'' (Some 7), mem_of empty_store 0) (Lead, n, m)"
    using elect_local [of "mem_of empty_store 0" "demo_node ''n1'' (Some 7)" 7 Closed]
    by (auto simp: demo_node_def wf_demo_stores) (auto simp: empty_store_def kv_at_def)
  have "node_inv Continue (demo_node ''n1'' (Some 7))" "NoLease \<notin> held (demo_node ''n1'' (Some 7))"
    by (simp_all add: node_inv_def demo_node_def new_node_def held_def NoLease_def)
  from leader_flag_sound [OF local_cenv_env _ this r] r show ?thesis by auto
qed


text \<open>C15. Leadership fails over: when the lease the leader key is attached to has run out, the next turn of any
  node that follows with a live session of its own takes the lead, and the leader key is then attached
  to that session.\<close>

theorem leader_failover:
  assumes "mem_script m = []" "wf_est (mem_store m)" "kv_at (mem_store m) leaderKey = Some kv" "kv_lease kv \<noteq> NoLease"
    and "n_session n = Some l" "l \<in> es_leases (mem_store m)" "l \<noteq> kv_lease kv" "l \<noteq> NoLease"
  shows "\<exists>n' m' kv'. run_step (local_cenv s) (Continue, n, m\<lparr>mem_store := expire (kv_lease kv) (mem_store m)\<rparr>) (Lead, n', m') \<and>
    kv_at (mem_store m') leaderKey = Some kv' \<and> kv_lease kv' = l"
proof -
  let ?m = "m\<lparr>mem_store := expire (kv_lease kv) (mem_store m)\<rparr>"
  have "wf_est (mem_store ?m)" "kv_at (mem_store ?m) leaderKey = None" "l \<in> es_leases (mem_store ?m)"
    using assms by (simp_all add: wf_expire kv_at_expired, simp add: expire_def)
  with elect_local [of ?m n l s] assms(1,5) obtain n' m' where r: "run_step (local_cenv s) (Continue, n, ?m) (Lead, n', m')"
    "LeaseID n' = l" "l \<in> es_leases (mem_store m')" by auto
  then have "electTurn (local_cenv s) n ?m = Some ((Lead, n'), m')" by (auto elim: run_step.cases)
  from lc.electTurn_wins [OF this] \<open>wf_est (mem_store ?m)\<close> r assms(8) have "holds l (mem_store m')" by simp
  with r show ?thesis by (auto simp: holds_def)
qed

definition led_store :: est where
  "led_store = commit [OpPut leaderKey (marshal_leader zero_leader) 8] (grant 8 empty_store)"

theorem leader_failover_witness:
  "\<exists>n' m'. run_step (local_cenv Closed) (Continue, demo_node ''n1'' (Some 7), mem_of (expire 8 led_store) 0) (Lead, n', m')"
proof -
  have s: "wf_est led_store" by (simp add: led_store_def wf_commit wf_grant)
  have k: "kv_at led_store leaderKey = Some \<lparr>kv_key = leaderKey, kv_value = marshal_leader zero_leader, kv_modrev = 1, kv_version = 1, kv_lease = 8\<rparr>"
    by (simp add: led_store_def etcd_simps version_at_def) (simp add: grant_def empty_store_def kv_at_def version_at_def)
  have "7 \<in> es_leases led_store" by (simp add: led_store_def commit_leases) (simp add: grant_def empty_store_def)
  with leader_failover [of "mem_of led_store 0" _ "demo_node ''n1'' (Some 7)" 7 Closed] s k show ?thesis
    by (auto simp: demo_node_def NoLease_def mem_of_def)
qed

text \<open>C37. The retry loop for sessions ends as soon as it can: after any number of failed rounds, if the
  context is done or etcd grants a session in the next, \<open>ensureSession\<close> returns, with the session in
  the second case; and the pauses in between are 1, 2, 4 and then always 8 seconds.\<close>

theorem ensureSession_returns:
  assumes "n_session n = None" "failed_rounds E (cf_ElectionTTLSec (n_cfg n)) Second k w = Some w1"
    and "ce_Err E w1 = (None, w2)" "ce_NewSession E (cf_ElectionTTLSec (n_cfg n)) w2 = (Inr l, w3)"
  shows "ensureSession E n w = Some ((None, n\<lparr>n_session := Some l\<rparr>), w3) \<and>
    (nextBackoff ^^ k) Second \<in> {Second, 2 * Second, 4 * Second, 8 * Second}"
proof -
  have "sessionLoop E (cf_ElectionTTLSec (n_cfg n)) ((nextBackoff ^^ k) Second) w1 = Some (Inr l, w3)"
    using assms(3,4) by (subst sessionLoop.simps) simp
  with assms(1) sessionLoop_rounds [OF assms(2)] backoff_values [of k] show ?thesis by (simp add: ensureSession_def)
qed

theorem ensureSession_returns_witness:
  "ensureSession (local_cenv Closed) (demo_node ''n1'' None) (mem_of empty_store 0) =
     Some ((None, demo_node ''n1'' (Some 8)), mem_of (grant 8 empty_store) 0)"
  using ensureSession_returns [of "demo_node ''n1'' None" "local_cenv Closed" 0 "mem_of empty_store 0"]
  by (simp add: demo_node_def local_cenv_def mem_of_def fresh_lease_def) (simp add: empty_store_def)

lemma kv_at_expire_all:
  "wf_est v \<Longrightarrow> kv_at v k = Some kv \<Longrightarrow> kv_lease kv \<notin> set ls \<Longrightarrow> kv_at (fold expire ls v) k = Some kv"
  by (induction ls arbitrary: v) (auto simp: wf_expire kv_at_expired)

lemma claim_ops_lease:
  assumes "HasPrefix (kv_key kv) PendingPrefix"
  shows "\<exists>c. kv_at (commit (claim_ops n kv t l1 l2) u) (claim_key kv) = Some c \<and> kv_value c = Text n \<and> kv_lease c = l1"
    and "t_NoOverlap t \<Longrightarrow> \<exists>c. kv_at (commit (claim_ops n kv t l1 l2) u) (OverlapKey (t_JobID t)) = Some c \<and> kv_lease c = l2"
proof -
  obtain x where k: "kv_key kv = PendingPrefix @ x" using assms pending_key_split by blast
  then have "claim_key kv \<noteq> kv_key kv" "OverlapKey (t_JobID t) \<noteq> claim_key kv"
    by (simp_all add: claim_key_def OverlapKey_def key_simps)
  then show "\<exists>c. kv_at (commit (claim_ops n kv t l1 l2) u) (claim_key kv) = Some c \<and> kv_value c = Text n \<and> kv_lease c = l1"
    and "t_NoOverlap t \<Longrightarrow> \<exists>c. kv_at (commit (claim_ops n kv t l1 l2) u) (OverlapKey (t_JobID t)) = Some c \<and> kv_lease c = l2"
    by (auto simp: claim_ops_def etcd_simps)
qed

text \<open>C38. A claim made without a session never expires.  Between the moment \<open>MaintainClaims\<close> drops a lost claim session and the
  next attempt to open one it pauses for a second, and in the pause \<open>ClaimLeaseID\<close> answers with no lease.  (While
  \<open>ensureClaimSession\<close> retries, the call waits for the mutex instead.)  Whatever else goes on in the cluster: if
  the node's queue, whose callback is that \<open>ClaimLeaseID\<close>, claims a ticket then, there is a moment at which the claim is written
  without a lease, and so is the lock of a ticket that forbids overlap; and from there no expiry of any leases, those of the dead node
  included, removes them.\<close>

theorem claim_without_session_never_expires:
  assumes "dropClaimSession E n0 w0 = (n, w)"
    and "queue_env q view rely" "\<And>v. q_claimLease q v = (ClaimLeaseID n, v)" "q_nodeID q = n_ID n"
    and "wf_est (view w)" "ClaimNext q now w = (Ok (Some t'), w')"
  shows "ClaimLeaseID n = NoLease \<and>
    (\<exists>kv t u u'. claimed_at (n_ID n) now kv t u u' \<and> t' = bump t \<and> rely u' (view w') \<and>
      (\<forall>ls. NoLease \<notin> set ls \<longrightarrow> val_at (fold expire ls u') (claim_key kv) = Some (Text (n_ID n)) \<and>
        (t_NoOverlap t \<longrightarrow> kv_at (fold expire ls u') (OverlapKey (t_JobID t)) \<noteq> None)))"
proof -
  have l: "ClaimLeaseID n = NoLease"
    using assms(1) by (auto simp: dropClaimSession_def ClaimLeaseID_def split: option.splits)
  obtain kv t u u' where c: "HasPrefix (kv_key kv) PendingPrefix" "wf_est u" "claims_at q now kv t u u'" "t' = bump t" "rely u' (view w')"
    using queue_env.ClaimNext_commits [OF assms(2,6,5)] by blast
  then obtain l1 l2 where o: "u' = commit (claim_ops (n_ID n) kv t l1 l2) u" "l1 = NoLease" "t_NoOverlap t \<longrightarrow> l2 = NoLease"
    using assms(3,4) l by (auto simp: claims_at_def claim_leases_def)
  have wf: "wf_est u'" using c(2) o(1) by (simp add: wf_commit)
  have "val_at (fold expire ls u') (claim_key kv) = Some (Text (n_ID n)) \<and>
      (t_NoOverlap t \<longrightarrow> kv_at (fold expire ls u') (OverlapKey (t_JobID t)) \<noteq> None)" if "NoLease \<notin> set ls" for ls
    using claim_ops_lease [OF c(1), where n = "n_ID n" and t = t and u = u and ?l1.0 = l1 and ?l2.0 = l2] kv_at_expire_all [OF wf] that o by (fastforce simp: val_at_def)
  with l c o(1) assms(4) show ?thesis unfolding claims_at_def by metis
qed

lemma claim_after_drop:
  "fst (ClaimNext (local_queue ''n1'' NoLease) 0 (mem_of (expire 8 pending_store) 0)) = Ok (Some (bump demo_ticket))"
proof -
  have "prefix_kvs (expire 8 pending_store) PendingPrefix = filter (\<lambda>kv. kv_lease kv \<noteq> 8) (prefix_kvs pending_store PendingPrefix)"
    by (simp add: prefix_kvs_def expire_def conj_commute)
  then have k: "prefix_kvs (expire 8 pending_store) PendingPrefix = [\<lparr>kv_key = PendingKey demo_ticket, kv_value = marshal_ticket demo_ticket,
      kv_modrev = 1, kv_version = 1, kv_lease = NoLease\<rparr>]" by (simp add: pending_kvs_demo NoLease_def)
  have "\<not> notYet demo_ticket 0" "\<not> t_NoOverlap demo_ticket" by (simp_all add: notYet_def demo_ticket_def zero_ticket_def)
  moreover have "kv_at (expire 8 pending_store) (ClaimedKey demo_ticket) = None"
    by (simp add: kv_at_expired) (simp add: pending_store_def etcd_simps key_simps)
  ultimately show ?thesis
    by (simp add: ClaimNext_quiet wf_expire live_lease_def k claimable_def unmarshal_marshal_ticket demo_int64)
qed

theorem claim_without_session_never_expires_witness:
  "\<exists>n m m' kv. dropClaimSession (local_cenv Closed) ((demo_node ''n1'' (Some 7))\<lparr>n_claimSession := Some 8\<rparr>) (mem_of pending_store 0) = (n, m) \<and>
     ClaimNext (local_queue ''n1'' (ClaimLeaseID n)) 0 m = (Ok (Some (bump demo_ticket)), m') \<and>
     val_at (fold expire [8, 7] (mem_store m')) (claim_key kv) = Some (Text ''n1'')"
proof -
  let ?n = "(demo_node ''n1'' (Some 7))\<lparr>n_claimSession := None\<rparr>" and ?m = "mem_of (expire 8 pending_store) 0"
  have d: "dropClaimSession (local_cenv Closed) ((demo_node ''n1'' (Some 7))\<lparr>n_claimSession := Some 8\<rparr>) (mem_of pending_store 0) = (?n, ?m)"
    by (simp add: dropClaimSession_def local_cenv_def mem_of_def NoLease_def)
  have n: "n_ID ?n = ''n1''" "ClaimLeaseID ?n = NoLease" by (simp_all add: demo_node_def ClaimLeaseID_def)
  obtain m' where m': "ClaimNext (local_queue ''n1'' NoLease) 0 ?m = (Ok (Some (bump demo_ticket)), m')"
    using claim_after_drop by (metis prod.collapse)
  from claim_without_session_never_expires [OF d local_queue_env [OF env_ok_eq] _ _ _ m'] n wf_expire [OF wf_demo_stores(1), of 8]
  obtain kv where "\<forall>ls. NoLease \<notin> set ls \<longrightarrow> val_at (fold expire ls (mem_store m')) (claim_key kv) = Some (Text ''n1'')" by auto
  moreover have "NoLease \<notin> set [8, 7]" by (simp add: NoLease_def)
  ultimately have "val_at (fold expire [8, 7] (mem_store m')) (claim_key kv) = Some (Text ''n1'')" by blast
  with d m' n show ?thesis by (metis (no_types))
qed

end
