(* ===== verification/Docker.thy ===== *)
theory Docker
  imports Queue "HOL-Library.AList"
begin

section \<open>Container control: internal/docker\<close>

text \<open>
  The console can list, add, kill and start the node containers of the compose project it runs in.  The
  daemon behind the socket is the parameter \<open>daemon\<close>: whether the socket is there, the host name, and
  a function that answers a request with a status and a decoded JSON body.  The client's requests, the
  decoding of the answers and the choice of a container are modelled.  A map that Go iterates over in an
  unspecified order is an association list in the order of the daemon's answer, which is arbitrary.
\<close>

subsection \<open>Requests and answers\<close>

record dresponse =
  dr_StatusCode :: int
  dr_Status :: string
  dr_Body :: "gerr + json"

record 'w daemon =
  dk_Stat :: "'w \<Rightarrow> bool \<times> 'w"
  dk_Hostname :: "gerr + string"
  dk_Do :: "string \<Rightarrow> string \<Rightarrow> json option \<Rightarrow> 'w \<Rightarrow> (gerr + dresponse) \<times> 'w"

record NodeContainer =
  nc_ContainerID :: string
  nc_Name :: string
  nc_NodeID :: string
  nc_State :: string
  nc_Image :: string
  nc_HostPort :: string

record dclient =
  dc_http :: bool
  dc_selfID :: string

definition Available :: "dclient \<Rightarrow> bool" where
  "Available c = dc_http c"

definition do_request :: "'w daemon \<Rightarrow> dclient \<Rightarrow> string \<Rightarrow> string \<Rightarrow> json option \<Rightarrow> 'w \<Rightarrow> (gerr + dresponse) \<times> 'w" where
  "do_request D c meth path body w =
     (if \<not> Available c then (Inl (Errorf ''docker: socket unavailable''), w)
      else dk_Do D meth path body w)"

text \<open>Decoding one string field while ignoring the error: what does not decode leaves the field as it is.\<close>

definition lenient_str :: "string \<Rightarrow> gerr + json \<Rightarrow> string" where
  "lenient_str key body = (case body of
     Inr (JObj kvs) \<Rightarrow> foldl (\<lambda>s (k, v). if ToLower k = key then (case v of JStr x \<Rightarrow> x | _ \<Rightarrow> s) else s) [] kvs
   | _ \<Rightarrow> [])"

definition errorMessage :: "gerr + json \<Rightarrow> string" where
  "errorMessage body = lenient_str ''message'' body"

definition decode_response :: "dresponse \<Rightarrow> (json \<Rightarrow> 'a option) \<Rightarrow> gerr + 'a" where
  "decode_response resp dst =
     (if dr_StatusCode resp \<ge> 400 then
        let msg = errorMessage (dr_Body resp)
        in Inl (Errorf (''docker: '' @ (if msg = [] then dr_Status resp else msg)))
      else case dr_Body resp of
        Inl err \<Rightarrow> Inl err
      | Inr j \<Rightarrow> (case dst j of None \<Rightarrow> Inl (Errorf ''json: cannot unmarshal'') | Some x \<Rightarrow> Inr x))"

definition decode_nothing :: "dresponse \<Rightarrow> gerr + unit" where
  "decode_nothing resp =
     (if dr_StatusCode resp \<ge> 400 then
        let msg = errorMessage (dr_Body resp)
        in Inl (Errorf (''docker: '' @ (if msg = [] then dr_Status resp else msg)))
      else Inr ())"

definition ping :: "'w daemon \<Rightarrow> dclient \<Rightarrow> 'w \<Rightarrow> (gerr + unit) \<times> 'w" where
  "ping D c w =
     (case do_request D c ''GET'' ''/v1.41/_ping'' None w of
        (Inl err, w1) \<Rightarrow> (Inl err, w1)
      | (Inr resp, w1) \<Rightarrow> (decode_nothing resp, w1))"

definition New_docker :: "'w daemon \<Rightarrow> 'w \<Rightarrow> dclient \<times> 'w" where
  "New_docker D w =
     (case dk_Stat D w of
        (False, w1) \<Rightarrow> (\<lparr>dc_http = False, dc_selfID = []\<rparr>, w1)
      | (True, w1) \<Rightarrow>
          let c = \<lparr>dc_http = True, dc_selfID = (case dk_Hostname D of Inl _ \<Rightarrow> [] | Inr h \<Rightarrow> h)\<rparr>
          in case ping D c w1 of
               (Inl err, w2) \<Rightarrow> (c\<lparr>dc_http := False\<rparr>, w2)
             | (Inr _, w2) \<Rightarrow> (c, w2))"

subsection \<open>Inspecting a container\<close>

record inspect =
  in_ID :: string
  in_Name :: string
  in_Image :: string
  in_Env :: "string list"
  in_Labels :: "(string \<times> string) list"
  in_Status :: string
  in_Networks :: "(string \<times> string) list"
  in_Ports :: "(string \<times> string list) list"

definition zero_inspect :: inspect where
  "zero_inspect = \<lparr>in_ID = [], in_Name = [], in_Image = [], in_Env = [], in_Labels = [], in_Status = [],
     in_Networks = [], in_Ports = []\<rparr>"

text \<open>Decoding nested values: a struct field, a slice, and a map; \<open>null\<close> leaves the target as it is.\<close>

definition dec_obj :: "(string \<times> (json \<Rightarrow> 's \<Rightarrow> 's option)) list \<Rightarrow> json \<Rightarrow> 's \<Rightarrow> 's option" where
  "dec_obj tab v s = (case v of JObj kvs \<Rightarrow> decode_fields tab kvs s | JNull \<Rightarrow> Some s | _ \<Rightarrow> None)"

fun dec_all :: "(json \<Rightarrow> 'a option) \<Rightarrow> json list \<Rightarrow> 'a list option" where
  "dec_all f [] = Some []"
| "dec_all f (v # vs) = (case (f v, dec_all f vs) of (Some x, Some xs) \<Rightarrow> Some (x # xs) | _ \<Rightarrow> None)"

definition dec_list :: "(json \<Rightarrow> 'a option) \<Rightarrow> ('a list \<Rightarrow> 's) \<Rightarrow> json \<Rightarrow> 's \<Rightarrow> 's option" where
  "dec_list f upd v s = (case v of JArr vs \<Rightarrow> map_option upd (dec_all f vs) | JNull \<Rightarrow> Some s | _ \<Rightarrow> None)"

fun dec_entries :: "(json \<Rightarrow> 'a option) \<Rightarrow> (string \<times> json) list \<Rightarrow> (string \<times> 'a) list \<Rightarrow> (string \<times> 'a) list option" where
  "dec_entries f [] m = Some m"
| "dec_entries f ((k, v) # kvs) m = (case f v of None \<Rightarrow> None | Some x \<Rightarrow> dec_entries f kvs (AList.update k x m))"

definition dec_map :: "(json \<Rightarrow> 'a option) \<Rightarrow> ((string \<times> 'a) list \<Rightarrow> 's) \<Rightarrow> json \<Rightarrow> 's \<Rightarrow> 's option" where
  "dec_map f upd v s = (case v of JObj kvs \<Rightarrow> map_option upd (dec_entries f kvs []) | JNull \<Rightarrow> Some s | _ \<Rightarrow> None)"

definition dec_str :: "json \<Rightarrow> string option" where
  "dec_str v = set_str (\<lambda>x. x) v []"

definition unmarshal_inspect :: "json \<Rightarrow> inspect option" where
  "unmarshal_inspect j = dec_obj
     [(''id'', \<lambda>v s. set_str (\<lambda>x. s\<lparr>in_ID := x\<rparr>) v s),
      (''name'', \<lambda>v s. set_str (\<lambda>x. s\<lparr>in_Name := x\<rparr>) v s),
      (''config'', dec_obj
        [(''image'', \<lambda>v s. set_str (\<lambda>x. s\<lparr>in_Image := x\<rparr>) v s),
         (''env'', \<lambda>v s. dec_list dec_str (\<lambda>x. s\<lparr>in_Env := x\<rparr>) v s),
         (''labels'', \<lambda>v s. dec_map dec_str (\<lambda>x. s\<lparr>in_Labels := x\<rparr>) v s)]),
      (''state'', dec_obj [(''status'', \<lambda>v s. set_str (\<lambda>x. s\<lparr>in_Status := x\<rparr>) v s)]),
      (''networksettings'', dec_obj
        [(''networks'', \<lambda>v s. dec_map (\<lambda>n. dec_obj [(''networkid'', \<lambda>v s. set_str (\<lambda>x. x) v s)] n [])
            (\<lambda>x. s\<lparr>in_Networks := x\<rparr>) v s),
         (''ports'', \<lambda>v s. dec_map (\<lambda>p. dec_list (\<lambda>b. dec_obj [(''hostport'', \<lambda>v s. set_str (\<lambda>x. x) v s)] b []) (\<lambda>x. x) p [])
            (\<lambda>x. s\<lparr>in_Ports := x\<rparr>) v s)])] j zero_inspect"

fun envVal :: "string list \<Rightarrow> string \<Rightarrow> string" where
  "envVal [] key = []"
| "envVal (e # es) key = (if HasPrefix e (key @ ''='') then TrimPrefix e (key @ ''='') else envVal es key)"

definition inspect_container :: "'w daemon \<Rightarrow> dclient \<Rightarrow> string \<Rightarrow> 'w \<Rightarrow> (gerr + inspect) \<times> 'w" where
  "inspect_container D c i w =
     (case do_request D c ''GET'' (''/v1.41/containers/'' @ i @ ''/json'') None w of
        (Inl err, w1) \<Rightarrow> (Inl err, w1)
      | (Inr resp, w1) \<Rightarrow> (decode_response resp unmarshal_inspect, w1))"

text \<open>A missing key of a map reads as the empty string.\<close>

definition label :: "(string \<times> string) list \<Rightarrow> string \<Rightarrow> string" where
  "label m k = (case map_of m k of None \<Rightarrow> [] | Some v \<Rightarrow> v)"

text \<open>The verb \<open>%q\<close> on text without control characters.\<close>

definition goQuote :: "string \<Rightarrow> string" where
  "goQuote s = char_of (34 :: nat) # concat (map (\<lambda>c. if c = char_of (34 :: nat) \<or> c = char_of (92 :: nat) then [char_of (92 :: nat), c] else [c]) s) @ [char_of (34 :: nat)]"

definition selfProject :: "'w daemon \<Rightarrow> dclient \<Rightarrow> 'w \<Rightarrow> (gerr + string \<times> string \<times> string) \<times> 'w" where
  "selfProject D c w =
     (case inspect_container D c (dc_selfID c) w of
        (Inl err, w1) \<Rightarrow> (Inl err, w1)
      | (Inr ins, w1) \<Rightarrow>
          let project = label (in_Labels ins) ''com.docker.compose.project'';
              network = (case in_Networks ins of [] \<Rightarrow> [] | (name, _) # _ \<Rightarrow> name);
              image = in_Image ins
          in if project = [] \<or> network = [] \<or> image = [] then
               (Inl (Errorf (''docker: self container is not a compose service (project='' @ goQuote project @
                  '' network='' @ goQuote network @ '' image='' @ goQuote image @ '')'')), w1)
             else (Inr (project, network, image), w1))"

text \<open>Slicing an id that is shorter than twelve characters panics.\<close>

definition hostPort :: "(string \<times> string list) list \<Rightarrow> string" where
  "hostPort ports = foldl (\<lambda>hp (port, bindings). if HasPrefix port ''8080/'' \<and> bindings \<noteq> [] then hd bindings else hp) [] ports"

definition toNode :: "inspect \<Rightarrow> NodeContainer res" where
  "toNode ins =
     (if length (in_ID ins) < 12 then Panic
      else let n = \<lparr>nc_ContainerID = take 12 (in_ID ins), nc_Name = TrimPrefix (in_Name ins) ''/'',
                    nc_NodeID = envVal (in_Env ins) ''ORBIX_NODE_ID'', nc_State = in_Status ins,
                    nc_Image = in_Image ins, nc_HostPort = []\<rparr>;
               n = (if nc_NodeID n = [] then n\<lparr>nc_NodeID := label (in_Labels ins) ''orbix.node.id''\<rparr> else n)
           in Ok (n\<lparr>nc_HostPort := hostPort (in_Ports ins)\<rparr>))"

subsection \<open>The nodes of the project\<close>

definition unmarshal_ids :: "json \<Rightarrow> string list option" where
  "unmarshal_ids j = dec_list (\<lambda>b. dec_obj [(''id'', \<lambda>v s. set_str (\<lambda>x. x) v s)] b []) (\<lambda>x. x) j []"

definition listPath :: "string \<Rightarrow> string" where
  "listPath project = ''/v1.41/containers/json?all=1&filters=%7B%22label%22%3A%5B%22com.docker.compose.project%3D'' @ project @ ''%22%5D%7D''"

fun collectNodes :: "'w daemon \<Rightarrow> dclient \<Rightarrow> string list \<Rightarrow> 'w \<Rightarrow> NodeContainer list res \<times> 'w" where
  "collectNodes D c [] w = (Ok [], w)"
| "collectNodes D c (i # is) w =
     (case inspect_container D c i w of
        (Inl err, w1) \<Rightarrow> collectNodes D c is w1
      | (Inr ins, w1) \<Rightarrow> (case toNode ins of
          Ok n \<Rightarrow> if nc_NodeID n = [] then collectNodes D c is w1
                  else (case collectNodes D c is w1 of (Ok ns, w2) \<Rightarrow> (Ok (n # ns), w2) | (r, w2) \<Rightarrow> (r, w2))
        | Err err \<Rightarrow> (Err err, w1)
        | Panic \<Rightarrow> (Panic, w1)))"

definition ListNodes :: "'w daemon \<Rightarrow> dclient \<Rightarrow> 'w \<Rightarrow> NodeContainer list res \<times> 'w" where
  "ListNodes D c w =
     (case selfProject D c w of
        (Inl err, w1) \<Rightarrow> (Err err, w1)
      | (Inr (project, _, _), w1) \<Rightarrow> (case do_request D c ''GET'' (listPath project) None w1 of
          (Inl err, w2) \<Rightarrow> (Err err, w2)
        | (Inr resp, w2) \<Rightarrow> (case decode_response resp unmarshal_ids of
            Inl err \<Rightarrow> (Err err, w2)
          | Inr ids \<Rightarrow> collectNodes D c ids w2)))"

definition node_matches :: "string \<Rightarrow> NodeContainer \<Rightarrow> bool" where
  "node_matches nodeID n \<longleftrightarrow> nc_NodeID n = nodeID \<or> nc_Name n = nodeID \<or>
     HasSuffix (nc_Name n) (''-'' @ nodeID) \<or> HasSuffix (nc_Name n) (''_'' @ nodeID)"

definition findContainer :: "'w daemon \<Rightarrow> dclient \<Rightarrow> string \<Rightarrow> 'w \<Rightarrow> string res \<times> 'w" where
  "findContainer D c nodeID w =
     (case ListNodes D c w of
        (Err err, w1) \<Rightarrow> (Err err, w1)
      | (Panic, w1) \<Rightarrow> (Panic, w1)
      | (Ok nodes, w1) \<Rightarrow> (case find (node_matches nodeID) nodes of
          Some n \<Rightarrow> (Ok (nc_ContainerID n), w1)
        | None \<Rightarrow> (Err (ErrorQ ''docker: no container for node '' nodeID), w1)))"

definition postContainer :: "'w daemon \<Rightarrow> dclient \<Rightarrow> string \<Rightarrow> string \<Rightarrow> 'w \<Rightarrow> (gerr + unit) \<times> 'w" where
  "postContainer D c i action w =
     (case do_request D c ''POST'' (''/v1.41/containers/'' @ i @ ''/'' @ action) None w of
        (Inl err, w1) \<Rightarrow> (Inl err, w1)
      | (Inr resp, w1) \<Rightarrow> (decode_nothing resp, w1))"

definition KillNode :: "'w daemon \<Rightarrow> dclient \<Rightarrow> string \<Rightarrow> 'w \<Rightarrow> unit res \<times> 'w" where
  "KillNode D c nodeID w =
     (case findContainer D c nodeID w of
        (Err err, w1) \<Rightarrow> (Err err, w1)
      | (Panic, w1) \<Rightarrow> (Panic, w1)
      | (Ok i, w1) \<Rightarrow> (case postContainer D c i ''kill'' w1 of
          (Inl err, w2) \<Rightarrow> (Err err, w2) | (Inr _, w2) \<Rightarrow> (Ok (), w2)))"

definition StartNode :: "'w daemon \<Rightarrow> dclient \<Rightarrow> string \<Rightarrow> 'w \<Rightarrow> unit res \<times> 'w" where
  "StartNode D c nodeID w =
     (case findContainer D c nodeID w of
        (Err err, w1) \<Rightarrow> (Err err, w1)
      | (Panic, w1) \<Rightarrow> (Panic, w1)
      | (Ok i, w1) \<Rightarrow> (case postContainer D c i ''start'' w1 of
          (Inl err, w2) \<Rightarrow> (Err err, w2) | (Inr _, w2) \<Rightarrow> (Ok (), w2)))"

definition addEnv :: "string \<Rightarrow> string list" where
  "addEnv nodeID = [''ORBIX_NODE_ID='' @ nodeID, ''ORBIX_ETCD=http://etcd:2379'', ''ORBIX_LISTEN=:8080'', ''ORBIX_DATA_DIR=/data'']"

definition addBody :: "string \<Rightarrow> string \<Rightarrow> string \<Rightarrow> string \<Rightarrow> json" where
  "addBody nodeID project network img = JObj
     [(''Image'', JStr img), (''Hostname'', JStr nodeID), (''Env'', JArr (map JStr (addEnv nodeID))),
      (''Labels'', JObj [(''orbix.node'', JStr ''1''), (''orbix.node.id'', JStr nodeID),
         (''com.docker.compose.project'', JStr project)]),
      (''ExposedPorts'', JObj [(''8080/tcp'', JObj [])]),
      (''HostConfig'', JObj [(''NetworkMode'', JStr network), (''PublishAllPorts'', JBool True),
         (''RestartPolicy'', JObj [(''Name'', JStr ''unless-stopped'')])])]"

definition AddNode :: "'w daemon \<Rightarrow> dclient \<Rightarrow> string \<Rightarrow> 'w \<Rightarrow> NodeContainer res \<times> 'w" where
  "AddNode D c nodeID w =
     (case selfProject D c w of
        (Inl err, w1) \<Rightarrow> (Err err, w1)
      | (Inr (project, network, img), w1) \<Rightarrow> (case findContainer D c nodeID w1 of
          (Panic, w2) \<Rightarrow> (Panic, w2)
        | (Ok existing, w2) \<Rightarrow>
            (Err (Errorf (''docker: node '' @ goQuote nodeID @ '' already exists as container '' @ existing @
               '' (start it instead of adding)'')), w2)
        | (Err _, w2) \<Rightarrow> (case do_request D c ''POST'' (''/v1.41/containers/create?name='' @ nodeID)
                (Some (addBody nodeID project network img)) w2 of
            (Inl err, w3) \<Rightarrow> (Err err, w3)
          | (Inr resp, w3) \<Rightarrow> (case decode_response resp (\<lambda>j. dec_obj [(''id'', \<lambda>v s. set_str (\<lambda>x. x) v s)] j []) of
              Inl err \<Rightarrow> (Err err, w3)
            | Inr created \<Rightarrow> (case postContainer D c created ''start'' w3 of
                (Inl err, w4) \<Rightarrow> (Err err, w4)
              | (Inr _, w4) \<Rightarrow> (case inspect_container D c created w4 of
                  (Inl err, w5) \<Rightarrow> (Err err, w5)
                | (Inr ins, w5) \<Rightarrow> (toNode ins, w5)))))))"

subsection \<open>What is asked of the daemon\<close>

text \<open>A daemon that also keeps the requests it has received, and those of them that change anything.\<close>

type_synonym request = "string \<times> string \<times> json option"

definition logged :: "'w daemon \<Rightarrow> ('w \<times> request list) daemon" where
  "logged D = \<lparr>dk_Stat = (\<lambda>(w, l). let (b, w') = dk_Stat D w in (b, w', l)), dk_Hostname = dk_Hostname D,
     dk_Do = (\<lambda>m p b (w, l). let (r, w') = dk_Do D m p b w in (r, w', l @ [(m, p, b)]))\<rparr>"

definition posts :: "request list \<Rightarrow> request list" where
  "posts l = filter (\<lambda>(m, p, b). m = ''POST'') l"

lemma posts_append [simp]: "posts (l @ l') = posts l @ posts l'"
  by (simp add: posts_def)

lemma posts_single: "posts [(m, p, b)] = (if m = ''POST'' then [(m, p, b)] else [])"
  by (simp add: posts_def)

lemma do_request_log:
  "posts (snd (snd (do_request (logged D) c m p b s))) = posts (snd s) @ (if Available c \<and> m = ''POST'' then [(m, p, b)] else [])"
  by (cases s) (simp add: do_request_def logged_def posts_single split: prod.splits)

lemma do_request_get: "do_request (logged D) c ''GET'' p b s = (r, s') \<Longrightarrow> posts (snd s') = posts (snd s)"
  using do_request_log [of D c "''GET''" p b s] by simp

lemma inspect_log: "inspect_container (logged D) c i s = (r, s') \<Longrightarrow> posts (snd s') = posts (snd s)"
  by (auto simp: inspect_container_def split: prod.splits sum.splits dest: do_request_get)

lemma selfProject_log: "selfProject (logged D) c s = (r, s') \<Longrightarrow> posts (snd s') = posts (snd s)"
  by (auto simp: selfProject_def Let_def split: prod.splits sum.splits if_splits dest: inspect_log)

lemma collectNodes_log: "collectNodes (logged D) c is s = (r, s') \<Longrightarrow> posts (snd s') = posts (snd s)"
proof (induction "is" arbitrary: s r)
  case (Cons i "is")
  obtain x s1 where x: "inspect_container (logged D) c i s = (x, s1)" by (cases "inspect_container (logged D) c i s") blast
  from Cons x inspect_log [OF x] show ?case
    by (auto split: sum.splits res.splits if_splits prod.splits)
qed simp

lemma ListNodes_log: "ListNodes (logged D) c s = (r, s') \<Longrightarrow> posts (snd s') = posts (snd s)"
  by (auto simp: ListNodes_def split: prod.splits sum.splits dest!: selfProject_log do_request_get collectNodes_log)

lemma ListNodes_available: "ListNodes D c w = (Ok nodes, w') \<Longrightarrow> Available c"
  by (auto simp: ListNodes_def selfProject_def inspect_container_def do_request_def split: if_splits)

lemma findContainer_ListNodes:
  "ListNodes D c w = (r, w1) \<Longrightarrow> findContainer D c nodeID w =
    ((case r of Ok nodes \<Rightarrow> (case find (node_matches nodeID) nodes of
         Some n \<Rightarrow> Ok (nc_ContainerID n) | None \<Rightarrow> Err (ErrorQ ''docker: no container for node '' nodeID))
      | Err err \<Rightarrow> Err err | Panic \<Rightarrow> Panic), w1)"
  by (simp add: findContainer_def split: res.splits option.splits)

lemma postContainer_snd:
  "snd (postContainer D c i a w) = snd (do_request D c ''POST'' (''/v1.41/containers/'' @ i @ ''/'' @ a) None w)"
  unfolding postContainer_def by (auto split: prod.splits sum.splits)

lemma postContainer_log:
  "posts (snd (snd (postContainer (logged D) c i a s))) =
     posts (snd s) @ (if Available c then [(''POST'', ''/v1.41/containers/'' @ i @ ''/'' @ a, None)] else [])"
  unfolding postContainer_snd do_request_log by simp

text \<open>The environment a new container gets names the node it is for.\<close>

lemma addEnv_NodeID: "envVal (addEnv nodeID) ''ORBIX_NODE_ID'' = nodeID"
  by (simp add: addEnv_def HasPrefix_def TrimPrefix_def)

subsection \<open>Properties\<close>

text \<open>C36. Killing a node changes one container at most: of the requests \<open>KillNode\<close> makes only one can change
  anything, the kill of the first container of the project that matches the given id; when the nodes
  cannot be listed or none matches, nothing is changed.\<close>

theorem KillNode_posts_one:
  "posts (snd (snd (KillNode (logged D) c nodeID (w, [])))) =
     (case fst (ListNodes (logged D) c (w, [])) of
        Ok nodes \<Rightarrow> (case find (node_matches nodeID) nodes of
          Some n \<Rightarrow> [(''POST'', ''/v1.41/containers/'' @ nc_ContainerID n @ ''/kill'', None)]
        | None \<Rightarrow> [])
      | _ \<Rightarrow> [])"
proof -
  obtain r s1 where l: "ListNodes (logged D) c (w, []) = (r, s1)" by (cases "ListNodes (logged D) c (w, [])") blast
  have p: "posts (snd s1) = []" using ListNodes_log [OF l] by (simp add: posts_def)
  show ?thesis
  proof (cases "\<exists>nodes n. r = Ok nodes \<and> find (node_matches nodeID) nodes = Some n")
    case True
    then obtain nodes n where n: "r = Ok nodes" "find (node_matches nodeID) nodes = Some n" by blast
    have "Available c" using ListNodes_available [OF l [unfolded n(1)]] .
    moreover have "snd (KillNode (logged D) c nodeID (w, [])) = snd (postContainer (logged D) c (nc_ContainerID n) ''kill'' s1)"
      using n by (simp add: KillNode_def findContainer_ListNodes [OF l] split: prod.splits sum.splits)
    ultimately show ?thesis
      using l n p by (simp add: postContainer_log)
  next
    case False
    with l p show ?thesis
      by (auto simp: KillNode_def findContainer_ListNodes [OF l] split: res.splits option.splits)
  qed
qed

definition ok_json :: "json \<Rightarrow> gerr + dresponse" where
  "ok_json j = Inr \<lparr>dr_StatusCode = 200, dr_Status = ''200 OK'', dr_Body = Inr j\<rparr>"

definition container_json :: "string \<Rightarrow> string \<Rightarrow> string \<Rightarrow> json" where
  "container_json i name node = JObj [(''Id'', JStr i), (''Name'', JStr (''/'' @ name)),
     (''Config'', JObj [(''Image'', JStr ''orbix''), (''Env'', JArr (map JStr (addEnv node))),
        (''Labels'', JObj [(''com.docker.compose.project'', JStr ''orbix'')])]),
     (''State'', JObj [(''Status'', JStr ''running'')]),
     (''NetworkSettings'', JObj [(''Networks'', JObj [(''orbix_default'', JObj [])])])]"

definition two_nodes :: "'w daemon" where
  "two_nodes = \<lparr>dk_Stat = (\<lambda>w. (True, w)), dk_Hostname = Inr ''self'',
     dk_Do = (\<lambda>m p b w. (if p = listPath ''orbix'' then ok_json (JArr [JObj [(''Id'', JStr ''a'')], JObj [(''Id'', JStr ''b'')]])
        else if p = ''/v1.41/containers/a/json'' then ok_json (container_json ''aaaaaaaaaaaa'' ''east-node1'' ''east-node1'')
        else ok_json (container_json ''bbbbbbbbbbbb'' ''orbix-node1-1'' ''node1''), w))\<rparr>"

text \<open>The id of a node does not pick its container: \<open>findContainer\<close> also matches a container whose name ends
  in the id and takes the first match, so that with the nodes \<open>east-node1\<close> and \<open>node1\<close> a request to kill
  \<open>node1\<close> kills the container of \<open>east-node1\<close> when the daemon lists it first.\<close>

theorem kill_hits_other_node:
  "map (\<lambda>n. (nc_NodeID n, nc_ContainerID n)) (case fst (ListNodes two_nodes \<lparr>dc_http = True, dc_selfID = ''self''\<rparr> ()) of Ok ns \<Rightarrow> ns | _ \<Rightarrow> []) =
     [(''east-node1'', ''aaaaaaaaaaaa''), (''node1'', ''bbbbbbbbbbbb'')] \<and>
   posts (snd (snd (KillNode (logged two_nodes) \<lparr>dc_http = True, dc_selfID = ''self''\<rparr> ''node1'' ((), [])))) =
     [(''POST'', ''/v1.41/containers/aaaaaaaaaaaa/kill'', None)]"
  by code_simp

end
