(* ===== verification/Api.thy ===== *)
theory Api
  imports Worker Jobs Scheduler Cluster Docker
begin

section \<open>The HTTP interface: internal/api\<close>

text \<open>
  Every handler is a function from the server, the request and the world to a reply and the world; the
  server holds the components the handlers call, as \<open>api.Server\<close> does, and the two library functions they
  share, the time zone database and \<open>err.Error()\<close>.  A request carries the method, the
  path, the query and the body as \<open>net/http\<close> and the JSON decoder deliver them: the decoder's error or
  a JSON value.  A reply has a status and a body: a JSON value, the error whose text is sent under the
  key \<open>error\<close>, text, or nothing; a handler that panics aborts the connection.  \<open>dispatch\<close> is the routing
  table of \<open>Handler\<close>, with the rules of \<open>http.ServeMux\<close> for methods.  A nil slice or map is encoded as
  \<open>null\<close>, and the keys of a map are sorted.
\<close>

subsection \<open>Requests, replies and the server\<close>

record request =
  rq_Method :: string
  rq_Path :: string
  rq_id :: string
  rq_Query :: "string \<Rightarrow> string"
  rq_Body :: "gerr + json"

datatype body = NoBody | JsonBody json | ErrBody gerr | TextBody string

datatype reply = Reply int body | Aborted

record 'w server =
  sv_repo :: "'w Repo"
  sv_queue :: "'w queue"
  sv_cli :: "'w world"
  sv_node :: "'w \<Rightarrow> node"
  sv_store :: "'w sqldb"
  sv_Busy :: "'w \<Rightarrow> int"
  sv_version :: string
  sv_daemon :: "'w daemon"
  sv_dock :: dclient
  sv_onLeave :: "('w \<Rightarrow> 'w) option"
  sv_tz :: tzdb
  sv_Error :: "gerr \<Rightarrow> string"

definition New_server :: "'w Repo \<Rightarrow> 'w queue \<Rightarrow> 'w world \<Rightarrow> ('w \<Rightarrow> node) \<Rightarrow> 'w sqldb \<Rightarrow> ('w \<Rightarrow> int) \<Rightarrow> string \<Rightarrow>
    'w daemon \<Rightarrow> dclient \<Rightarrow> ('w \<Rightarrow> 'w) option \<Rightarrow> tzdb \<Rightarrow> (gerr \<Rightarrow> string) \<Rightarrow> 'w server" where
  "New_server repo q cli n st busy ver D dock onLeave tz errText =
     \<lparr>sv_repo = repo, sv_queue = q, sv_cli = cli, sv_node = n, sv_store = st, sv_Busy = busy, sv_version = ver,
      sv_daemon = D, sv_dock = dock, sv_onLeave = onLeave, sv_tz = tz, sv_Error = errText\<rparr>"

definition writeJSON :: "int \<Rightarrow> json \<Rightarrow> reply" where
  "writeJSON code v = Reply code (JsonBody v)"

definition writeErr :: "int \<Rightarrow> gerr \<Rightarrow> reply" where
  "writeErr code err = Reply code (ErrBody err)"

definition pathID :: "request \<Rightarrow> gerr + int" where
  "pathID r = (case ParseInt (rq_id r) of
     Some i \<Rightarrow> Inr i | None \<Rightarrow> Inl (ErrorQ ''strconv.ParseInt: parsing '' (rq_id r)))"

text \<open>The JSON values of the structs the handlers send.\<close>

fun doc :: "data \<Rightarrow> json" where
  "doc (Doc j) = j"
| "doc (Text s) = JStr s"

definition nilable :: "json list \<Rightarrow> json" where
  "nilable vs = (if vs = [] then JNull else JArr vs)"

definition claim_json :: "Claim \<Rightarrow> json" where
  "claim_json c = JObj [(''job_id'', JNum (Claim.c_JobID c)), (''sched_at'', JStr (Claim.c_SchedAt c)), (''node_id'', JStr (Claim.c_NodeID c))]"

definition run_json :: "run \<Rightarrow> json" where
  "run_json x = doc (marshal_result (run_Result x))"

definition counts_json :: "(string \<times> int) list option \<Rightarrow> json" where
  "counts_json counts = (case counts of None \<Rightarrow> JNull | Some cs \<Rightarrow> JObj (map (\<lambda>(k, n). (k, JNum n)) (sort_key fst cs)))"

definition or_nil :: "gerr + 'a list \<Rightarrow> 'a list" where
  "or_nil r = (case r of Inl _ \<Rightarrow> [] | Inr xs \<Rightarrow> xs)"

subsection \<open>The handlers: api.go\<close>

definition status :: "'w server \<Rightarrow> request \<Rightarrow> 'w \<Rightarrow> reply \<times> 'w" where
  "status s r w =
     (let (members, w1) = Members (sv_cli s) w;
          (pending, w2) = CountPending (sv_queue s) w1;
          (claims, w3) = Claims (sv_queue s) w2;
          ((counts, _), w4) = Counts (sv_store s) w3;
          n = sv_node s w4;
          (now, w5) = w_now (sv_cli s) w4
      in (writeJSON 200 (JObj
            [(''busy_local'', JNum (sv_Busy s w4)),
             (''in_flight'', nilable (map claim_json (or_nil claims))),
             (''is_leader'', JBool (IsLeader n)),
             (''leader'', doc (marshal_leader (Leader n))),
             (''members'', nilable (map (doc \<circ> marshal_member) (or_nil members))),
             (''node_id'', JStr (n_ID n)),
             (''pending'', JNum (case pending of Inl _ \<Rightarrow> 0 | Inr k \<Rightarrow> k)),
             (''run_counts'', counts_json counts),
             (''server_time'', JStr (Format_RFC3339 now)),
             (''version'', JStr (sv_version s))]), w5))"

definition enrichNextFire :: "tzdb \<Rightarrow> instant \<Rightarrow> job list \<Rightarrow> job list" where
  "enrichNextFire tz now list =
     map (\<lambda>j. if \<not> j_Enabled j then j
              else case NextAfter tz (j_Cron j) (j_Timezone j) now of
                     Inl _ \<Rightarrow> j | Inr t \<Rightarrow> j\<lparr>j_NextFire := Format_RFC3339 t\<rparr>) list"

definition listJobs :: "'w server \<Rightarrow> request \<Rightarrow> 'w \<Rightarrow> reply \<times> 'w" where
  "listJobs s r w =
     (case List_jobs (sv_repo s) w of
        (Inl err, w1) \<Rightarrow> (writeErr 500 err, w1)
      | (Inr list, w1) \<Rightarrow>
          let (now, w2) = w_now (sv_cli s) w1
          in (writeJSON 200 (JArr (map (doc \<circ> marshal_job) (enrichNextFire (sv_tz s) now list))), w2))"

definition decodeJob :: "request \<Rightarrow> gerr + job" where
  "decodeJob r = (case rq_Body r of
     Inl err \<Rightarrow> Inl err
   | Inr v \<Rightarrow> (case unmarshal_job (Doc v) of None \<Rightarrow> Inl decode_error | Some j \<Rightarrow> Inr j))"

definition createJob :: "'w server \<Rightarrow> request \<Rightarrow> 'w \<Rightarrow> reply \<times> 'w" where
  "createJob s r w =
     (case decodeJob r of
        Inl err \<Rightarrow> (writeErr 400 err, w)
      | Inr j \<Rightarrow> (case Create (sv_repo s) (sv_tz s) j w of
          (Inl err, w1) \<Rightarrow> (writeErr 400 err, w1)
        | (Inr j', w1) \<Rightarrow> (writeJSON 201 (doc (marshal_job j')), w1)))"

definition getJob :: "'w server \<Rightarrow> request \<Rightarrow> 'w \<Rightarrow> reply \<times> 'w" where
  "getJob s r w =
     (case pathID r of
        Inl err \<Rightarrow> (writeErr 400 err, w)
      | Inr i \<Rightarrow> (case Get (sv_repo s) i w of
          (Inl err, w1) \<Rightarrow> (writeErr 404 err, w1)
        | (Inr j, w1) \<Rightarrow> (writeJSON 200 (doc (marshal_job j)), w1)))"

definition updateJob :: "'w server \<Rightarrow> request \<Rightarrow> 'w \<Rightarrow> reply \<times> 'w" where
  "updateJob s r w =
     (case pathID r of
        Inl err \<Rightarrow> (writeErr 400 err, w)
      | Inr i \<Rightarrow> (case decodeJob r of
          Inl err \<Rightarrow> (writeErr 400 err, w)
        | Inr j \<Rightarrow> (case Update (sv_repo s) (sv_tz s) i j w of
            (Inl err, w1) \<Rightarrow> (writeErr 400 err, w1)
          | (Inr updated, w1) \<Rightarrow> (writeJSON 200 (doc (marshal_job updated)), w1))))"

definition deleteJob :: "'w server \<Rightarrow> request \<Rightarrow> 'w \<Rightarrow> reply \<times> 'w" where
  "deleteJob s r w =
     (case pathID r of
        Inl err \<Rightarrow> (writeErr 400 err, w)
      | Inr i \<Rightarrow> (case Delete (sv_repo s) i w of
          (Inl err, w1) \<Rightarrow> (writeErr 404 err, w1)
        | (Inr _, w1) \<Rightarrow> (Reply 204 NoBody, w1)))"

definition limitOf :: "request \<Rightarrow> int" where
  "limitOf r =
     (let v = rq_Query r ''limit''
      in if v = [] then 50
         else case ParseInt v of
                None \<Rightarrow> 50
              | Some n \<Rightarrow> if n < 1 then 50 else if n > 500 then 500 else n)"

definition enable :: "bool \<Rightarrow> 'w server \<Rightarrow> request \<Rightarrow> 'w \<Rightarrow> reply \<times> 'w" where
  "enable v s r w =
     (case pathID r of
        Inl err \<Rightarrow> (writeErr 400 err, w)
      | Inr i \<Rightarrow> (case SetEnabled (sv_repo s) i v w of
          (Inl err, w1) \<Rightarrow> (writeErr 404 err, w1)
        | (Inr j, w1) \<Rightarrow> (writeJSON 200 (doc (marshal_job j)), w1)))"

definition trigger :: "'w server \<Rightarrow> request \<Rightarrow> 'w \<Rightarrow> reply \<times> 'w" where
  "trigger s r w =
     (case pathID r of
        Inl err \<Rightarrow> (writeErr 400 err, w)
      | Inr i \<Rightarrow> (case Get (sv_repo s) i w of
          (Inl err, w1) \<Rightarrow> (writeErr 404 err, w1)
        | (Inr j, w1) \<Rightarrow> (case Trigger (sv_queue s) j w1 of
            (Inl err, w2) \<Rightarrow> (writeErr 500 err, w2)
          | (Inr _, w2) \<Rightarrow> (writeJSON 202 (JObj [(''job'', JStr (j_Name j)), (''status'', JStr ''queued'')]), w2))))"

definition jobRuns :: "'w server \<Rightarrow> request \<Rightarrow> 'w \<Rightarrow> reply \<times> 'w" where
  "jobRuns s r w =
     (case pathID r of
        Inl err \<Rightarrow> (writeErr 400 err, w)
      | Inr i \<Rightarrow> (case ListRuns (sv_store s) i (limitOf r) w of
          (Inl err, w1) \<Rightarrow> (writeErr 500 err, w1)
        | (Inr runs, w1) \<Rightarrow> (writeJSON 200 (nilable (map run_json runs)), w1)))"

definition allRuns :: "'w server \<Rightarrow> request \<Rightarrow> 'w \<Rightarrow> reply \<times> 'w" where
  "allRuns s r w =
     (case ListRuns (sv_store s) 0 (limitOf r) w of
        (Inl err, w1) \<Rightarrow> (writeErr 500 err, w1)
      | (Inr runs, w1) \<Rightarrow> (writeJSON 200 (nilable (map run_json runs)), w1))"

definition queueSnapshot :: "'w server \<Rightarrow> request \<Rightarrow> 'w \<Rightarrow> reply \<times> 'w" where
  "queueSnapshot s r w =
     (case PendingTickets (sv_queue s) 50 w of
        (Inl err, w1) \<Rightarrow> (writeErr 500 err, w1)
      | (Inr pending, w1) \<Rightarrow> (case Claims (sv_queue s) w1 of
          (Inl err, w2) \<Rightarrow> (writeErr 500 err, w2)
        | (Inr claims, w2) \<Rightarrow> (writeJSON 200 (JObj
            [(''in_flight'', nilable (map claim_json claims)),
             (''pending'', JArr (map (doc \<circ> marshal_ticket) pending))]), w2)))"

subsection \<open>Health, metrics and previews: extra.go\<close>

definition Healthz :: "'w server \<Rightarrow> request \<Rightarrow> 'w \<Rightarrow> reply \<times> 'w" where
  "Healthz s r w = (writeJSON 200 (JObj [(''node'', JStr (n_ID (sv_node s w))), (''status'', JStr ''ok'')]), w)"

definition Readyz :: "'w server \<Rightarrow> request \<Rightarrow> 'w \<Rightarrow> reply \<times> 'w" where
  "Readyz s r w =
     (let (m, w1) = Members (sv_cli s) w;
          ((_, c), w2) = Counts (sv_store s) w1;
          code = (case (m, c) of (Inr _, None) \<Rightarrow> 200 | _ \<Rightarrow> 503);
          check = (\<lambda>e. JStr (case e of Some err \<Rightarrow> ''error: '' @ sv_Error s err | None \<Rightarrow> ''ok''))
      in (writeJSON code (JObj
            [(''checks'', JObj
               [(''etcd'', check (case m of Inl err \<Rightarrow> Some err | Inr _ \<Rightarrow> None)),
                (''sqlite'', check c)]),
             (''node'', JStr (n_ID (sv_node s w2))), (''ready'', JBool (code = 200))]), w2))"

record metrics =
  mt_reqTotal :: int
  mt_reqFail :: int

definition metric :: "string \<Rightarrow> string \<Rightarrow> string \<Rightarrow> string \<Rightarrow> int \<Rightarrow> string" where
  "metric kind name help labels v =
     (let nl = [char_of (10 :: nat)]
      in ''# HELP '' @ name @ '' '' @ help @ nl @ ''# TYPE '' @ name @ '' '' @ kind @ nl @ name @ labels @ '' '' @ FormatInt v @ nl)"

definition PromMetrics :: "'w server \<Rightarrow> metrics \<Rightarrow> request \<Rightarrow> 'w \<Rightarrow> reply \<times> 'w" where
  "PromMetrics s mt r w =
     (let (members, w1) = Members (sv_cli s) w;
          (pending, w2) = CountPending (sv_queue s) w1;
          (claims, w3) = Claims (sv_queue s) w2;
          ((counts, _), w4) = Counts (sv_store s) w3;
          n = sv_node s w4;
          lbl = ''{node='' @ goQuote (n_ID n) @ ''}'';
          gauge = metric ''gauge'';
          counter = metric ''counter''
      in (Reply 200 (TextBody (
            gauge ''orbix_leader'' ''1 when this node holds the cluster leadership'' lbl (if IsLeader n then 1 else 0) @
            gauge ''orbix_cluster_members'' ''live cluster members visible to this node'' lbl (int (length (or_nil members))) @
            gauge ''orbix_queue_pending'' ''tickets waiting to be claimed'' lbl (case pending of Inl _ \<Rightarrow> 0 | Inr k \<Rightarrow> k) @
            gauge ''orbix_queue_in_flight'' ''tickets currently claimed by workers'' lbl (int (length (or_nil claims))) @
            gauge ''orbix_worker_busy_local'' ''executions running on this node'' lbl (sv_Busy s w4) @
            concat (map (\<lambda>(st, k). gauge ''orbix_runs_total'' ''finished runs mirrored into local history''
              (''{node='' @ goQuote (n_ID n) @ '',status='' @ goQuote st @ ''}'') k) (case counts of None \<Rightarrow> [] | Some cs \<Rightarrow> cs)) @
            counter ''orbix_api_requests_total'' ''API requests served by this node'' lbl (mt_reqTotal mt) @
            counter ''orbix_api_errors_total'' ''API requests that returned 5xx'' lbl (mt_reqFail mt))), w4))"

text \<open>\<open>fmt.Sscanf\<close> with \<open>%d\<close>: a sign and digits; what follows them is not looked at.\<close>

definition scan_d :: "string \<Rightarrow> int option" where
  "scan_d s =
     (let (sgn, rest) = (case s of [] \<Rightarrow> ([], []) | c # cs \<Rightarrow> if c = CHR ''+'' \<or> c = CHR ''-'' then ([c], cs) else ([], s));
          ds = takeWhile is_digit rest
      in if ds = [] then None else ParseInt (sgn @ ds))"

fun previewFires :: "tzdb \<Rightarrow> string \<Rightarrow> string \<Rightarrow> nat \<Rightarrow> instant \<Rightarrow> cron_error + instant list" where
  "previewFires tzdb expr tz 0 from_t = Inr []"
| "previewFires tzdb expr tz (Suc n) from_t =
     (case NextAfter tzdb expr tz from_t of
        Inl err \<Rightarrow> Inl err
      | Inr nxt \<Rightarrow> (case previewFires tzdb expr tz n nxt of Inl err \<Rightarrow> Inl err | Inr fs \<Rightarrow> Inr (nxt # fs)))"

definition previewCount :: "string \<Rightarrow> int option" where
  "previewCount raw = (if raw = [] then Some 5
     else case scan_d raw of None \<Rightarrow> None | Some v \<Rightarrow> if v < 1 \<or> v > 20 then None else Some v)"

definition cronPreview :: "'w server \<Rightarrow> request \<Rightarrow> 'w \<Rightarrow> reply \<times> 'w" where
  "cronPreview s r w =
     (let expr = TrimSpace (rq_Query r ''expr''); tz = TrimSpace (rq_Query r ''tz'')
      in if expr = [] then (writeErr 400 (Errorf ''query param expr is required''), w)
         else case previewCount (TrimSpace (rq_Query r ''n'')) of
           None \<Rightarrow> (writeErr 400 (Errorf ''n must be 1..20''), w)
         | Some n \<Rightarrow>
             let (now, w1) = w_now (sv_cli s) w; raw = TrimSpace (rq_Query r ''from'')
             in case (if raw = [] then Some now else Parse_RFC3339 raw) of
                  None \<Rightarrow> (writeErr 400 (Wrap ''from must be RFC3339: '' (ErrorQ ''parsing time '' raw)), w1)
                | Some from_t \<Rightarrow> (case previewFires (sv_tz s) expr tz (nat n) from_t of
                    Inl err \<Rightarrow> (writeErr 400 (CronErr err), w1)
                  | Inr fires \<Rightarrow> (writeJSON 200 (JObj [(''expr'', JStr expr),
                      (''fires'', JArr (map (\<lambda>t. JStr (Format_RFC3339 t)) fires)), (''tz'', JStr tz)]), w1)))"

subsection \<open>The nodes: nodes.go\<close>

record NodeView =
  nv_NodeID :: string
  nv_Addr :: string
  nv_JoinedAt :: string
  nv_Leader :: bool
  nv_Member :: bool
  nv_State :: string
  nv_HostPort :: string
  nv_Manageable :: bool

definition nodeview_json :: "NodeView \<Rightarrow> json" where
  "nodeview_json v = JObj (
     [(''node_id'', JStr (nv_NodeID v))] @ omit_str ''addr'' (nv_Addr v) @ omit_str ''joined_at'' (nv_JoinedAt v)
     @ [(''leader'', JBool (nv_Leader v)), (''member'', JBool (nv_Member v)), (''state'', JStr (nv_State v))]
     @ omit_str ''host_port'' (nv_HostPort v) @ [(''manageable'', JBool (nv_Manageable v))])"

definition memberView :: "string \<Rightarrow> member \<Rightarrow> NodeView" where
  "memberView lead m = \<lparr>nv_NodeID = m_NodeID m, nv_Addr = m_Addr m, nv_JoinedAt = m_JoinedAt m,
     nv_Leader = (lead \<noteq> [] \<and> m_NodeID m = lead), nv_Member = True, nv_State = [], nv_HostPort = [], nv_Manageable = False\<rparr>"

definition addMembers :: "string \<Rightarrow> member list \<Rightarrow> (string \<times> NodeView) list \<Rightarrow> (string \<times> NodeView) list" where
  "addMembers lead members m = fold (\<lambda>x. AList.update (m_NodeID x) (memberView lead x)) members m"

definition addContainer :: "NodeContainer \<Rightarrow> (string \<times> NodeView) list \<Rightarrow> (string \<times> NodeView) list" where
  "addContainer dc m =
     (let v = (case map_of m (nc_NodeID dc) of
                 Some v \<Rightarrow> v
               | None \<Rightarrow> \<lparr>nv_NodeID = nc_NodeID dc, nv_Addr = [], nv_JoinedAt = [], nv_Leader = False, nv_Member = False,
                          nv_State = [], nv_HostPort = [], nv_Manageable = False\<rparr>)
      in AList.update (nc_NodeID dc) (v\<lparr>nv_State := nc_State dc, nv_HostPort := nc_HostPort dc, nv_Manageable := True\<rparr>) m)"

definition nodeViews :: "(string \<times> NodeView) list \<Rightarrow> NodeView list" where
  "nodeViews m = sort_key nv_NodeID
     (map (\<lambda>(k, v). if nv_State v = [] then v\<lparr>nv_State := ''external''\<rparr> else v) m)"

definition listNodes :: "'w server \<Rightarrow> request \<Rightarrow> 'w \<Rightarrow> reply \<times> 'w" where
  "listNodes s r w =
     (let (members, w1) = Members (sv_cli s) w;
          lead = Leader (sv_node s w1);
          byID = addMembers (l_NodeID lead) (or_nil members) [];
          reply = (\<lambda>m dockAvail w. (writeJSON 200 (JObj
             [(''docker'', JBool dockAvail), (''nodes'', JArr (map nodeview_json (nodeViews m))),
              (''self'', JStr (n_ID (sv_node s w)))]), w))
      in if \<not> Available (sv_dock s) then reply byID False w1
         else case ListNodes (sv_daemon s) (sv_dock s) w1 of
                (Ok containers, w2) \<Rightarrow> reply (fold addContainer containers byID) True w2
              | (Err _, w2) \<Rightarrow> reply byID False w2
              | (Panic, w2) \<Rightarrow> (Aborted, w2))"

text \<open>The regular expression \<open>^[a-z0-9][a-z0-9-]{0,31}$\<close>.\<close>

definition lower_or_digit :: "char \<Rightarrow> bool" where
  "lower_or_digit c \<longleftrightarrow> is_digit c \<or> (let n = of_char c :: int in 97 \<le> n \<and> n \<le> 122)"

definition nodeIDRe :: "string \<Rightarrow> bool" where
  "nodeIDRe s \<longleftrightarrow> (case s of [] \<Rightarrow> False
     | c # cs \<Rightarrow> lower_or_digit c \<and> length cs \<le> 31 \<and> list_all (\<lambda>x. lower_or_digit x \<or> x = CHR ''-'') cs)"

definition consider_id :: "int \<Rightarrow> string \<Rightarrow> int" where
  "consider_id m i =
     (if HasPrefix i ''node'' then
        (case ParseInt (TrimPrefix i ''node'') of Some n \<Rightarrow> if n > m then n else m | None \<Rightarrow> m)
      else m)"

definition nextNodeID :: "'w server \<Rightarrow> 'w \<Rightarrow> string res \<times> 'w" where
  "nextNodeID s w =
     (let (members, w1) = Members (sv_cli s) w;
          max1 = foldl consider_id 0 (map m_NodeID (or_nil members));
          name = (\<lambda>mx. ''node'' @ FormatInt (wrap64 (mx + 1)))
      in if \<not> Available (sv_dock s) then (Ok (name max1), w1)
         else case ListNodes (sv_daemon s) (sv_dock s) w1 of
                (Ok containers, w2) \<Rightarrow> (Ok (name (foldl consider_id max1 (map nc_NodeID containers))), w2)
              | (Err _, w2) \<Rightarrow> (Ok (name max1), w2)
              | (Panic, w2) \<Rightarrow> (Panic, w2))"

definition startNew :: "'w server \<Rightarrow> string \<Rightarrow> 'w \<Rightarrow> reply \<times> 'w" where
  "startNew s i w =
     (if \<not> nodeIDRe i then (writeErr 400 (Errorf ''node_id must match [a-z0-9-], up to 32 chars''), w)
      else case AddNode (sv_daemon s) (sv_dock s) i w of
             (Err err, w1) \<Rightarrow> (writeErr 500 err, w1)
           | (Panic, w1) \<Rightarrow> (Aborted, w1)
           | (Ok n, w1) \<Rightarrow> (writeJSON 201 (JObj
               [(''container'', JStr (nc_ContainerID n)), (''host_port'', JStr (nc_HostPort n)),
                (''node_id'', JStr (nc_NodeID n)), (''status'', JStr ''started'')]), w1))"

definition addNode :: "'w server \<Rightarrow> request \<Rightarrow> 'w \<Rightarrow> reply \<times> 'w" where
  "addNode s r w =
     (if \<not> Available (sv_dock s) then
        (writeErr 501 (Errorf ''adding nodes needs the docker socket: mount /var/run/docker.sock into the node container''), w)
      else let i = TrimSpace (lenient_str ''node_id'' (rq_Body r))
           in if i \<noteq> [] then startNew s i w
              else case nextNodeID s w of
                     (Ok i, w1) \<Rightarrow> startNew s i w1
                   | (_, w1) \<Rightarrow> (Aborted, w1))"

definition leaveNode :: "'w server \<Rightarrow> request \<Rightarrow> 'w \<Rightarrow> reply \<times> 'w" where
  "leaveNode s r w =
     (case sv_onLeave s of
        None \<Rightarrow> (writeErr 501 (Errorf ''graceful leave is not wired''), w)
      | Some leave \<Rightarrow> (writeJSON 202 (JObj [(''leaving'', JStr (n_ID (sv_node s w))), (''mode'', JStr ''graceful'')]), leave w))"

definition killNode :: "'w server \<Rightarrow> request \<Rightarrow> 'w \<Rightarrow> reply \<times> 'w" where
  "killNode s r w =
     (let i = rq_id r
      in if i = [] then (writeErr 400 (Errorf ''node id is required''), w)
         else if Available (sv_dock s) then
           (case KillNode (sv_daemon s) (sv_dock s) i w of
              (Err err, w1) \<Rightarrow> (writeErr 404 err, w1)
            | (Panic, w1) \<Rightarrow> (Aborted, w1)
            | (Ok _, w1) \<Rightarrow> (writeJSON 202 (JObj [(''killed'', JStr i), (''mode'', JStr ''sigkill'')]), w1))
         else if i = n_ID (sv_node s w) then leaveNode s r w
         else (writeErr 501 (Errorf ''killing remote nodes needs the docker socket: mount /var/run/docker.sock''), w))"

definition startNode :: "'w server \<Rightarrow> request \<Rightarrow> 'w \<Rightarrow> reply \<times> 'w" where
  "startNode s r w =
     (let i = rq_id r
      in if i = [] then (writeErr 400 (Errorf ''node id is required''), w)
         else if \<not> Available (sv_dock s) then
           (writeErr 501 (Errorf ''starting nodes needs the docker socket: mount /var/run/docker.sock into the node container''), w)
         else case StartNode (sv_daemon s) (sv_dock s) i w of
                (Err err, w1) \<Rightarrow> (writeErr 404 err, w1)
              | (Panic, w1) \<Rightarrow> (Aborted, w1)
              | (Ok _, w1) \<Rightarrow> (writeJSON 202 (JObj [(''started'', JStr i)]), w1))"

subsection \<open>Routing\<close>

type_synonym 'w handler = "'w server \<Rightarrow> request \<Rightarrow> 'w \<Rightarrow> reply \<times> 'w"

text \<open>The patterns of \<open>Handler\<close>: the handlers of a path by method, and the segment that matches \<open>{id}\<close>.\<close>

definition apiRoutes :: "string list \<Rightarrow> string \<times> (string \<times> 'w handler) list" where
  "apiRoutes segs =
     (let i = segs ! 2
      in if segs = [''api'', ''status''] then ([], [(''GET'', status)])
         else if segs = [''api'', ''jobs''] then ([], [(''GET'', listJobs), (''POST'', createJob)])
         else if segs = [''api'', ''runs''] then ([], [(''GET'', allRuns)])
         else if segs = [''api'', ''queue''] then ([], [(''GET'', queueSnapshot)])
         else if segs = [''api'', ''cron'', ''preview''] then ([], [(''GET'', cronPreview)])
         else if segs = [''api'', ''nodes''] then ([], [(''GET'', listNodes), (''POST'', addNode)])
         else if segs = [''api'', ''nodes'', ''self'', ''leave''] then ([], [(''POST'', leaveNode)])
         else if length segs < 3 \<or> i = [] then ([], [])
         else if segs = [''api'', ''jobs'', i] then (i, [(''GET'', getJob), (''PUT'', updateJob), (''DELETE'', deleteJob)])
         else if segs = [''api'', ''jobs'', i, ''enable''] then (i, [(''POST'', enable True)])
         else if segs = [''api'', ''jobs'', i, ''disable''] then (i, [(''POST'', enable False)])
         else if segs = [''api'', ''jobs'', i, ''trigger''] then (i, [(''POST'', trigger)])
         else if segs = [''api'', ''jobs'', i, ''runs''] then (i, [(''GET'', jobRuns)])
         else if segs = [''api'', ''nodes'', i, ''kill''] then (i, [(''POST'', killNode)])
         else if segs = [''api'', ''nodes'', i, ''start''] then (i, [(''POST'', startNode)])
         else ([], []))"

text \<open>\<open>ServeMux\<close>: a pattern for \<open>GET\<close> also serves \<open>HEAD\<close>; a path with patterns for other methods only is
  answered 405, any other 404.  Paths are taken to be clean: those that \<open>ServeMux\<close> would redirect (with empty
  or dot segments) are not followed up here.\<close>

definition dispatch :: "'w handler" where
  "dispatch s r w =
     (let (i, hs) = apiRoutes (tl (Split CHR ''/'' (rq_Path r)));
          meth = (if rq_Method r = ''HEAD'' then ''GET'' else rq_Method r)
      in case map_of hs meth of
           Some h \<Rightarrow> h s (r\<lparr>rq_id := i\<rparr>) w
         | None \<Rightarrow> (if hs = [] then (Reply 404 (TextBody (''404 page not found'' @ [char_of (10 :: nat)])), w)
                    else (Reply 405 (TextBody (''Method Not Allowed'' @ [char_of (10 :: nat)])), w)))"

fun reply_code :: "reply \<Rightarrow> int option" where
  "reply_code (Reply code b) = Some code"
| "reply_code Aborted = None"

definition instrument :: "'w handler \<Rightarrow> 'w server \<Rightarrow> request \<Rightarrow> metrics \<times> 'w \<Rightarrow> reply \<times> metrics \<times> 'w" where
  "instrument h s r mw =
     (let (mt, w) = mw;
          mt1 = mt\<lparr>mt_reqTotal := wrap64 (mt_reqTotal mt + 1)\<rparr>;
          (rep, w1) = h s r w
      in (rep, (case reply_code rep of
                  Some code \<Rightarrow> if code \<ge> 500 then mt1\<lparr>mt_reqFail := wrap64 (mt_reqFail mt1 + 1)\<rparr> else mt1
                | None \<Rightarrow> mt1), w1))"

text \<open>The wrapper \<open>logRequests\<close> only writes a line to the log and is left out.\<close>

definition Handler :: "'w server \<Rightarrow> request \<Rightarrow> metrics \<times> 'w \<Rightarrow> reply \<times> metrics \<times> 'w" where
  "Handler = instrument dispatch"

text \<open>The routes of the daemon, cmd/orbixd/main.go; the console's files are served by \<open>files\<close>.\<close>

definition main_routes :: "(request \<Rightarrow> reply) \<Rightarrow> 'w server \<Rightarrow> request \<Rightarrow> metrics \<times> 'w \<Rightarrow> reply \<times> metrics \<times> 'w" where
  "main_routes files s r mw =
     (let (mt, w) = mw; p = rq_Path r
      in if HasPrefix p ''/api/'' then Handler s r mw
         else if p = ''/healthz'' then (let (rep, w1) = Healthz s r w in (rep, mt, w1))
         else if p = ''/readyz'' then (let (rep, w1) = Readyz s r w in (rep, mt, w1))
         else if p = ''/metrics'' then (let (rep, w1) = PromMetrics s mt r w in (rep, mt, w1))
         else (files r, mw))"

subsection \<open>Reading requests\<close>

text \<open>The server in its environment: all its components use one etcd client, reading the local database
  and asking the container daemon with \<open>GET\<close> does not write to the store.\<close>

locale api_env = queue_env "sv_queue s" view rely
  for s :: "'w server" and view :: "'w \<Rightarrow> est" and rely :: "est \<Rightarrow> est \<Rightarrow> bool" +
  assumes cli: "sv_cli s = q_cli (sv_queue s)" "rp_cli (sv_repo s) = q_cli (sv_queue s)"
    and query_rely: "rely (view w) (view (snd (d_Query (sv_store s) qry w)))"
    and daemon_rely: "rely (view w) (view (snd (dk_Do (sv_daemon s) ''GET'' p b w)))"
begin

lemma read_rely:
  "Members (sv_cli s) w = (x1, w') \<Longrightarrow> rely (view w) (view w')"
  "CountPending (sv_queue s) w = (x2, w') \<Longrightarrow> rely (view w) (view w')"
  "Claims (sv_queue s) w = (x3, w') \<Longrightarrow> rely (view w) (view w')"
  "PendingTickets (sv_queue s) limit w = (x4, w') \<Longrightarrow> rely (view w) (view w')"
  "Get (sv_repo s) i w = (x5, w') \<Longrightarrow> rely (view w) (view w')"
  "List_jobs (sv_repo s) w = (x6, w') \<Longrightarrow> rely (view w) (view w')"
  "Counts (sv_store s) w = (x7, w') \<Longrightarrow> rely (view w) (view w')"
  "ListRuns (sv_store s) i limit w = (x8, w') \<Longrightarrow> rely (view w) (view w')"
  "w_now (sv_cli s) w = (x9, w') \<Longrightarrow> rely (view w) (view w')"
proof -
  have g: "w_get (q_cli (sv_queue s)) k opt w = (y, v) \<Longrightarrow> rely (view w) (view v)" for k opt y v
    using get_rely [of w k opt] by simp
  have d: "d_Query (sv_store s) qry w = (y, v) \<Longrightarrow> rely (view w) (view v)" for qry y v
    using query_rely [of w qry] by simp
  have n: "w_now (q_cli (sv_queue s)) w = (y, v) \<Longrightarrow> rely (view w) (view v)" for y v
    using now [of w] by simp
  show "Members (sv_cli s) w = (x1, w') \<Longrightarrow> rely (view w) (view w')"
    by (auto simp: Members_def cli dest!: g split: prod.splits sum.splits)
  show "CountPending (sv_queue s) w = (x2, w') \<Longrightarrow> rely (view w) (view w')"
    by (auto simp: CountPending_def dest!: g split: prod.splits sum.splits)
  show "Claims (sv_queue s) w = (x3, w') \<Longrightarrow> rely (view w) (view w')"
    by (auto simp: Claims_def dest!: g split: prod.splits sum.splits)
  show "PendingTickets (sv_queue s) limit w = (x4, w') \<Longrightarrow> rely (view w) (view w')"
    by (auto simp: PendingTickets_def Let_def dest!: g split: prod.splits sum.splits)
  show "Get (sv_repo s) i w = (x5, w') \<Longrightarrow> rely (view w) (view w')"
    by (auto simp: Get_def cli dest!: g split: prod.splits sum.splits list.splits option.splits)
  show "List_jobs (sv_repo s) w = (x6, w') \<Longrightarrow> rely (view w) (view w')"
    by (auto simp: List_jobs_def cli dest!: g split: prod.splits sum.splits)
  show "Counts (sv_store s) w = (x7, w') \<Longrightarrow> rely (view w) (view w')"
    by (auto simp: Counts_def dest!: d split: prod.splits sum.splits)
  show "ListRuns (sv_store s) i limit w = (x8, w') \<Longrightarrow> rely (view w) (view w')"
    by (auto simp: ListRuns_def Let_def dest!: d split: prod.splits sum.splits option.splits if_splits)
  show "w_now (sv_cli s) w = (x9, w') \<Longrightarrow> rely (view w) (view w')"
    using n by (simp add: cli)
qed

lemma daemon_get_rely: "do_request (sv_daemon s) c ''GET'' p b w = (r, w') \<Longrightarrow> rely (view w) (view w')"
  using daemon_rely [of w p b] by (auto simp: do_request_def split: if_splits)

lemma inspect_rely: "inspect_container (sv_daemon s) c i w = (r, w') \<Longrightarrow> rely (view w) (view w')"
  by (auto simp: inspect_container_def split: prod.splits sum.splits dest: daemon_get_rely)

lemma collectNodes_rely: "collectNodes (sv_daemon s) c is w = (r, w') \<Longrightarrow> rely (view w) (view w')"
proof (induction "is" arbitrary: w r)
  case (Cons i "is")
  obtain x w1 where x: "inspect_container (sv_daemon s) c i w = (x, w1)" by (cases "inspect_container (sv_daemon s) c i w") blast
  have "rely (view w1) (view w') \<or> w' = w1"
    using Cons x by (auto split: sum.splits res.splits if_splits prod.splits)
  with inspect_rely [OF x] show ?case by (auto intro: rely_trans)
qed simp

lemma ListNodes_rely: "ListNodes (sv_daemon s) c w = (r, w') \<Longrightarrow> rely (view w) (view w')"
  by (auto simp: ListNodes_def selfProject_def Let_def split: prod.splits sum.splits if_splits
      dest!: inspect_rely daemon_get_rely collectNodes_rely intro: rely_trans)

text \<open>The handlers of the \<open>GET\<close> patterns.\<close>

lemma get_handlers_rely:
  "rely (view w) (view (snd (status s r w)))" "rely (view w) (view (snd (listJobs s r w)))"
  "rely (view w) (view (snd (getJob s r w)))" "rely (view w) (view (snd (jobRuns s r w)))"
  "rely (view w) (view (snd (allRuns s r w)))" "rely (view w) (view (snd (queueSnapshot s r w)))"
  "rely (view w) (view (snd (cronPreview s r w)))" "rely (view w) (view (snd (listNodes s r w)))"
proof -
  show "rely (view w) (view (snd (status s r w)))"
    by (auto simp: status_def Let_def split: prod.splits dest!: read_rely) (meson rely_trans)
  show "rely (view w) (view (snd (listJobs s r w)))"
    by (auto simp: listJobs_def split: prod.splits sum.splits dest!: read_rely intro: rely_trans)
  show "rely (view w) (view (snd (getJob s r w)))"
    by (auto simp: getJob_def split: prod.splits sum.splits dest!: read_rely)
  show "rely (view w) (view (snd (jobRuns s r w)))" "rely (view w) (view (snd (allRuns s r w)))"
    by (auto simp: jobRuns_def allRuns_def split: prod.splits sum.splits dest!: read_rely)
  show "rely (view w) (view (snd (queueSnapshot s r w)))"
    by (auto simp: queueSnapshot_def split: prod.splits sum.splits dest!: read_rely intro: rely_trans)
  show "rely (view w) (view (snd (cronPreview s r w)))"
    by (auto simp: cronPreview_def Let_def split: prod.splits sum.splits option.splits if_splits dest!: read_rely)
  show "rely (view w) (view (snd (listNodes s r w)))"
    by (auto simp: listNodes_def Let_def split: prod.splits res.splits dest!: read_rely ListNodes_rely intro: rely_trans)
qed

lemma apiRoutes_get_rely:
  assumes "apiRoutes segs = (i, hs)" "map_of hs ''GET'' = Some h"
  shows "rely (view w) (view (snd (h s r w)))"
  using assms get_handlers_rely by (auto simp: apiRoutes_def Let_def split: if_splits)

lemma dispatch_get_rely:
  assumes "rq_Method r \<in> {''GET'', ''HEAD''}"
  shows "rely (view w) (view (snd (dispatch s r w)))"
  using assms apiRoutes_get_rely by (auto simp: dispatch_def split: prod.splits option.splits)

end

subsection \<open>Requests that change something\<close>

text \<open>A request respects the set \<open>P\<close> of jobs whose tickets allow overlap when the job in its body, if there is
  one, allows overlap or \<open>P\<close> is empty.\<close>

definition req_ok :: "(int \<Rightarrow> bool) \<Rightarrow> request \<Rightarrow> bool" where
  "req_ok P r \<longleftrightarrow> (\<forall>j. decodeJob r = Inr j \<longrightarrow> j_NoOverlap j \<longrightarrow> (\<forall>i. \<not> P i))"

lemma req_ok_id [simp]: "req_ok P (r\<lparr>rq_id := i\<rparr>) = req_ok P r"
  by (simp add: req_ok_def decodeJob_def)

lemma decodeJob_ok: "decodeJob r = Inr j \<Longrightarrow> req_ok P r \<Longrightarrow> new_ok P j"
  by (auto simp: decodeJob_def req_ok_def new_ok_def split: sum.splits option.splits dest: unmarshal_job_int64)

lemma pathID_int64: "pathID r = Inr i \<Longrightarrow> is_int64 i"
  by (auto simp: pathID_def split: option.splits dest: ParseInt_int64)

lemma apiRoutes_handlers:
  assumes "apiRoutes segs = (i, hs)" "map_of hs m = Some h"
  shows "h \<in> {status, listJobs, getJob, jobRuns, allRuns, queueSnapshot, cronPreview, listNodes} \<union>
    {addNode, leaveNode, killNode, startNode} \<union> {trigger, deleteJob, enable True, enable False, updateJob, createJob}"
  using assms unfolding apiRoutes_def Let_def by (auto split: if_split_asm)

text \<open>The server among the other nodes: the queue and the repository follow their protocols, and neither the
  container daemon nor leaving the cluster writes to the store.\<close>

locale api_protocol = api_env s view rely + queue_protocol "sv_queue s" view rely P + repo: jobs_env "sv_repo s" view rely P
  for s :: "'w server" and view :: "'w \<Rightarrow> est" and rely :: "est \<Rightarrow> est \<Rightarrow> bool" and P :: "int \<Rightarrow> bool" +
  assumes request_rely: "rely (view w) (view (snd (dk_Do (sv_daemon s) meth p b w)))"
    and leave_rely: "sv_onLeave s = Some leave \<Longrightarrow> rely (view w) (view (leave w))"
begin

lemma post_rely: "postContainer (sv_daemon s) c i a w = (r, w') \<Longrightarrow> rely (view w) (view w')"
  using request_rely by (fastforce simp: postContainer_def do_request_def split: prod.splits sum.splits if_splits dest: arg_cong [of _ _ snd])

lemma findContainer_rely: "findContainer (sv_daemon s) c i w = (r, w') \<Longrightarrow> rely (view w) (view w')"
  by (auto simp: findContainer_def split: prod.splits res.splits option.splits dest: ListNodes_rely)

lemma node_control_rely:
  "KillNode (sv_daemon s) c i w = (x, w') \<Longrightarrow> rely (view w) (view w')"
  "StartNode (sv_daemon s) c i w = (y, w') \<Longrightarrow> rely (view w) (view w')"
  by (auto simp: KillNode_def StartNode_def split: prod.splits res.splits sum.splits
      dest!: findContainer_rely post_rely intro: rely_trans)

lemma do_rely: "do_request (sv_daemon s) c meth p b w = (r, w') \<Longrightarrow> rely (view w) (view w')"
  using request_rely [of w meth p b] by (auto simp: do_request_def split: if_splits)

lemma selfProject_rely: "selfProject (sv_daemon s) c w = (r, w') \<Longrightarrow> rely (view w) (view w')"
  by (auto simp: selfProject_def Let_def split: prod.splits sum.splits if_splits dest!: inspect_rely)

lemma AddNode_rely: "AddNode (sv_daemon s) c i w = (r, w') \<Longrightarrow> rely (view w) (view w')"
  by (auto simp: AddNode_def split: prod.splits sum.splits res.splits
      dest!: selfProject_rely findContainer_rely do_rely post_rely inspect_rely) (meson rely_trans)+

lemma nextNodeID_rely: "nextNodeID s w = (r, w') \<Longrightarrow> rely (view w) (view w')"
  by (auto simp: nextNodeID_def Let_def split: prod.splits res.splits if_splits dest!: read_rely(1) ListNodes_rely intro: rely_trans)

lemma startNew_rely: "rely (view w) (view (snd (startNew s i w)))"
  by (auto simp: startNew_def split: prod.splits res.splits dest!: AddNode_rely)

lemma node_handlers_rely:
  "rely (view w) (view (snd (addNode s r w)))" "rely (view w) (view (snd (leaveNode s r w)))"
  "rely (view w) (view (snd (killNode s r w)))" "rely (view w) (view (snd (startNode s r w)))"
proof -
  show "rely (view w) (view (snd (addNode s r w)))"
    by (auto simp: addNode_def Let_def startNew_rely split: prod.splits res.splits dest!: nextNodeID_rely intro: rely_trans [OF _ startNew_rely])
  show leave: "rely (view w) (view (snd (leaveNode s r w)))"
    using leave_rely by (auto simp: leaveNode_def split: option.splits)
  show "rely (view w) (view (snd (killNode s r w)))"
    using leave by (auto simp: killNode_def Let_def split: prod.splits res.splits dest!: node_control_rely)
  show "rely (view w) (view (snd (startNode s r w)))"
    by (auto simp: startNode_def Let_def split: prod.splits res.splits dest!: node_control_rely)
qed

lemma trigger_steps:
  assumes "jobs_inv P (view w)"
  shows "rely (view w) (view (snd (trigger s r w)))"
proof -
  have t: "rely (view w) (view w2)"
    if g: "Get (sv_repo s) i w = (Inr j, w1)" and q: "Trigger (sv_queue s) j w1 = (x, w2)" for i j w1 x w2
  proof -
    have w1: "rely (view w) (view w1)" and j: "job_ok P j" "job_int64 j" using repo.Get_found [OF g assms] by auto
    have "allowed P (manualTicket j k)" for k
      using j by (auto simp: allowed_def job_ok_def ticket_int64_def job_int64_def manualTicket_def int64_defs)
    moreover have "wf_est (view w1)" using rely_wf [OF w1] assms by (simp add: jobs_inv_def)
    ultimately have "rely (view w1) (view w2)" using Trigger_steps [of j w1] q by simp
    with w1 show ?thesis by (rule rely_trans)
  qed
  then show ?thesis by (auto simp: trigger_def split: prod.splits sum.splits dest: read_rely(5))
qed

lemma job_handlers_steps:
  assumes "jobs_inv P (view w)"
  shows "rely (view w) (view (snd (deleteJob s r w)))" "rely (view w) (view (snd (enable b s r w)))"
    and "req_ok P r \<Longrightarrow> rely (view w) (view (snd (updateJob s r w)))"
    and "req_ok P r \<Longrightarrow> es_rev (view (snd (createJob s r w))) \<le> max_int64 \<Longrightarrow> rely (view w) (view (snd (createJob s r w)))"
proof -
  show "rely (view w) (view (snd (deleteJob s r w)))"
    using repo.Delete_steps [of w] by (fastforce simp: deleteJob_def split: prod.splits sum.splits dest: arg_cong [of _ _ snd])
  show "rely (view w) (view (snd (enable b s r w)))"
    using repo.SetEnabled_steps [OF assms] by (fastforce simp: enable_def split: prod.splits sum.splits dest: arg_cong [of _ _ snd])
  show "rely (view w) (view (snd (updateJob s r w)))" if "req_ok P r"
  proof -
    have "rely (view w) (view w1)" if "pathID r = Inr i" "decodeJob r = Inr j" "Update (sv_repo s) (sv_tz s) i j w = (x, w1)" for i j x w1
      using repo.Update_steps [OF assms, of j i "sv_tz s"] decodeJob_ok [OF that(2) \<open>req_ok P r\<close>] pathID_int64 [OF that(1)] that(3)
      by (auto simp: new_ok_def)
    then show ?thesis by (auto simp: updateJob_def split: prod.splits sum.splits)
  qed
  show "rely (view w) (view (snd (createJob s r w)))" if "req_ok P r" "es_rev (view (snd (createJob s r w))) \<le> max_int64"
  proof (cases "decodeJob r")
    case (Inr j)
    have "snd (createJob s r w) = snd (Create (sv_repo s) (sv_tz s) j w)"
      using Inr by (simp add: createJob_def split: prod.splits sum.splits)
    then show ?thesis using repo.Create_steps [OF assms decodeJob_ok [OF Inr that(1)]] that(2) by simp
  qed (simp add: createJob_def)
qed

text \<open>Every request, whichever handler serves it.\<close>

lemma apiRoutes_steps:
  assumes "apiRoutes segs = (i, hs)" "map_of hs m = Some h"
    and "jobs_inv P (view w)" "req_ok P r" "es_rev (view (snd (h s r w))) \<le> max_int64"
  shows "rely (view w) (view (snd (h s r w)))"
proof -
  consider "h \<in> {status, listJobs, getJob, jobRuns, allRuns, queueSnapshot, cronPreview, listNodes}"
    | "h \<in> {addNode, leaveNode, killNode, startNode}" | "h \<in> {trigger, deleteJob, enable True, enable False, updateJob, createJob}"
    using apiRoutes_handlers [OF assms(1,2)] by blast
  then show ?thesis
  proof cases
    case 1
    then show ?thesis using get_handlers_rely by blast
  next
    case 2
    then show ?thesis using node_handlers_rely by blast
  next
    case 3
    then show ?thesis using trigger_steps [OF assms(3)] job_handlers_steps [OF assms(3)] assms(4,5) by blast
  qed
qed

lemma dispatch_steps:
  assumes "jobs_inv P (view w)" "req_ok P r" "es_rev (view (snd (dispatch s r w))) \<le> max_int64"
  shows "rely (view w) (view (snd (dispatch s r w)))"
proof -
  obtain i hs where h: "apiRoutes (tl (Split CHR ''/'' (rq_Path r))) = (i, hs :: (string \<times> 'w handler) list)" by fastforce
  show ?thesis
    using assms(3) apiRoutes_steps [OF h _ assms(1), where r = "r\<lparr>rq_id := i\<rparr>"] assms(2) h
    by (auto simp: dispatch_def Let_def split: option.splits)
qed

lemma main_routes_steps:
  assumes "jobs_inv P (view w)" "req_ok P r" "main_routes files s r (mt, w) = (rep, mt', w')" "es_rev (view w') \<le> max_int64"
  shows "rely (view w) (view w')"
proof -
  have "rely (view w) (view (snd (Healthz s r w)))" by (simp add: Healthz_def)
  moreover have "rely (view w) (view (snd (Readyz s r w)))"
    by (auto simp: Readyz_def Let_def split: prod.splits dest!: read_rely intro: rely_trans)
  moreover have "rely (view w) (view (snd (PromMetrics s mt r w)))"
    by (auto simp: PromMetrics_def Let_def split: prod.splits dest!: read_rely) (meson rely_trans)
  moreover have "snd (snd (Handler s r (mt, w))) = snd (dispatch s r w)"
    by (simp add: Handler_def instrument_def Let_def split: prod.splits)
  ultimately show ?thesis using assms(3,4) dispatch_steps [OF assms(1,2)]
    by (auto simp: main_routes_def Let_def split: if_splits prod.splits)
qed

end

subsection \<open>A local server\<close>

text \<open>A server over the in-memory store, with a fixed table of runs and no container daemon.\<close>

definition table_db :: "run list \<Rightarrow> 'w sqldb" where
  "table_db rows = \<lparr>d_MkdirAll = (\<lambda>p w. (None, w)), d_Open = (\<lambda>p w. (None, w)),
     d_Exec = (\<lambda>q w. (if exec_stmt q rows = Some rows then None else Some db_error, w)),
     d_Query = (\<lambda>q w. (Inr (query_db q rows, None), w)), d_Close = (\<lambda>w. (None, w))\<rparr>"

interpretation tdb: runs_table "table_db rows" "\<lambda>w. rows" for rows
  by unfold_locales (auto simp: table_db_def answers_query_db split: if_splits)

definition local_server :: "run list \<Rightarrow> unit mem server" where
  "local_server rows = \<lparr>sv_repo = local_repo, sv_queue = local_queue ''n1'' 7, sv_cli = mem_world idle,
     sv_node = (\<lambda>w. demo_node ''n1'' (Some 7)), sv_store = table_db rows, sv_Busy = (\<lambda>w. 0), sv_version = ''0.1.0'',
     sv_daemon = \<lparr>dk_Stat = (\<lambda>w. (False, w)), dk_Hostname = Inr ''n1'', dk_Do = (\<lambda>m p b w. (Inl timed_out, w))\<rparr>,
     sv_dock = \<lparr>dc_http = False, dc_selfID = ''n1''\<rparr>, sv_onLeave = None, sv_tz = Map.empty, sv_Error = (\<lambda>_. [])\<rparr>"

lemma local_server_env: "env_ok rely \<Longrightarrow> api_env (local_server rows) mem_store rely"
  using local_queue_env [of rely "''n1''" 7]
  by (auto simp: api_env_def api_env_axioms_def local_server_def table_db_def env_ok_def reflp_def)

interpretation la: api_env "local_server rows" mem_store "(=)" for rows
  by (rule local_server_env [OF env_ok_eq])

subsection \<open>Properties\<close>

text \<open>C30. Reading is safe: a request with the method \<open>GET\<close> or \<open>HEAD\<close>, whatever its path, query and body, never writes
  to the cluster's store; all that happens to the store while it is answered is what other clients do.\<close>

theorem get_requests_are_safe:
  assumes "api_env s view rely" "rq_Method r \<in> {''GET'', ''HEAD''}"
  shows "rely (view w) (view (snd (dispatch s r w)))"
  using assms by (rule api_env.dispatch_get_rely)

definition get_request :: "string \<Rightarrow> request" where
  "get_request path = \<lparr>rq_Method = ''GET'', rq_Path = path, rq_id = [], rq_Query = (\<lambda>_. []), rq_Body = Inr JNull\<rparr>"

theorem get_requests_are_safe_witness:
  "mem_store (snd (dispatch (local_server []) (get_request ''/api/status'') (mem_of pending_store 0))) = pending_store"
  using get_requests_are_safe [OF local_server_env [OF env_ok_eq], of "get_request ''/api/status''" "mem_of pending_store 0"]
  by (simp add: get_request_def)

text \<open>C32. The run list of a job shows its newest runs: when the request succeeds it lists, newest row first, the
  runs of the job, as many as asked for; the number asked for is between 1 and 500 whatever the query
  says, so that the store's own default never applies.  An id of zero or less lists the runs of all
  jobs.\<close>

theorem jobRuns_window:
  assumes "runs_table (sv_store s) rows" "pathID r = Inr i" "jobRuns s r w = (Reply 200 b, w')"
  shows "1 \<le> limitOf r \<and> limitOf r \<le> 500 \<and>
    b = JsonBody (nilable (map run_json (take (nat (limitOf r))
      (rev (filter (\<lambda>x. i \<le> 0 \<or> r_JobID (run_Result x) = i) (rows w))))))"
proof -
  have l: "1 \<le> limitOf r \<and> limitOf r \<le> 500" by (simp add: limitOf_def Let_def split: option.splits)
  obtain runs where "ListRuns (sv_store s) i (limitOf r) w = (Inr runs, w')" "b = JsonBody (nilable (map run_json runs))"
    using assms(2,3) by (auto simp: jobRuns_def writeJSON_def writeErr_def split: prod.splits sum.splits)
  moreover from runs_table.ListRuns_rows [OF assms(1) this(1)] l
  have "runs = take (nat (limitOf r)) (rev (filter (\<lambda>x. i \<le> 0 \<or> r_JobID (run_Result x) = i) (rows w)))"
    by (auto simp: select_runs_def not_le intro!: arg_cong [where f = "take (nat (limitOf r))"] filter_cong)
  ultimately show ?thesis using l by simp
qed

theorem jobRuns_window_witness:
  "\<exists>b w. jobRuns (local_server [\<lparr>run_Result = zero_result, run_Key = ''k''\<rparr>]) ((get_request [])\<lparr>rq_id := ''-1''\<rparr>) (mem_of empty_store 0) = (Reply 200 b, w) \<and>
     b = JsonBody (JArr [run_json \<lparr>run_Result = zero_result, run_Key = ''k''\<rparr>])"
proof -
  let ?s = "local_server [\<lparr>run_Result = zero_result, run_Key = ''k''\<rparr>]" and ?r = "(get_request [])\<lparr>rq_id := ''-1''\<rparr>"
  have p: "pathID ?r = Inr (-1)" "limitOf ?r = 50"
    by (simp add: pathID_def, code_simp) (simp add: limitOf_def get_request_def)
  have "scanRuns (query_db (list_query (- 1) 50) [\<lparr>run_Result = zero_result, run_Key = ''k''\<rparr>]) [] =
      Inr (select_runs (- 1) 50 [\<lparr>run_Result = zero_result, run_Key = ''k''\<rparr>])"
    by (rule scan_list_query) (simp_all add: answers_query_db)
  with p obtain b w where b: "jobRuns ?s ?r (mem_of empty_store 0) = (Reply 200 b, w)"
    by (auto simp: jobRuns_def ListRuns_def local_server_def table_db_def writeJSON_def)
  have t: "runs_table (sv_store ?s) (\<lambda>w. [\<lparr>run_Result = zero_result, run_Key = ''k''\<rparr>])"
    by (simp add: local_server_def tdb.runs_table_axioms)
  from jobRuns_window [OF t p(1) b] b p(2) show ?thesis by (simp add: nilable_def)
qed

lemma preview_collect:
  "previewFires tz (j_Cron j) (j_Timezone j) n wm = Inr ps \<Longrightarrow> collectFires tz j now k wm acc = Inr (fires, future, frm) \<Longrightarrow>
   \<exists>due. fires = acc @ due \<and> takeWhile (\<lambda>f. f \<le> now) (take k ps) = take n due"
proof (induction n arbitrary: k wm ps acc)
  case 0
  with collectFires_chain [OF 0(2)] show ?case by auto
next
  case (Suc n)
  then obtain f ps' where f: "NextAfter tz (j_Cron j) (j_Timezone j) wm = Inr f" "previewFires tz (j_Cron j) (j_Timezone j) n f = Inr ps'"
    "ps = f # ps'" by (auto split: sum.splits)
  show ?case
  proof (cases k)
    case (Suc k')
    show ?thesis
    proof (cases "now < f")
      case False
      with Suc Suc.prems(2) f(1) have "collectFires tz j now k' f (acc @ [f]) = Inr (fires, future, frm)" by simp
      from Suc.IH [OF f(2) this] f(3) False Suc show ?thesis by auto
    qed (use Suc Suc.prems(2) f in auto)
  qed (use Suc.prems(2) in auto)
qed

lemma preview_chain: "previewFires tz (j_Cron j) (j_Timezone j) n wm = Inr fs \<Longrightarrow> length fs = n \<and> fire_chain tz j wm fs"
  by (induction n arbitrary: wm fs) (auto split: sum.splits)

lemma previewCount_bounds: "previewCount raw = Some n \<Longrightarrow> 1 \<le> n \<and> n \<le> 20"
  by (auto simp: previewCount_def split: if_splits option.splits)

text \<open>C31. The preview shows what the scheduler will do: when \<open>cronPreview\<close> is asked for the expression and the time zone of a
  job, from the job's watermark on, and answers 200, it lists between 1 and 20 fire times in ascending order; and when a pass
  of the scheduler at an instant \<open>now\<close> starts from that watermark, then those of the first eight previewed fires that are
  due at \<open>now\<close> are exactly the fires the pass collects (its limit is eight), up to the number that was
  previewed.\<close>

theorem preview_agrees_with_scheduler:
  assumes "cronPreview s r w = (Reply 200 b, w')" "TrimSpace (rq_Query r ''expr'') = j_Cron j" "TrimSpace (rq_Query r ''tz'') = j_Timezone j"
    and "TrimSpace (rq_Query r ''from'') = raw" "raw \<noteq> []" "Parse_RFC3339 raw = Some wm"
    and "collectFires (sv_tz s) j now maxCatchUpFires wm [] = Inr (fires, future, frm)"
  shows "\<exists>ps. b = JsonBody (JObj [(''expr'', JStr (j_Cron j)), (''fires'', JArr (map (\<lambda>t. JStr (Format_RFC3339 t)) ps)),
      (''tz'', JStr (j_Timezone j))]) \<and>
    1 \<le> length ps \<and> length ps \<le> 20 \<and> sorted_wrt (<) (wm # ps) \<and>
    takeWhile (\<lambda>f. f \<le> now) (take 8 ps) = take (length ps) fires"
proof -
  obtain n ps where p: "previewCount (TrimSpace (rq_Query r ''n'')) = Some n"
    "previewFires (sv_tz s) (j_Cron j) (j_Timezone j) (nat n) wm = Inr ps"
    "b = JsonBody (JObj [(''expr'', JStr (j_Cron j)), (''fires'', JArr (map (\<lambda>t. JStr (Format_RFC3339 t)) ps)), (''tz'', JStr (j_Timezone j))])"
    using assms(1-6) by (auto simp: cronPreview_def Let_def writeErr_def writeJSON_def split: if_splits option.splits sum.splits prod.splits)
  have "1 \<le> nat n" "nat n \<le> 20" using previewCount_bounds [OF p(1)] by linarith+
  moreover have "takeWhile (\<lambda>f. f \<le> now) (take 8 ps) = take (nat n) fires"
    using preview_collect [OF p(2) assms(7)] by (simp add: maxCatchUpFires_def)
  ultimately show ?thesis using p(3) preview_chain [OF p(2)] fire_chain_sorted by auto
qed

definition preview_request :: request where
  "preview_request = (get_request ''/api/cron/preview'')\<lparr>rq_Query := (\<lambda>k. if k = ''expr'' then ''0-4 0 1 1 *''
     else if k = ''n'' then ''2'' else if k = ''from'' then ''1970-01-01T00:00:00Z'' else [])\<rparr>"

theorem preview_agrees_with_scheduler_witness:
  "\<exists>b w ps. cronPreview (local_server []) preview_request (mem_of empty_store 0) = (Reply 200 b, w) \<and>
     b = JsonBody (JObj [(''expr'', JStr (j_Cron five_fires)), (''fires'', JArr (map (\<lambda>t. JStr (Format_RFC3339 t)) ps)), (''tz'', JStr (j_Timezone five_fires))]) \<and>
     takeWhile (\<lambda>f. f \<le> 2 * Minute) (take 8 ps) = take (length ps) [Minute, 2 * Minute]"
proof -
  have q: "TrimSpace (rq_Query preview_request ''expr'') = j_Cron five_fires" "TrimSpace (rq_Query preview_request ''tz'') = j_Timezone five_fires"
    "TrimSpace (rq_Query preview_request ''from'') = ''1970-01-01T00:00:00Z''" "previewCount (TrimSpace (rq_Query preview_request ''n'')) = Some 2"
    "Parse_RFC3339 ''1970-01-01T00:00:00Z'' = Some 0" "j_Cron five_fires \<noteq> []" by code_simp+
  have tz: "sv_tz (local_server []) = Map.empty" by (simp add: local_server_def)
  have c: "collectFires Map.empty five_fires (2 * Minute) maxCatchUpFires 0 [] = Inr ([Minute, 2 * Minute], 3 * Minute, 2 * Minute)"
    using five_fires_step [of 0 Map.empty] five_fires_step [of 1 Map.empty] five_fires_step [of 2 Map.empty]
    by (simp add: maxCatchUpFires_def eval_nat_numeral)
  have "previewFires Map.empty (j_Cron five_fires) (j_Timezone five_fires) 2 0 = Inr [Minute, 2 * Minute]"
    using five_fires_step [of 0 Map.empty] five_fires_step [of 1 Map.empty] by (simp add: eval_nat_numeral)
  then obtain b w where b: "cronPreview (local_server []) preview_request (mem_of empty_store 0) = (Reply 200 b, w)"
    using q tz by (cases "w_now (sv_cli (local_server [])) (mem_of empty_store 0)") (simp add: cronPreview_def writeJSON_def)
  from preview_agrees_with_scheduler [OF b q(1-3) _ q(5), of "2 * Minute" "[Minute, 2 * Minute]" "3 * Minute" "2 * Minute"] tz c b
  show ?thesis by auto
qed

lemma jobs_path:
  "tl (Split CHR ''/'' ''/api/jobs'') = [''api'', ''jobs'']"
  "tl (Split CHR ''/'' (''/api/jobs/'' @ FormatInt i)) = [''api'', ''jobs'', FormatInt i]"
proof -
  have "CHR ''/'' \<notin> set (FormatInt i)" by (rule FormatInt_no) (simp_all add: is_digit_def)
  then show "tl (Split CHR ''/'' (''/api/jobs/'' @ FormatInt i)) = [''api'', ''jobs'', FormatInt i]" by (simp add: Split_absent)
qed simp

lemma jobs_route:
  "apiRoutes [''api'', ''jobs''] = ([], [(''GET'', listJobs), (''POST'', createJob)])"
  "apiRoutes [''api'', ''jobs'', FormatInt i] = (FormatInt i, [(''GET'', getJob), (''PUT'', updateJob), (''DELETE'', deleteJob)])"
  by (simp_all add: apiRoutes_def)

lemma dispatch_job:
  assumes "rq_Path r = ''/api/jobs/'' @ FormatInt i" "is_int64 i"
  shows "rq_Method r = ''GET'' \<Longrightarrow> dispatch s r w =
      (case Get (sv_repo s) i w of (Inl err, w1) \<Rightarrow> (Reply 404 (ErrBody err), w1)
       | (Inr j, w1) \<Rightarrow> (Reply 200 (JsonBody (doc (marshal_job j))), w1))"
    and "rq_Method r = ''DELETE'' \<Longrightarrow> dispatch s r w =
      (case Delete (sv_repo s) i w of (Inl err, w1) \<Rightarrow> (Reply 404 (ErrBody err), w1) | (Inr _, w1) \<Rightarrow> (Reply 204 NoBody, w1))"
proof -
  have "tl (Split CHR ''/'' (rq_Path r)) = [''api'', ''jobs'', FormatInt i]" using assms(1) jobs_path(2) by simp
  then show "rq_Method r = ''GET'' \<Longrightarrow> dispatch s r w =
      (case Get (sv_repo s) i w of (Inl err, w1) \<Rightarrow> (Reply 404 (ErrBody err), w1)
       | (Inr j, w1) \<Rightarrow> (Reply 200 (JsonBody (doc (marshal_job j))), w1))"
    and "rq_Method r = ''DELETE'' \<Longrightarrow> dispatch s r w =
      (case Delete (sv_repo s) i w of (Inl err, w1) \<Rightarrow> (Reply 404 (ErrBody err), w1) | (Inr _, w1) \<Rightarrow> (Reply 204 NoBody, w1))"
    using assms(2)
    by (simp_all add: dispatch_def jobs_route getJob_def deleteJob_def pathID_def ParseInt_FormatInt writeErr_def writeJSON_def
        split: prod.splits sum.splits)
qed

lemma dispatch_create:
  assumes "rq_Path r = ''/api/jobs''" "rq_Method r = ''POST''" "decodeJob r = Inr j"
  shows "dispatch s r w = (case Create (sv_repo s) (sv_tz s) j w of (Inl err, w1) \<Rightarrow> (Reply 400 (ErrBody err), w1)
       | (Inr j', w1) \<Rightarrow> (Reply 201 (JsonBody (doc (marshal_job j'))), w1))"
proof -
  have "decodeJob (r\<lparr>rq_id := []\<rparr>) = Inr j" using assms(3) by (simp add: decodeJob_def)
  moreover have "tl (Split CHR ''/'' (rq_Path r)) = [''api'', ''jobs'']" using assms(1) jobs_path(1) by simp
  ultimately show ?thesis
    using assms(2) by (simp add: dispatch_def jobs_route createJob_def writeErr_def writeJSON_def split: prod.splits sum.splits)
qed

text \<open>C29. The job resource behaves like one: without interference, posting a valid job to \<open>/api/jobs\<close> answers 201 with the
  job and its new id; a \<open>GET\<close> of \<open>/api/jobs/\<close> and that id then answers 200 with the same document; a \<open>DELETE\<close>
  answers 204, and from then on the \<open>GET\<close> answers 404.\<close>

theorem api_job_lifecycle:
  assumes "sv_repo s = local_repo" "mem_script m = []" "rq_Method r = ''POST''" "rq_Path r = ''/api/jobs''"
    and "decodeJob r = Inr j" "validate (sv_tz s) j = None" "job_int64 j"
  shows "\<exists>j' m1 m2. dispatch s r m = (Reply 201 (JsonBody (doc (marshal_job j'))), m1) \<and>
    (\<forall>r'. rq_Path r' = ''/api/jobs/'' @ FormatInt (j_ID j') \<longrightarrow>
       (rq_Method r' = ''GET'' \<longrightarrow> dispatch s r' m1 = (Reply 200 (JsonBody (doc (marshal_job j'))), m1)) \<and>
       (rq_Method r' = ''DELETE'' \<longrightarrow> dispatch s r' m1 = (Reply 204 NoBody, m2)) \<and>
       (rq_Method r' = ''GET'' \<longrightarrow> (\<exists>err. dispatch s r' m2 = (Reply 404 (ErrBody err), m2))))"
proof -
  obtain j' m1 m2 where c: "Create local_repo (sv_tz s) j m = (Inr j', m1)" and i: "is_int64 (j_ID j')"
    and g: "Get local_repo (j_ID j') m1 = (Inr j', m1)" and d: "Delete local_repo (j_ID j') m1 = (Inr (), m2)"
    and n: "Get local_repo (j_ID j') m2 = (Inl (Errorf (''job '' @ FormatInt (j_ID j') @ '' not found'')), m2)"
    using Create_Get_Delete [OF assms(2,6,7)] by blast
  have "dispatch s r m = (Reply 201 (JsonBody (doc (marshal_job j'))), m1)"
    using dispatch_create [OF assms(4,3,5), of s m] assms(1) c by simp
  moreover have "dispatch s r' m1 = (Reply 200 (JsonBody (doc (marshal_job j'))), m1)"
      "\<exists>err. dispatch s r' m2 = (Reply 404 (ErrBody err), m2)"
    if "rq_Path r' = ''/api/jobs/'' @ FormatInt (j_ID j')" "rq_Method r' = ''GET''" for r'
    using dispatch_job(1) [OF that(1) i that(2), of s m1] dispatch_job(1) [OF that(1) i that(2), of s m2] assms(1) g n by simp_all
  moreover have "dispatch s r' m1 = (Reply 204 NoBody, m2)"
    if "rq_Path r' = ''/api/jobs/'' @ FormatInt (j_ID j')" "rq_Method r' = ''DELETE''" for r'
    using dispatch_job(2) [OF that(1) i that(2), of s m1] assms(1) d by simp
  ultimately show ?thesis by blast
qed

definition demo_post :: request where
  "demo_post = (get_request ''/api/jobs'')\<lparr>rq_Method := ''POST'', rq_Body := Inr (doc (marshal_job demo_job))\<rparr>"

theorem api_job_lifecycle_witness:
  "\<exists>j' m1. dispatch (local_server []) demo_post (mem_of empty_store 0) = (Reply 201 (JsonBody (doc (marshal_job j'))), m1)"
proof -
  have i: "job_int64 demo_job" by (simp add: job_int64_def demo_job_def zero_job_def int64_defs)
  then have "decodeJob demo_post = Inr demo_job"
    using unmarshal_marshal_job [OF i] by (simp add: decodeJob_def demo_post_def) (simp add: marshal_job_def)
  from api_job_lifecycle [OF _ _ _ _ this _ i, of "local_server []" "mem_of empty_store 0"] demo_job_valid show ?thesis
    by (fastforce simp: local_server_def demo_post_def get_request_def)
qed

lemma consider_id_mono: "m \<le> consider_id m x" "m \<le> m' \<Longrightarrow> consider_id m x \<le> consider_id m' x"
  by (auto simp: consider_id_def split: option.splits)

lemma foldl_consider_ge: "m \<le> foldl consider_id m ids"
  by (induction ids arbitrary: m) (auto intro: order_trans consider_id_mono)

lemma foldl_consider_max: "x \<in> set ids \<Longrightarrow> consider_id m x \<le> foldl consider_id m ids"
proof (induction ids arbitrary: m)
  case (Cons y ids)
  show ?case
  proof (cases "x = y")
    case True
    then show ?thesis using foldl_consider_ge [of "consider_id m x" ids] by simp
  next
    case False
    then have "consider_id (consider_id m y) x \<le> foldl consider_id (consider_id m y) ids" using Cons by simp
    moreover have "consider_id m x \<le> consider_id (consider_id m y) x" by (intro consider_id_mono)
    ultimately show ?thesis by simp
  qed
qed simp

lemma consider_node: "is_int64 i \<Longrightarrow> consider_id m (''node'' @ FormatInt i) = max i m"
  by (simp add: consider_id_def HasPrefix_def TrimPrefix_def ParseInt_FormatInt)

lemma node_id_fresh:
  assumes "foldl consider_id m ids < max_int64" "0 \<le> m"
  shows "''node'' @ FormatInt (wrap64 (foldl consider_id m ids + 1)) \<notin> set ids"
proof
  let ?k = "foldl consider_id m ids"
  have "m \<le> ?k" by (rule foldl_consider_ge)
  then have i: "is_int64 (?k + 1)" using assms by (simp add: int64_defs)
  assume "''node'' @ FormatInt (wrap64 (?k + 1)) \<in> set ids"
  from foldl_consider_max [OF this, of m] show False
    using i by (simp add: wrap64_id consider_node [simplified])
qed

text \<open>A generated node id is new: when the members and the containers could be read, the id that \<open>nextNodeID\<close> proposes
  is neither a member's nor a container's, provided the largest number in use is not the largest 64-bit
  integer.\<close>

theorem nextNodeID_fresh:
  assumes "nextNodeID s w = (Ok i, w')" "Available (sv_dock s)" "Members (sv_cli s) w = (Inr ms, w1)"
    and "ListNodes (sv_daemon s) (sv_dock s) w1 = (Ok cs, w2)"
    and "foldl consider_id 0 (map m_NodeID ms @ map nc_NodeID cs) < max_int64"
  shows "i \<notin> m_NodeID ` set ms \<and> i \<notin> nc_NodeID ` set cs"
proof -
  have "i = ''node'' @ FormatInt (wrap64 (foldl consider_id 0 (map m_NodeID ms @ map nc_NodeID cs) + 1))"
    using assms(1-4) by (auto simp: nextNodeID_def or_nil_def Let_def)
  then show ?thesis using node_id_fresh [OF assms(5)] by auto
qed

definition two_node_server :: "unit mem server" where
  "two_node_server = (local_server [])\<lparr>sv_daemon := two_nodes, sv_dock := \<lparr>dc_http = True, dc_selfID = ''self''\<rparr>\<rparr>"

lemma two_nodes_list:
  "fst (ListNodes two_nodes \<lparr>dc_http = True, dc_selfID = ''self''\<rparr> w) =
     Ok [\<lparr>nc_ContainerID = ''aaaaaaaaaaaa'', nc_Name = ''east-node1'', nc_NodeID = ''east-node1'', nc_State = ''running'', nc_Image = ''orbix'', nc_HostPort = []\<rparr>,
          \<lparr>nc_ContainerID = ''bbbbbbbbbbbb'', nc_Name = ''orbix-node1-1'', nc_NodeID = ''node1'', nc_State = ''running'', nc_Image = ''orbix'', nc_HostPort = []\<rparr>]"
  by code_simp

theorem nextNodeID_fresh_witness:
  "\<exists>i w. nextNodeID two_node_server (mem_of empty_store 0) = (Ok i, w) \<and> i \<noteq> ''node1''"
proof -
  have m: "Members (sv_cli two_node_server) (mem_of empty_store 0) = (Inr [], mem_of empty_store 0)"
    by (simp add: Members_def two_node_server_def local_server_def mem_get_quiet get_view_def prefix_kvs_def)
      (simp add: empty_store_def map_filter_simps)
  have a: "Available (sv_dock two_node_server)" "sv_daemon two_node_server = two_nodes"
      "sv_dock two_node_server = \<lparr>dc_http = True, dc_selfID = ''self''\<rparr>"
    by (simp_all add: two_node_server_def Available_def)
  obtain cs w2 where l: "ListNodes (sv_daemon two_node_server) (sv_dock two_node_server) (mem_of empty_store 0) = (Ok cs, w2)"
      "map nc_NodeID cs = [''east-node1'', ''node1'']"
    using two_nodes_list [of "mem_of empty_store 0"] a(2,3)
    by (cases "ListNodes two_nodes \<lparr>dc_http = True, dc_selfID = ''self''\<rparr> (mem_of empty_store 0)") auto
  obtain i w where i: "nextNodeID two_node_server (mem_of empty_store 0) = (Ok i, w)"
    using m a(1) l by (simp add: nextNodeID_def)
  have "foldl consider_id 0 [''east-node1'', ''node1''] < max_int64" by code_simp
  with nextNodeID_fresh [OF i a(1) m l(1)] l(2) have "i \<notin> nc_NodeID ` set cs" by simp
  then have "i \<notin> set [''east-node1'', ''node1'']" using l(2) by (metis set_map)
  with i show ?thesis by auto
qed

end
