(* ===== verification/Orbixd.thy ===== *)
theory Orbixd
  imports Api
begin

section \<open>The daemon: cmd/orbixd/main.go\<close>

text \<open>
  \<open>main\<close> loads the configuration, connects to etcd, opens the store, wires the components and starts
  their loops.  The start-up is modelled up to the wiring: \<open>main_start\<close> returns the error the process
  would die of, or the configuration and the node; \<open>main_wire\<close> builds the components as the code does,
  on one etcd client, with the node's methods as callbacks: the node is part of the world, since its
  goroutines change it, and \<open>node_of\<close> reads it there.  The life of the process after the start is in theory
  \<open>Fleet\<close>.  Log output is left out.
\<close>

record 'w app =
  app_repo :: "'w Repo"
  app_queue :: "'w queue"
  app_mirror :: "'w mirror"
  app_sched :: "'w scheduler"
  app_worker :: "'w worker"
  app_server :: "'w server"

definition version :: string where "version = ''0.1.0''"

definition main_start :: "host \<Rightarrow> 'w cenv \<Rightarrow> 'w sqldb \<Rightarrow> string \<Rightarrow> 'w \<Rightarrow> ((gerr + config \<times> node) \<times> 'w) option" where
  "main_start h E db path w =
     (case Load h path of
        Inl err \<Rightarrow> Some (Inl (Wrap ''config: '' err), w)
      | Inr cfg \<Rightarrow> (case Connect E cfg w of
          None \<Rightarrow> None
        | Some (Inl err, w1) \<Rightarrow> Some (Inl (Wrap ''etcd: '' err), w1)
        | Some (Inr n, w1) \<Rightarrow> (case Open db (DBPath cfg) w1 of
            (Some err, w2) \<Rightarrow> Some (Inl (Wrap ''store: '' err), w2)
          | (None, w2) \<Rightarrow> Some (Inr (cfg, n), w2))))"

definition main_wire :: "('w \<Rightarrow> node) \<Rightarrow> 'w cenv \<Rightarrow> (string \<Rightarrow> int \<Rightarrow> 'w \<Rightarrow> watch_event list \<times> 'w) \<Rightarrow> 'w sqldb \<Rightarrow> ('w \<Rightarrow> int) \<Rightarrow>
    'w daemon \<Rightarrow> dclient \<Rightarrow> ('w \<Rightarrow> 'w) \<Rightarrow> tzdb \<Rightarrow> (gerr \<Rightarrow> string) \<Rightarrow> config \<Rightarrow> node \<Rightarrow> 'w app" where
  "main_wire node_of E watch db busy D dock cancel tz errText cfg n =
     (let cli = ce_cli E;
          repo = New_repo cli;
          q = New_queue cli (n_ID n) (\<lambda>w. (ClaimLeaseID (node_of w), w));
          sched = New_scheduler repo q (\<lambda>w. (IsLeader (node_of w), w));
          wrk = New_worker q (n_ID n) (cf_MaxConcurrent cfg)
      in \<lparr>app_repo = repo, app_queue = q, app_mirror = New_mirror cli watch db, app_sched = sched, app_worker = wrk,
          app_server = New_server repo q cli node_of db busy version D dock (Some cancel) tz errText\<rparr>)"

text \<open>The shutdown after the workers have drained.\<close>

definition main_stop :: "'w cenv \<Rightarrow> 'w sqldb \<Rightarrow> node \<Rightarrow> 'w \<Rightarrow> node \<times> 'w" where
  "main_stop E db n w =
     (let (n1, w1) = Close E n w; (_, w2) = d_Close db w1; (n2, w3) = Close E n1 w2 in (n2, w3))"

subsection \<open>What a started node has\<close>

lemma ensureSession_sets:
  "ensureSession E n w = Some ((None, n'), w') \<Longrightarrow>
     n_session n' \<noteq> None \<and> n_claimSession n' = n_claimSession n \<and> n_ID n' = n_ID n \<and> n_cfg n' = n_cfg n \<and> n_isLeader n' = n_isLeader n"
  "ensureClaimSession E n w = Some ((None, n'), w') \<Longrightarrow>
     n_claimSession n' \<noteq> None \<and> n_session n' = n_session n \<and> n_ID n' = n_ID n \<and> n_cfg n' = n_cfg n \<and> n_isLeader n' = n_isLeader n"
  by (auto simp: ensureSession_def ensureClaimSession_def split: if_splits option.splits prod.splits sum.splits)

lemma Connect_node:
  "Connect E cfg w = Some (Inr n, w') \<Longrightarrow>
     n_session n \<noteq> None \<and> n_claimSession n \<noteq> None \<and> n_ID n = cf_NodeID cfg \<and> n_cfg n = cfg \<and> \<not> n_isLeader n"
  by (auto simp: Connect_def new_node_def split: prod.splits option.splits sum.splits dest!: ensureSession_sets)

lemma Close_sessions: "Close E n w = (n', w') \<Longrightarrow> n_session n' = None \<and> n_claimSession n' = None"
  by (auto simp: Close_def dropSession_def dropClaimSession_def split: prod.splits option.splits)

lemma sessionLoop_local:
  "sessionLoop (local_cenv st) ttl b m =
     Some (Inr (fresh_lease (mem_store m)), m\<lparr>mem_store := grant (fresh_lease (mem_store m)) (mem_store m)\<rparr>)"
  by (subst sessionLoop.simps) (simp add: local_cenv_def)

lemma main_start_local:
  "\<exists>n m. main_start bare_host (local_cenv Closed) (table_db []) ''orbix.yaml'' (mem_of empty_store 0) = Some (Inr (Default bare_host, n), m)"
proof -
  have d: "ce_dial (local_cenv Closed) es m = (None, m)" for es m by (simp add: local_cenv_def)
  have o: "Open (table_db []) p m = (None, m)" for p and m :: "unit mem" by (simp add: Open_def table_db_def pragmas_def)
  show ?thesis
    by (simp add: main_start_def Load_bare Connect_def d o ensureSession_def ensureClaimSession_def new_node_def sessionLoop_local)
qed

text \<open>C35. A node that starts is ready: when the start-up succeeds, the configuration it runs with is well-formed, the
  node carries the configured id, holds both its sessions and does not claim to be the leader; the
  worker it is wired with runs exactly as many commands at a time as configured, and its queue attaches
  claims to the lease of the claim session.\<close>

theorem main_start_ready:
  assumes "main_start h E db path w = Some (Inr (cfg, n), w')"
  shows "wf_config cfg \<and> n_ID n = cf_NodeID cfg \<and> n_session n \<noteq> None \<and> \<not> IsLeader n \<and>
    wk_maxConc (app_worker (main_wire (\<lambda>_. n) E watch db busy D dock cancel tz errText cfg n)) = cf_MaxConcurrent cfg \<and>
    Some (fst (q_claimLease (app_queue (main_wire (\<lambda>_. n) E watch db busy D dock cancel tz errText cfg n)) w')) = n_claimSession n"
proof -
  obtain w1 where l: "Load h path = Inr cfg" and c: "Connect E cfg w = Some (Inr n, w1)"
    using assms by (auto simp: main_start_def split: sum.splits option.splits prod.splits)
  have "wf_config cfg" using Load_Inr [OF l] wf_clampConfig by blast
  moreover from this have "1 \<le> cf_MaxConcurrent cfg" by (simp add: wf_config_def)
  ultimately show ?thesis
    using Connect_node [OF c] by (auto simp: main_wire_def New_worker_def New_queue_def IsLeader_def ClaimLeaseID_def Let_def)
qed

theorem main_start_ready_witness:
  "\<exists>n m. main_start bare_host (local_cenv Closed) (table_db []) ''orbix.yaml'' (mem_of empty_store 0) = Some (Inr (Default bare_host, n), m) \<and>
     n_session n \<noteq> None"
proof -
  obtain n m where s: "main_start bare_host (local_cenv Closed) (table_db []) ''orbix.yaml'' (mem_of empty_store 0) = Some (Inr (Default bare_host, n), m)"
    using main_start_local by blast
  from main_start_ready [OF s] s show ?thesis by blast
qed


subsection \<open>From the queue to the history\<close>

lemma row_of_decoded:
  "find (\<lambda>kv. kv_key kv = k) kvs = Some kv \<Longrightarrow> unmarshal_result (kv_value kv) = Some r \<Longrightarrow>
   row_of (decoded kvs) k = Some \<lparr>run_Result = r, run_Key = k\<rparr>"
  by (induction kvs) (auto simp: row_of_Cons split: if_splits option.splits)

lemma find_prefix_kvs: "HasPrefix k p \<Longrightarrow> find (\<lambda>kv. kv_key kv = k) (prefix_kvs st p) = kv_at st k"
proof -
  assume p: "HasPrefix k p"
  have "find (\<lambda>kv. kv_key kv = k) (filter (\<lambda>kv. HasPrefix (kv_key kv) p) kvs) = find (\<lambda>kv. kv_key kv = k) kvs" for kvs
    using p by (induction kvs) auto
  then show ?thesis by (simp add: prefix_kvs_def kv_at_def)
qed

lemma row_of_unique: "row_of rows k = Some x \<Longrightarrow> distinct (map run_Key rows) \<Longrightarrow> filter (\<lambda>y. run_Key y = k) rows = [x]"
proof (induction rows)
  case (Cons y rows)
  then show ?case by (cases "run_Key y = k") (auto simp: row_of_Cons filter_empty_conv image_iff)
qed simp

lemma ResultKey_prefix: "HasPrefix (ResultKey t) ResultsPrefix"
  by (simp add: ResultKey_def)

lemma mirror_stores:
  assumes "mem_script m = []" "val_at (mem_store m) (ResultKey t) = Some (marshal_result r)" "result_int64 r"
    and "row_of d (ResultKey t) = None"
    and "distinct (map run_Key d)"
  shows "filter (\<lambda>x. run_Key x = ResultKey t) (snd (mirror_turn (local_mirror evs reliable_db) (m, d))) =
    [\<lparr>run_Result = r, run_Key = ResultKey t\<rparr>]"
proof -
  let ?m = "local_mirror evs reliable_db"
  obtain kv where kv: "kv_at (mem_store m) (ResultKey t) = Some kv" "kv_value kv = marshal_result r"
    using assms(2) by (auto simp: val_at_def)
  have "row_of (decoded (prefix_kvs (mem_store m) ResultsPrefix)) (ResultKey t) = Some \<lparr>run_Result = r, run_Key = ResultKey t\<rparr>"
    using row_of_decoded find_prefix_kvs [OF ResultKey_prefix] kv unmarshal_marshal_result [OF assms(3)] by metis
  moreover have "row_of (((\<lambda>d. d) \<circ> snd) (mirror_turn ?m (m, d))) (ResultKey t) =
    row_of (((\<lambda>d. d) \<circ> snd) (m, d) @ decoded (gr_kvs (get_view (mem_store m) ResultsPrefix (Prefix 0))) @ decoded (puts evs)) (ResultKey t)"
    by (rule mirror_env.mirror_turn_rows [OF local_mirror_env [OF rdb.runs_table_axioms]])
      (simp_all add: mem_beside_quiet assms(1) reliable_insert)
  ultimately have "row_of (snd (mirror_turn ?m (m, d))) (ResultKey t) = Some \<lparr>run_Result = r, run_Key = ResultKey t\<rparr>"
    using assms(4) by (simp add: row_of_append get_view_def)
  moreover have "distinct (map run_Key (snd (mirror_turn ?m (m, d))))"
    using mirror_env.mirror_turn_extends [OF local_mirror_env [OF rdb.runs_table_axioms, of evs], of "(m, d)"] assms(5)
    by (simp add: extends_def)
  ultimately show ?thesis by (rule row_of_unique)
qed

text \<open>C18. A run can reach the history, as one row: take a worker that has just started, idle, on a quiet store whose queue holds a
  claimable ticket, a command that exits, a database that does not fail, and a history in which keys are
  unique and the key of this attempt has no row yet.  Then there is a run of the worker to a state with no
  goroutine left, after which one turn of the mirror leaves in the history exactly one row with the key of this attempt, and it is the
  published result: it says success when the command succeeded, that the job has failed for good when it did
  not and the attempts are used up, and otherwise how it failed.\<close>

theorem run_reaches_history:
  assumes "mem_script m = []" "queue_inv P (mem_store m)" "live_lease (mem_store m) l"
    and "find (claimable (mem_store m) (mem_clock m)) (take 64 (prefix_kvs (mem_store m) PendingPrefix)) = Some kv"
    and "unmarshal_ticket (kv_value kv) = Some t" "is_int64 (t_TimeoutSec t * Second)"
    and "p = f [''sh'', ''-c'', t_Command t] (if t_TimeoutSec t \<le> 0 then 60 * Second else t_TimeoutSec t * Second)"
    and "proc_int64 p" "distinct (map run_Key d)" "row_of d (ResultKey (bump t)) = None"
  shows "\<exists>s r. (worker_step (table_os f))\<^sup>*\<^sup>* (initial_worker (local_worker n l c) m) s \<and> ws_gos s = [] \<and>
    filter (\<lambda>x. run_Key x = ResultKey (bump t)) (snd (mirror_turn (local_mirror evs reliable_db) (ws_world s, d))) =
      [\<lparr>run_Result = r, run_Key = ResultKey (bump t)\<rparr>] \<and>
    r_Status r = (if \<not> p_deadline p \<and> p_err p = None then StatusSuccess
      else if t_Attempt (bump t) > t_MaxRetries t then StatusFailedPermanent
      else if p_deadline p then StatusTimeout else StatusFailed)"
proof -
  let ?s0 = "initial_worker (local_worker n l c) m"
  from worker_serves [where f = f and n = n and c = c, OF assms(1-7)] obtain m' outcome where
    s: "(worker_step (table_os f))\<^sup>*\<^sup>* ?s0 (?s0\<lparr>ws_world := m'\<rparr>)" "mem_script m' = []" "proc_int64 p \<longrightarrow> result_int64 outcome"
    "r_Status outcome = (if p_deadline p then StatusTimeout else if p_err p = None then StatusSuccess else StatusFailed)"
    "val_at (mem_store m') (ResultKey (bump t)) =
      Some (marshal_result (if r_Status outcome = StatusSuccess then outcome else failure_result (bump t) outcome))" by blast
  let ?r = "if r_Status outcome = StatusSuccess then outcome else failure_result (bump t) outcome"
  have "result_int64 ?r" using s(3) assms(8) failure_result_int64 by simp
  from mirror_stores [OF s(2,5) this assms(10,9), of evs]
  have "filter (\<lambda>x. run_Key x = ResultKey (bump t)) (snd (mirror_turn (local_mirror evs reliable_db) (m', d))) =
    [\<lparr>run_Result = ?r, run_Key = ResultKey (bump t)\<rparr>]" .
  moreover have "r_Status ?r = (if \<not> p_deadline p \<and> p_err p = None then StatusSuccess
      else if t_Attempt (bump t) > t_MaxRetries t then StatusFailedPermanent
      else if p_deadline p then StatusTimeout else StatusFailed)"
    using s(4) by (auto simp: failure_result_def giveUp_def Let_def)
  ultimately show ?thesis using s(1)
    by (intro exI [of _ "?s0\<lparr>ws_world := m'\<rparr>"] exI [of _ ?r]) (simp add: initial_worker_def)
qed

theorem run_reaches_history_witness:
  "\<exists>s r. (worker_step (table_os (exits None)))\<^sup>*\<^sup>* (initial_worker (local_worker ''n1'' 7 1) (mem_of pending_store 0)) s \<and>
     filter (\<lambda>x. run_Key x = ResultKey (bump demo_ticket)) (snd (mirror_turn (local_mirror [] reliable_db) (ws_world s, [old_run]))) =
       [\<lparr>run_Result = r, run_Key = ResultKey (bump demo_ticket)\<rparr>] \<and> r_Status r = StatusSuccess"
proof -
  let ?kv = "\<lparr>kv_key = PendingKey demo_ticket, kv_value = marshal_ticket demo_ticket, kv_modrev = 1, kv_version = 1, kv_lease = NoLease\<rparr>"
  let ?d = "if t_TimeoutSec demo_ticket \<le> 0 then 60 * Second else t_TimeoutSec demo_ticket * Second"
  have l: "live_lease pending_store 7" by (simp add: live_lease_def pending_store_def commit_leases) (simp add: empty_store_def)
  have t: "is_int64 (t_TimeoutSec demo_ticket * Second)" by (simp add: demo_ticket_def zero_ticket_def int64_defs)
  have p: "proc_int64 (exits None [''sh'', ''-c'', t_Command demo_ticket] ?d)" by (simp add: exits_def proc_int64_def int64_defs)
  have u: "unmarshal_ticket (kv_value ?kv) = Some demo_ticket" using unmarshal_marshal_ticket [OF demo_int64(1)] by simp
  have q: "mem_script (mem_of pending_store 0) = []" "queue_inv (\<lambda>i. i = 3) (mem_store (mem_of pending_store 0))"
      "live_lease (mem_store (mem_of pending_store 0)) 7"
      "find (claimable (mem_store (mem_of pending_store 0)) (mem_clock (mem_of pending_store 0)))
         (take 64 (prefix_kvs (mem_store (mem_of pending_store 0)) PendingPrefix)) = Some ?kv"
    using pending_store_inv l find_demo by simp_all
  have o: "distinct (map run_Key [old_run])" "row_of [old_run] (ResultKey (bump demo_ticket)) = None"
    by (simp_all add: old_run_def row_of_Cons ResultKey_def ResultsPrefix_def)
  have "p_err (exits None argv d) = None \<and> \<not> p_deadline (exits None argv d)" for argv d by (simp add: exits_def)
  then show ?thesis
    using run_reaches_history [where f = "exits None" and n = "''n1''" and c = 1 and evs = "[]" and d = "[old_run]", OF q u t refl p o] by auto
qed

end
