(* ===== verification/System.thy ===== *)
theory System
  imports Orbixd
begin

section \<open>The cluster's store\<close>

text \<open>
  All nodes work on one etcd.  This theory puts the step relations of the components together:
  \<open>sys_step\<close> is one atomic change that some node of a cluster, or etcd itself, makes to the store: a step
  of the queue on the queue's keys, of the repository on the jobs' keys, of the election on the leader's
  and the members' keys, the loss of a lease, or the grant of a new one.  Because the key spaces are
  apart, such a step is at the same time a step of each component's own relation, so each invariant
  holds for the whole.
\<close>

inductive sys_step :: "(int \<Rightarrow> bool) \<Rightarrow> est \<Rightarrow> est \<Rightarrow> bool" for P where
  queue: "queue_own P v v' \<Longrightarrow> sys_step P v v'"
| jobs: "jobs_own P v v' \<Longrightarrow> sys_step P v v'"
| election: "leader_own v v' \<Longrightarrow> sys_step P v v'"
| lapse: "l \<noteq> NoLease \<Longrightarrow> sys_step P v (expire l v)"
| granted: "l \<notin> set (es_used v) \<Longrightarrow> sys_step P v (grant l v)"

inductive_cases sys_stepE: "sys_step P v v'"

subsection \<open>The key spaces are apart\<close>

lemma prefix_apart_jobs:
  "HasPrefix k JobsPrefix \<Longrightarrow> foreign k \<and> k \<noteq> leaderKey" "HasPrefix k WatermarkPrefix \<Longrightarrow> foreign k \<and> k \<noteq> leaderKey"
  by (auto simp: foreign_def HasPrefix_iff prefix_def JobsPrefix_def leaderKey_def prefix_defs)

lemma queue_key_apart: "queue_key k \<Longrightarrow> \<not> HasPrefix k JobsPrefix \<and> k \<noteq> leaderKey"
  by (auto simp: queue_key_def HasPrefix_iff prefix_def JobsPrefix_def leaderKey_def prefix_defs)

lemma election_apart:
  "foreign leaderKey" "\<not> HasPrefix leaderKey JobsPrefix" "foreign (membersPrefix @ x)" "\<not> HasPrefix (membersPrefix @ x) JobsPrefix"
  by (auto simp: foreign_def HasPrefix_iff prefix_def JobsPrefix_def leaderKey_def membersPrefix_def prefix_defs)

lemma sys_step_queue: "sys_step P v v' \<Longrightarrow> queue_step P v v'"
proof (induction rule: sys_step.induct)
  case (jobs v v')
  then show ?case
    using prefix_apart_jobs by (fastforce simp: jobs_own_def list_all_iff intro!: queue_step.elsewhere)
qed (auto simp: queue_own_def leader_own_def election_apart intro: queue_step.intros)

lemma sys_step_jobs: "sys_step P v v' \<Longrightarrow> jobs_step P v v'"
proof (induction rule: sys_step.induct)
  case (queue v v')
  then show ?case by (auto simp: queue_own_def list_all_iff queue_key_apart intro!: jobs_step.elsewhere)
qed (auto simp: jobs_own_def leader_own_def election_apart intro: jobs_step.intros)

lemma sys_step_leader: "sys_step P v v' \<Longrightarrow> leader_step v v'"
proof (induction rule: sys_step.induct)
  case (queue v v')
  then show ?case using queue_key_apart by (fastforce simp: queue_own_def list_all_iff intro!: leader_step.other)
next
  case (jobs v v')
  then show ?case using prefix_apart_jobs by (fastforce simp: jobs_own_def list_all_iff intro!: leader_step.other)
qed (auto simp: leader_own_step intro: leader_step.intros)

text \<open>So what the components promise of sequences of steps holds of the cluster's.\<close>

lemma sys_steps:
  assumes "(sys_step P)\<^sup>*\<^sup>* v v'"
  shows "(queue_step P)\<^sup>*\<^sup>* v v'" "(jobs_step P)\<^sup>*\<^sup>* v v'" "leader_step\<^sup>*\<^sup>* v v'"
  using assms mono_rtranclp [of "sys_step P" "queue_step P"] mono_rtranclp [of "sys_step P" "jobs_step P"]
    mono_rtranclp [of "sys_step P" leader_step] sys_step_queue sys_step_jobs sys_step_leader by blast+

lemma env_ok_sys: "env_ok (sys_step P)\<^sup>*\<^sup>*"
  by (rule env_ok_steps) (rule queue_step_later [OF sys_step_queue])

subsection \<open>The invariant of the store\<close>

text \<open>The queue and the repository are as their components promise, and a key never outlives the lease it is
  attached to.\<close>

definition sys_inv :: "(int \<Rightarrow> bool) \<Rightarrow> est \<Rightarrow> bool" where
  "sys_inv P v \<longleftrightarrow> queue_inv P v \<and> jobs_inv P v \<and> attached v"

lemma sys_inv_wf: "sys_inv P v \<Longrightarrow> wf_est v"
  by (simp add: sys_inv_def queue_inv_def)

lemma attached_step: "sys_step P v v' \<Longrightarrow> wf_est v \<Longrightarrow> attached v \<Longrightarrow> attached v'"
  by (erule sys_stepE)
    (auto simp: queue_own_def jobs_own_def leader_own_def attached_expire attached_grant intro: attached_commit)

lemma sys_inv_step: "sys_step P v v' \<Longrightarrow> sys_inv P v \<Longrightarrow> sys_inv P v'"
  unfolding sys_inv_def
  using queue_inv_step [OF sys_step_queue] jobs_inv_step [OF sys_step_jobs] attached_step by (auto simp: queue_inv_def)

lemma sys_inv_steps: "(sys_step P)\<^sup>*\<^sup>* v v' \<Longrightarrow> sys_inv P v \<Longrightarrow> sys_inv P v'"
  by (induction rule: rtranclp_induct) (auto intro: sys_inv_step)

lemma sys_inv_init: "wf_est v \<Longrightarrow> es_kvs v = [] \<Longrightarrow> sys_inv P v"
  by (auto simp: sys_inv_def queue_inv_init kv_at_def wf_est_def jobs_inv_def counter_def val_at_def attached_def)

end
