(* ===== verification/Fleet.thy ===== *)
theory Fleet
  imports System
begin

section \<open>Processes and the cluster they form\<close>

text \<open>
  A running \<open>orbixd\<close> is the state its goroutines share: the node, the position of each loop that \<open>main\<close>
  starts, the scheduler, the worker with its goroutines, the request counters, and how far the shutdown
  has come.  \<open>daemon_step\<close> lets one of the goroutines make a turn, or an HTTP request be served, in any
  order.  The callbacks through which the components read the node (\<open>IsLeader\<close>, \<open>ClaimLeaseID\<close>, the
  server's view) read it from the world, and nothing is assumed of what they read, so a turn is covered
  whatever the other goroutines do to the node meanwhile; what happens to the store between two calls
  of a turn is any sequence of steps of the cluster.  \<open>fleet_step\<close> puts any number of such processes on
  one etcd, where they start, run, stop, crash and start again.
\<close>

subsection \<open>The process: cmd/orbixd/main.go\<close>

text \<open>What a process finds where it runs: the host and the command line, etcd and the session package, the
  database driver, the watch, the container daemon, the operating system, the time zones, the texts of
  errors, the embedded files, and the memory its callbacks read.\<close>

record 'w site =
  si_host :: host
  si_path :: string
  si_env :: "'w cenv"
  si_db :: "'w sqldb"
  si_watch :: "string \<Rightarrow> int \<Rightarrow> 'w \<Rightarrow> watch_event list \<times> 'w"
  si_docker :: "'w daemon"
  si_os :: "'w os"
  si_tz :: tzdb
  si_Error :: "gerr \<Rightarrow> string"
  si_files :: "request \<Rightarrow> reply"
  si_node :: "'w \<Rightarrow> node"
  si_busy :: "'w \<Rightarrow> int"
  si_cancel :: "'w \<Rightarrow> 'w"

datatype mode = Serving | Draining | Exited

record 'w orbixd =
  od_cfg :: config
  od_app :: "'w app"
  od_node :: node
  od_turn :: turn
  od_claims :: turn
  od_history :: turn
  od_ticks :: turn
  od_sched :: "'w scheduler"
  od_work :: "'w wstate"
  od_metrics :: metrics
  od_mode :: mode

definition wire :: "'w site \<Rightarrow> dclient \<Rightarrow> config \<Rightarrow> node \<Rightarrow> 'w app" where
  "wire S dock cfg n = main_wire (si_node S) (si_env S) (si_watch S) (si_db S) (si_busy S) (si_docker S) dock (si_cancel S)
     (si_tz S) (si_Error S) cfg n"

definition launch :: "'w app \<Rightarrow> config \<Rightarrow> node \<Rightarrow> 'w \<Rightarrow> 'w orbixd" where
  "launch A cfg n w = \<lparr>od_cfg = cfg, od_app = A, od_node = n, od_turn = Continue, od_claims = Continue, od_history = Continue,
     od_ticks = Continue, od_sched = app_sched A, od_work = initial_worker (app_worker A) w,
     od_metrics = \<lparr>mt_reqTotal = 0, mt_reqFail = 0\<rparr>, od_mode = Serving\<rparr>"

text \<open>\<open>main\<close> up to the point where it waits for the end of its context.\<close>

definition main_boot :: "'w site \<Rightarrow> 'w \<Rightarrow> ((gerr + 'w orbixd) \<times> 'w) option" where
  "main_boot S w =
     (case main_start (si_host S) (si_env S) (si_db S) (si_path S) w of
        None \<Rightarrow> None
      | Some (Inl err, w1) \<Rightarrow> Some (Inl err, w1)
      | Some (Inr (cfg, n), w1) \<Rightarrow>
          let (dock, w2) = New_docker (si_docker S) w1
          in Some (Inr (launch (wire S dock cfg n) cfg n w2), w2))"

text \<open>A turn of the mirror's and of the scheduler's loop, with the pause before the next.  A pause ends
  when the context is done.  The mirror's check of the context before the pause is the one its next turn
  begins with.\<close>

definition retry :: "'w cenv \<Rightarrow> 'w \<Rightarrow> 'w" where
  "retry E w = snd (ce_After E (2 * Second) w)"

definition mirrorTurn :: "'w cenv \<Rightarrow> 'w mirror \<Rightarrow> 'w \<Rightarrow> turn \<times> 'w" where
  "mirrorTurn E m w = (case ce_Err E w of
     (Some _, w1) \<Rightarrow> (Return, w1)
   | (None, w1) \<Rightarrow> (Continue, retry E (mirror_turn m w1)))"

definition schedTurn :: "'w cenv \<Rightarrow> config \<Rightarrow> tzdb \<Rightarrow> 'w scheduler \<Rightarrow> 'w \<Rightarrow> (turn \<times> 'w scheduler) \<times> 'w" where
  "schedTurn E cfg tz s w = (case ce_Err E w of
     (Some _, w1) \<Rightarrow> ((Return, s), w1)
   | (None, w1) \<Rightarrow>
       let (s', w2) = runOnce s tz w1; (err, w3) = ce_After E (TickInterval cfg) w2
       in ((if err = None then Continue else Return, s'), w3))"

text \<open>The steps of a process.  The parameter \<open>ok\<close> limits the requests that reach it, by what they ask and
  by the world they leave.  The context is done when a signal arrives or \<open>cancel\<close> is called; the server
  then takes no more requests, the workers get their time to drain, and the process closes its sessions
  and its store.  A panic of the claim loop, a failure of the listener and a kill end it at once.\<close>

inductive daemon_step :: "'w site \<Rightarrow> (request \<Rightarrow> 'w \<Rightarrow> bool) \<Rightarrow> 'w orbixd \<times> 'w \<Rightarrow> 'w orbixd \<times> 'w \<Rightarrow> bool" for S ok where
  elect: "od_mode d \<noteq> Exited \<Longrightarrow> run_step (si_env S) (od_turn d, od_node d, w) (t, n, w') \<Longrightarrow>
    daemon_step S ok (d, w) (d\<lparr>od_turn := t, od_node := n\<rparr>, w')"
| claims: "od_mode d \<noteq> Exited \<Longrightarrow> od_claims d = Continue \<Longrightarrow> claimTurn (si_env S) (od_node d) w = Some ((t, n), w') \<Longrightarrow>
    daemon_step S ok (d, w) (d\<lparr>od_claims := t, od_node := n\<rparr>, w')"
| mirror: "od_mode d \<noteq> Exited \<Longrightarrow> od_history d = Continue \<Longrightarrow> mirrorTurn (si_env S) (app_mirror (od_app d)) w = (t, w') \<Longrightarrow>
    daemon_step S ok (d, w) (d\<lparr>od_history := t\<rparr>, w')"
| schedule: "od_mode d \<noteq> Exited \<Longrightarrow> od_ticks d = Continue \<Longrightarrow>
    schedTurn (si_env S) (od_cfg d) (si_tz S) (od_sched d) w = ((t, s), w') \<Longrightarrow>
    daemon_step S ok (d, w) (d\<lparr>od_ticks := t, od_sched := s\<rparr>, w')"
| work: "od_mode d \<noteq> Exited \<Longrightarrow> worker_step (si_os S) ((od_work d)\<lparr>ws_world := w\<rparr>) ws \<Longrightarrow>
    daemon_step S ok (d, w)
      (d\<lparr>od_work := ws, od_mode := if ws_phase ws = Crashed then Exited else od_mode d\<rparr>, ws_world ws)"
| request: "od_mode d = Serving \<Longrightarrow> main_routes (si_files S) (app_server (od_app d)) r (od_metrics d, w) = (rep, mt, w') \<Longrightarrow>
    ok r w' \<Longrightarrow> daemon_step S ok (d, w) (d\<lparr>od_metrics := mt\<rparr>, w')"
| signal: "od_mode d = Serving \<Longrightarrow> ce_Err (si_env S) w = (Some err, w') \<Longrightarrow>
    daemon_step S ok (d, w) (d\<lparr>od_mode := Draining\<rparr>, w')"
| stop: "od_mode d = Draining \<Longrightarrow> main_stop (si_env S) (si_db S) (od_node d) w = (n, w') \<Longrightarrow>
    daemon_step S ok (d, w) (d\<lparr>od_node := n, od_mode := Exited\<rparr>, w')"
| kill: "daemon_step S ok (d, w) (d\<lparr>od_mode := Exited\<rparr>, w)"

inductive_cases daemon_stepE: "daemon_step S ok (d, w) (d', w')"

subsection \<open>The cluster\<close>

text \<open>The processes by host, on one world.  A host without a running process can start one, which may fail
  during the start; and the store moves by itself when leases run out, or by nodes that are not
  followed here.\<close>

definition stopped :: "'w orbixd option \<Rightarrow> bool" where
  "stopped p \<longleftrightarrow> (case p of None \<Rightarrow> True | Some d \<Rightarrow> od_mode d = Exited)"

inductive fleet_step :: "(nat \<Rightarrow> 'w site) \<Rightarrow> (request \<Rightarrow> 'w \<Rightarrow> bool) \<Rightarrow> ('w \<Rightarrow> 'w \<Rightarrow> bool) \<Rightarrow>
    (nat \<rightharpoonup> 'w orbixd) \<times> 'w \<Rightarrow> (nat \<rightharpoonup> 'w orbixd) \<times> 'w \<Rightarrow> bool" for S ok env where
  start: "stopped (F i) \<Longrightarrow> main_boot (S i) w = Some (Inr d, w') \<Longrightarrow> fleet_step S ok env (F, w) (F(i \<mapsto> d), w')"
| fatal: "stopped (F i) \<Longrightarrow> main_boot (S i) w = Some (Inl err, w') \<Longrightarrow> fleet_step S ok env (F, w) (F, w')"
| move: "F i = Some d \<Longrightarrow> daemon_step (S i) ok (d, w) (d', w') \<Longrightarrow> fleet_step S ok env (F, w) (F(i \<mapsto> d'), w')"
| others: "env w w' \<Longrightarrow> fleet_step S ok env (F, w) (F, w')"

subsection \<open>A process on its site\<close>

text \<open>A process whose components are the ones \<open>main\<close> wired: ticks change nothing of the scheduler but the time
  of the last collection, and the worker keeps its queue.\<close>

definition wired :: "'w site \<Rightarrow> 'w orbixd \<Rightarrow> bool" where
  "wired S d \<longleftrightarrow> (\<exists>dock n. od_app d = wire S dock (od_cfg d) n) \<and>
     s_repo (od_sched d) = app_repo (od_app d) \<and> s_q (od_sched d) = app_queue (od_app d) \<and>
     s_leader (od_sched d) = (\<lambda>w. (IsLeader (si_node S w), w)) \<and> wk_queue (ws_worker (od_work d)) = app_queue (od_app d)"

text \<open>The node of a process: the flag and the position of the election agree, its leases are real and were
  granted, and the leader key is the node's while it leads and its lease lives.\<close>

definition node_ok :: "turn \<Rightarrow> node \<Rightarrow> est \<Rightarrow> bool" where
  "node_ok t n v \<longleftrightarrow> node_inv t n \<and> NoLease \<notin> held n \<and> held n \<subseteq> set (es_used v) \<and>
     (t = Lead \<longrightarrow> holds (LeaseID n) v)"

definition daemon_inv :: "'w site \<Rightarrow> (int \<Rightarrow> bool) \<Rightarrow> est \<Rightarrow> 'w orbixd \<Rightarrow> bool" where
  "daemon_inv S P v d \<longleftrightarrow> wired S d \<and> node_ok (od_turn d) (od_node d) v \<and> worker_inv (od_work d) \<and>
     wk_maxConc (ws_worker (od_work d)) = cf_MaxConcurrent (od_cfg d) \<and> 1 \<le> cf_MaxConcurrent (od_cfg d) \<and>
     holds_allowed P (od_work d)"

context cluster_env
begin

lemma node_ok_later: "node_ok t n v \<Longrightarrow> rely v v' \<Longrightarrow> wf_est v \<Longrightarrow> node_ok t n v'"
  using holds_later used_later unfolding node_ok_def by blast

lemma held_used:
  "gains v n v' n' \<Longrightarrow> rely v v' \<Longrightarrow> node_ok t n v \<Longrightarrow> NoLease \<notin> held n' \<and> held n' \<subseteq> set (es_used v')"
  using used_later unfolding gains_def node_ok_def by blast

lemma held_lease: "n_session n \<noteq> None \<Longrightarrow> NoLease \<notin> held n \<Longrightarrow> LeaseID n \<noteq> NoLease"
  by (auto simp: held_def LeaseID_def)

lemma node_ok_run:
  assumes "run_step E (t, n, w) (t', n', w')" "node_ok t n (view w)" "wf_est (view w)"
  shows "node_ok t' n' (view w')"
proof -
  have i: "node_inv t' n'" using run_step_inv [OF assms(1)] assms(2) by (simp add: node_ok_def)
  have g: "NoLease \<notin> held n'" "held n' \<subseteq> set (es_used (view w'))"
    using held_used [OF run_step_gains [OF assms(1)] run_step_rely [OF assms(1)] assms(2)] by auto
  have "holds (LeaseID n') (view w')" if "t' = Lead"
  proof -
    have "electTurn E n w = Some ((Lead, n'), w')" using assms(1) that by (auto elim: run_step.cases)
    moreover have "LeaseID n' \<noteq> NoLease" using i that g(1) held_lease by (simp add: node_inv_def)
    ultimately show ?thesis using electTurn_wins assms(3) by blast
  qed
  with i g show ?thesis by (simp add: node_ok_def)
qed

lemma node_ok_claims:
  assumes "claimTurn E n w = Some ((t', n'), w')" "node_ok t n (view w)" "wf_est (view w)"
  shows "node_ok t n' (view w')"
proof -
  have n: "n_isLeader n' = n_isLeader n" "n_session n' = n_session n" "n_events n' = n_events n" using claimTurn_node [OF assms(1)] by auto
  note r = claimTurn_rely [OF assms(1)] and g = claimTurn_gains [OF assms(1)]
  have "NoLease \<notin> held n'" "held n' \<subseteq> set (es_used (view w'))" using held_used [OF g r assms(2)] by auto
  then show ?thesis using node_ok_later [OF assms(2) r assms(3)] n by (simp add: node_ok_def node_inv_def LeaseID_def)
qed

lemma node_ok_Connect:
  assumes "Connect E cfg w = Some (Inr n, w')"
  shows "node_ok Continue n (view w')"
proof -
  have "n_events n = []" using assms
    by (auto simp: Connect_def ensureSession_def ensureClaimSession_def new_node_def split: prod.splits option.splits sum.splits if_splits)
  moreover have "held n \<subseteq> set (es_used (view w'))" "NoLease \<notin> held n"
    using Connect_gains [OF assms] by (auto simp: gains_def held_def new_node_def)
  ultimately show ?thesis using Connect_node [OF assms] by (simp add: node_ok_def node_inv_def)
qed

end

lemma wired_launch: "wired S (launch (wire S dock cfg n) cfg n w)"
  by (auto simp: wired_def launch_def initial_worker_def wire_def main_wire_def New_scheduler_def New_worker_def Let_def)

lemma runOnce_wiring:
  "runOnce s tz w = (s', w') \<Longrightarrow> s_repo s' = s_repo s \<and> s_q s' = s_q s \<and> s_leader s' = s_leader s"
  by (auto simp: runOnce_def gcOnce_def Let_def split: prod.splits if_splits)

text \<open>What is relied on at a site: the session package and etcd as in \<open>cluster_env\<close>, with the steps of the
  whole cluster as the environment, and that the database, the watch, the container daemon, the commands
  that are run and \<open>cancel\<close> do not write to the store themselves.\<close>

locale site_env = cluster_env "si_env S" view "(sys_step P)\<^sup>*\<^sup>*"
  for S :: "'w site" and view :: "'w \<Rightarrow> est" and P :: "int \<Rightarrow> bool" +
  assumes si_watch_rely: "(sys_step P)\<^sup>*\<^sup>* (view w) (view (snd (si_watch S p r w)))"
    and mkdir_rely: "(sys_step P)\<^sup>*\<^sup>* (view w) (view (snd (d_MkdirAll (si_db S) p w)))"
    and open_rely: "(sys_step P)\<^sup>*\<^sup>* (view w) (view (snd (d_Open (si_db S) p w)))"
    and exec_rely: "(sys_step P)\<^sup>*\<^sup>* (view w) (view (snd (d_Exec (si_db S) stm w)))"
    and query_rely: "(sys_step P)\<^sup>*\<^sup>* (view w) (view (snd (d_Query (si_db S) qry w)))"
    and dbclose_rely: "(sys_step P)\<^sup>*\<^sup>* (view w) (view (snd (d_Close (si_db S) w)))"
    and stat_rely: "(sys_step P)\<^sup>*\<^sup>* (view w) (view (snd (dk_Stat (si_docker S) w)))"
    and docker_rely: "(sys_step P)\<^sup>*\<^sup>* (view w) (view (snd (dk_Do (si_docker S) meth p b w)))"
    and os_rely: "(sys_step P)\<^sup>*\<^sup>* (view w) (view (snd (o_run (si_os S) argv t w)))"
    and cancel_rely: "(sys_step P)\<^sup>*\<^sup>* (view w) (view (si_cancel S w))"
    and yaml_int64: "h_Unmarshal (si_host S) txt c = Inr c' \<Longrightarrow> is_int64 (cf_MaxConcurrent c) \<Longrightarrow> is_int64 (cf_MaxConcurrent c')"
begin

text \<open>The wiring of \<open>main\<close> gives every component the surroundings it relies on.\<close>

lemma wired_queue: "wired S d \<Longrightarrow> queue_protocol (app_queue (od_app d)) view (sys_step P)\<^sup>*\<^sup>* P"
  using etcd_axioms
  by (auto simp: wired_def wire_def main_wire_def New_queue_def Let_def queue_protocol_def queue_protocol_axioms_def
      queue_env_def queue_env_axioms_def intro: sys_step.queue dest: sys_steps)

lemma wired_repo: "wired S d \<Longrightarrow> jobs_env (app_repo (od_app d)) view (sys_step P)\<^sup>*\<^sup>* P"
  using etcd_axioms
  by (auto simp: wired_def wire_def main_wire_def New_repo_def Let_def jobs_env_def jobs_env_axioms_def
      intro: sys_step.jobs dest: sys_steps)

lemma wired_sched: "wired S d \<Longrightarrow> scheduler_env (od_sched d) view (sys_step P)\<^sup>*\<^sup>* P"
  using wired_queue wired_repo
  by (auto simp: scheduler_env_def scheduler_env_axioms_def wired_def)

lemma wired_worker: "wired S d \<Longrightarrow> worker_protocol (app_queue (od_app d)) view (sys_step P)\<^sup>*\<^sup>* P (si_os S)"
  using wired_queue os_rely by (simp add: worker_protocol_def worker_protocol_axioms_def)

lemma wired_server: "wired S d \<Longrightarrow> api_protocol (app_server (od_app d)) view (sys_step P)\<^sup>*\<^sup>* P"
proof -
  assume w: "wired S d"
  then obtain dock n where a: "od_app d = wire S dock (od_cfg d) n" by (auto simp: wired_def)
  have s: "sv_queue (app_server (od_app d)) = app_queue (od_app d)" "sv_repo (app_server (od_app d)) = app_repo (od_app d)"
    "sv_cli (app_server (od_app d)) = ce_cli (si_env S)" "q_cli (app_queue (od_app d)) = ce_cli (si_env S)"
    "rp_cli (app_repo (od_app d)) = ce_cli (si_env S)" "sv_store (app_server (od_app d)) = si_db S"
    "sv_daemon (app_server (od_app d)) = si_docker S" "sv_onLeave (app_server (od_app d)) = Some (si_cancel S)"
    by (simp_all add: a wire_def main_wire_def New_server_def New_queue_def New_repo_def Let_def)
  have "api_env (app_server (od_app d)) view (sys_step P)\<^sup>*\<^sup>*"
    using queue_protocol.axioms(1) [OF wired_queue [OF w]] query_rely docker_rely
    by (simp add: api_env_def api_env_axioms_def s)
  then show ?thesis
    using wired_queue [OF w] wired_repo [OF w] docker_rely cancel_rely
    by (simp add: api_protocol_def api_protocol_axioms_def s)
qed

text \<open>Turns of the loops that are not a component's own.\<close>

lemma put_run_rely: "(sys_step P)\<^sup>*\<^sup>* (view w) (view (put_run (si_db S) kv w))"
  using exec_rely [of w]
  by (fastforce simp: put_run_def InsertRun_def split: option.splits prod.splits dest: arg_cong [of _ _ snd])

lemma put_event_rely: "(sys_step P)\<^sup>*\<^sup>* (view w) (view (put_event (si_db S) e w))"
  by (cases e) (simp_all add: put_run_rely)

lemma fold_rely:
  "(\<And>x w. (sys_step P)\<^sup>*\<^sup>* (view w) (view (f x w))) \<Longrightarrow> (sys_step P)\<^sup>*\<^sup>* (view w) (view (fold f xs w))"
  by (induction xs arbitrary: w) (auto intro: rely_trans)

lemma mirror_rely:
  assumes "mi_cli m = ce_cli (si_env S)" "mi_watch m = si_watch S" "mi_store m = si_db S"
  shows "(sys_step P)\<^sup>*\<^sup>* (view w) (view (mirror_turn m w))"
proof -
  obtain y w1 where g: "w_get (ce_cli (si_env S)) ResultsPrefix (Prefix 0) w = (y, w1)" by fastforce
  note w1 = call_rely(8) [OF g]
  show ?thesis
  proof (cases y)
    case (Inr resp)
    let ?w2 = "fold (put_run (si_db S)) (gr_kvs resp) w1"
    obtain evs w3 where e: "si_watch S ResultsPrefix (gr_rev resp + 1) ?w2 = (evs, w3)" by fastforce
    have "(sys_step P)\<^sup>*\<^sup>* (view w1) (view ?w2)" by (rule fold_rely) (rule put_run_rely)
    moreover have "(sys_step P)\<^sup>*\<^sup>* (view ?w2) (view w3)" using si_watch_rely [of ?w2] e by (metis snd_conv)
    moreover have "(sys_step P)\<^sup>*\<^sup>* (view w3) (view (fold (put_event (si_db S)) evs w3))" by (rule fold_rely) (rule put_event_rely)
    ultimately show ?thesis using g Inr e w1 assms by (simp add: mirror_turn_def)
  qed (use g w1 assms in \<open>simp add: mirror_turn_def\<close>)
qed

lemma mirrorTurn_rely:
  assumes "wired S d" "mirrorTurn (si_env S) (app_mirror (od_app d)) w = (t, w')"
  shows "(sys_step P)\<^sup>*\<^sup>* (view w) (view w')"
proof -
  obtain e w1 where e: "ce_Err (si_env S) w = (e, w1)" by fastforce
  have m: "(sys_step P)\<^sup>*\<^sup>* (view w1) (view (mirror_turn (app_mirror (od_app d)) w1))"
    using assms(1) by (intro mirror_rely) (auto simp: wired_def wire_def main_wire_def New_mirror_def Let_def)
  show ?thesis
    using assms(2) e call_rely(2) [OF e] rely_trans [OF m after_rely]
    by (auto simp: mirrorTurn_def retry_def split: option.splits intro: rely_trans)
qed

lemma schedTurn_rely:
  assumes "wired S d" "jobs_inv P (view w)" "schedTurn (si_env S) cfg tz (od_sched d) w = ((t, s'), w')"
  shows "(sys_step P)\<^sup>*\<^sup>* (view w) (view w')"
proof -
  obtain e w1 where e: "ce_Err (si_env S) w = (e, w1)" by fastforce
  obtain s2 w2 where r: "runOnce (od_sched d) tz w1 = (s2, w2)" by fastforce
  obtain a w3 where a: "ce_After (si_env S) (TickInterval cfg) w2 = (a, w3)" by fastforce
  have "jobs_inv P (view w1)" using jobs_inv_steps [OF sys_steps(2) [OF call_rely(2) [OF e]] assms(2)] by simp
  then have "(sys_step P)\<^sup>*\<^sup>* (view w1) (view w2)" using scheduler_env.runOnce_steps [OF wired_sched [OF assms(1)]] r by (metis snd_conv)
  then show ?thesis
    using assms(3) e r a call_rely(2) [OF e] call_rely(4) [OF a] by (auto simp: schedTurn_def split: option.splits intro: rely_trans)
qed

text \<open>Starting and stopping.\<close>

lemma execAll_rely: "(sys_step P)\<^sup>*\<^sup>* (view w) (view (snd (execAll (si_db S) ctx qs w)))"
proof (induction qs arbitrary: w)
  case (Cons q qs)
  obtain e w1 where e: "d_Exec (si_db S) (Ddl q) w = (e, w1)" by fastforce
  have "(sys_step P)\<^sup>*\<^sup>* (view w) (view w1)" using exec_rely [of w "Ddl q"] e by simp
  then show ?case using e Cons.IH [of w1] dbclose_rely [of w1] by (auto split: option.splits intro: rely_trans)
qed simp

lemma Open_rely: "(sys_step P)\<^sup>*\<^sup>* (view w) (view (snd (Open (si_db S) path w)))"
proof -
  obtain e1 w1 where 1: "d_MkdirAll (si_db S) (Dir path) w = (e1, w1)" by fastforce
  obtain e2 w2 where 2: "d_Open (si_db S) path w1 = (e2, w2)" by fastforce
  obtain e3 w3 where 3: "execAll (si_db S) (\<lambda>q. ''store: '' @ q @ '': '') pragmas w2 = (e3, w3)" by fastforce
  have "(sys_step P)\<^sup>*\<^sup>* (view w) (view w1)" "(sys_step P)\<^sup>*\<^sup>* (view w1) (view w2)" "(sys_step P)\<^sup>*\<^sup>* (view w2) (view w3)"
    using mkdir_rely [of w "Dir path"] 1 open_rely [of w1 path] 2 execAll_rely [of w2 "\<lambda>q. ''store: '' @ q @ '': ''" pragmas] 3 by simp_all
  then show ?thesis
    using 1 2 3 execAll_rely [of w3 "\<lambda>_. ''store: migrate: ''" "[schema]"]
    by (auto simp: Open_def split: option.splits intro: rely_trans simp del: execAll.simps)
qed

lemma main_start_rely:
  assumes "main_start (si_host S) (si_env S) (si_db S) (si_path S) w = Some (r, w')"
  shows "(sys_step P)\<^sup>*\<^sup>* (view w) (view w')"
  using assms Open_rely
  by (auto simp: main_start_def split: sum.splits option.splits prod.splits dest!: Connect_rely)
    (metis rely_trans snd_conv)+

lemma New_docker_rely: "New_docker (si_docker S) w = (c, w') \<Longrightarrow> (sys_step P)\<^sup>*\<^sup>* (view w) (view w')"
proof -
  assume d: "New_docker (si_docker S) w = (c, w')"
  obtain b w1 where b: "dk_Stat (si_docker S) w = (b, w1)" by fastforce
  have w1: "(sys_step P)\<^sup>*\<^sup>* (view w) (view w1)" using stat_rely [of w] b by simp
  have p: "(sys_step P)\<^sup>*\<^sup>* (view w1) (view w2)" if "ping (si_docker S) c w1 = (x, w2)" for c x w2
    using that docker_rely [of w1] by (fastforce simp: ping_def do_request_def split: if_splits prod.splits sum.splits dest: arg_cong [of _ _ snd])
  show ?thesis using d b w1 by (auto simp: New_docker_def Let_def split: bool.splits prod.splits sum.splits dest!: p intro: rely_trans)
qed

lemma main_boot_rely: "main_boot S w = Some (r, w') \<Longrightarrow> (sys_step P)\<^sup>*\<^sup>* (view w) (view w')"
  by (auto simp: main_boot_def Let_def split: option.splits sum.splits prod.splits
      dest!: main_start_rely New_docker_rely intro: rely_trans)

lemma main_stop_rely: "main_stop (si_env S) (si_db S) n w = (n', w') \<Longrightarrow> (sys_step P)\<^sup>*\<^sup>* (view w) (view w')"
proof -
  assume m: "main_stop (si_env S) (si_db S) n w = (n', w')"
  obtain n1 w1 where 1: "Close (si_env S) n w = (n1, w1)" by fastforce
  obtain e w2 where 2: "d_Close (si_db S) w1 = (e, w2)" by fastforce
  have "(sys_step P)\<^sup>*\<^sup>* (view w) (view w1)" "(sys_step P)\<^sup>*\<^sup>* (view w1) (view w2)" "(sys_step P)\<^sup>*\<^sup>* (view w2) (view w')"
    using Close_rely [of w n] 1 dbclose_rely [of w1] 2 Close_rely [of w2 n1] m by (simp_all add: main_stop_def)
  then show ?thesis by (meson rely_trans)
qed

lemma Load_int64: "Load (si_host S) (si_path S) = Inr cfg \<Longrightarrow> is_int64 (cf_MaxConcurrent cfg)"
proof -
  assume "Load (si_host S) (si_path S) = Inr cfg"
  from Load_Inr [OF this] obtain f where f: "loadFile (si_host S) (si_path S) (Default (si_host S)) = Inr f"
    "cfg = clampConfig (applyEnv (si_host S) f)" by blast
  have "is_int64 (cf_MaxConcurrent f)"
    using f(1) yaml_int64 [of _ "Default (si_host S)" f]
    by (auto simp: loadFile_def Default_def int64_defs split: if_splits file_read.splits sum.splits)
  moreover have "cf_MaxConcurrent (applyEnv (si_host S) f) = cf_MaxConcurrent f" by (simp add: applyEnv_def Let_def)
  ultimately show ?thesis using f(2) by (simp add: clampConfig_fields int64_defs)
qed

lemma main_boot_inv:
  assumes "main_boot S w = Some (Inr d, w')" "wf_est (view w)"
  shows "daemon_inv S P (view w') d \<and> od_mode d = Serving \<and> gains (view w) (new_node (od_cfg d)) (view w') (od_node d)"
proof -
  obtain cfg n w1 dock where m: "main_start (si_host S) (si_env S) (si_db S) (si_path S) w = Some (Inr (cfg, n), w1)"
    and k: "New_docker (si_docker S) w1 = (dock, w')" and d: "d = launch (wire S dock cfg n) cfg n w'"
    using assms(1) by (auto simp: main_boot_def Let_def split: option.splits sum.splits prod.splits)
  obtain w0 where l: "Load (si_host S) (si_path S) = Inr cfg" and c: "Connect (si_env S) cfg w = Some (Inr n, w0)"
    and o: "Open (si_db S) (DBPath cfg) w0 = (None, w1)"
    using m by (auto simp: main_start_def split: sum.splits option.splits prod.splits)
  have w1: "(sys_step P)\<^sup>*\<^sup>* (view w0) (view w')"
    using Open_rely [of w0 "DBPath cfg"] o New_docker_rely [OF k] by (auto intro: rely_trans)
  have "wf_est (view w0)" using Connect_rely [OF c] assms(2) by (rule rely_wf)
  then have "node_ok Continue n (view w')" using node_ok_later [OF node_ok_Connect [OF c] w1] by blast
  moreover have "worker_inv (od_work d)"
    using initial_worker_inv [OF Load_int64 [OF l]] by (simp add: d launch_def wire_def main_wire_def Let_def)
  moreover have c1: "1 \<le> cf_MaxConcurrent cfg" using Load_Inr [OF l] by (auto simp: clampConfig_fields)
  then have "wk_maxConc (ws_worker (od_work d)) = cf_MaxConcurrent cfg"
    by (simp add: d launch_def wire_def main_wire_def initial_worker_def New_worker_def Let_def)
  moreover have "holds_allowed P (od_work d)" by (simp add: d launch_def initial_worker_def holds_allowed_def)
  moreover have "gains (view w) (new_node cfg) (view w') n" using gains_later [OF Connect_gains [OF c] _ w1] by simp
  ultimately show ?thesis using c1 wired_launch [of S dock cfg n w'] by (simp add: daemon_inv_def d) (simp add: launch_def)
qed

text \<open>Whatever a process does keeps its invariant and moves the store by steps of the cluster.\<close>

lemma daemon_inv_later: "daemon_inv S P v d \<Longrightarrow> (sys_step P)\<^sup>*\<^sup>* v v' \<Longrightarrow> wf_est v \<Longrightarrow> daemon_inv S P v' d"
  using node_ok_later by (auto simp: daemon_inv_def)

lemma work_step:
  assumes "worker_step (si_os S) ((od_work d)\<lparr>ws_world := w\<rparr>) ws" "daemon_inv S P (view w) d" "sys_inv P (view w)"
  shows "(sys_step P)\<^sup>*\<^sup>* (view w) (view (ws_world ws)) \<and> daemon_inv S P (view (ws_world ws)) (d\<lparr>od_work := ws, od_mode := m\<rparr>)"
proof -
  let ?s = "(od_work d)\<lparr>ws_world := w\<rparr>"
  have i: "wired S d" "worker_inv ?s" "holds_allowed P ?s" using assms(2) by (auto simp: daemon_inv_def worker_inv_def holds_allowed_def)
  have r: "(sys_step P)\<^sup>*\<^sup>* (view w) (view (ws_world ws))" "holds_allowed P ws" "wk_queue (ws_worker ws) = app_queue (od_app d)"
    using worker_protocol.worker_step_refines [OF wired_worker [OF i(1)] assms(1)] i(1,3) assms(3) by (auto simp: wired_def sys_inv_def)
  have m: "wk_maxConc (ws_worker ws) = wk_maxConc (ws_worker (od_work d))"
    using worker_steps_maxConc [OF r_into_rtranclp [of "worker_step (si_os S)", OF assms(1)]] by simp
  have "daemon_inv S P (view (ws_world ws)) d" using daemon_inv_later [OF assms(2) r(1) sys_inv_wf [OF assms(3)]] .
  then show ?thesis using r m worker_inv_step [OF assms(1) i(2)] by (auto simp: daemon_inv_def wired_def)
qed

lemma daemon_step_inv:
  assumes "daemon_step S ok (d, w) (d', w')" "od_mode d \<noteq> Exited \<longrightarrow> daemon_inv S P (view w) d" "sys_inv P (view w)"
    and "\<And>r w'. ok r w' \<Longrightarrow> req_ok P r \<and> es_rev (view w') \<le> max_int64"
  shows "(sys_step P)\<^sup>*\<^sup>* (view w) (view w') \<and>
    (od_mode d' \<noteq> Exited \<longrightarrow> od_mode d \<noteq> Exited \<and> daemon_inv S P (view w') d' \<and> gains (view w) (od_node d) (view w') (od_node d'))"
  using assms(1)
proof (cases rule: daemon_step.cases)
  case (elect t n)
  then have i: "daemon_inv S P (view w) d" using assms(2) by simp
  have "node_ok t n (view w')" using node_ok_run [OF elect(3)] i sys_inv_wf [OF assms(3)] by (simp add: daemon_inv_def)
  with i elect run_step_rely [OF elect(3)] run_step_gains [OF elect(3)] show ?thesis by (auto simp: daemon_inv_def wired_def)
next
  case (claims t n)
  then have i: "daemon_inv S P (view w) d" using assms(2) by simp
  have "node_ok (od_turn d) n (view w')" using node_ok_claims [OF claims(4)] i sys_inv_wf [OF assms(3)] by (simp add: daemon_inv_def)
  with i claims claimTurn_rely [OF claims(4)] claimTurn_gains [OF claims(4)] show ?thesis by (auto simp: daemon_inv_def wired_def)
next
  case (mirror t)
  then have i: "daemon_inv S P (view w) d" using assms(2) by simp
  then have m: "(sys_step P)\<^sup>*\<^sup>* (view w) (view w')" using mirrorTurn_rely [of d w t w'] mirror(4) by (simp add: daemon_inv_def)
  with daemon_inv_later [OF i m sys_inv_wf [OF assms(3)]] mirror show ?thesis by (auto simp: daemon_inv_def wired_def intro: gains_less)
next
  case (schedule t s)
  then have i: "daemon_inv S P (view w) d" using assms(2) by simp
  then have m: "(sys_step P)\<^sup>*\<^sup>* (view w) (view w')"
    using schedTurn_rely [OF _ _ schedule(4)] assms(3) by (simp add: daemon_inv_def sys_inv_def)
  have "s_repo s = s_repo (od_sched d) \<and> s_q s = s_q (od_sched d) \<and> s_leader s = s_leader (od_sched d)"
    using schedule(4) by (auto simp: schedTurn_def Let_def split: prod.splits option.splits dest: runOnce_wiring)
  with daemon_inv_later [OF i m sys_inv_wf [OF assms(3)]] m schedule show ?thesis by (auto simp: daemon_inv_def wired_def intro: gains_less)
next
  case (work ws)
  then show ?thesis using work_step [OF work(4)] assms(2,3) by (auto intro: gains_less)
next
  case (request r rep mt)
  then have i: "daemon_inv S P (view w) d" using assms(2) by simp
  then have m: "(sys_step P)\<^sup>*\<^sup>* (view w) (view w')"
    using api_protocol.main_routes_steps [OF wired_server _ _ request(3)] assms(3) assms(4) [OF request(4)]
    by (simp add: daemon_inv_def sys_inv_def)
  with daemon_inv_later [OF i m sys_inv_wf [OF assms(3)]] request show ?thesis by (auto simp: daemon_inv_def wired_def intro: gains_less)
next
  case (signal err)
  then have i: "daemon_inv S P (view w) d" using assms(2) by simp
  note m = call_rely(2) [OF signal(3)]
  from daemon_inv_later [OF i m sys_inv_wf [OF assms(3)]] m signal show ?thesis by (auto simp: daemon_inv_def wired_def intro: gains_less)
next
  case (stop n)
  then show ?thesis using main_stop_rely [OF stop(3)] by simp
next
  case kill
  then show ?thesis by simp
qed

end

text \<open>A site where closing a session reaches etcd, which revokes the lease.\<close>

locale graceful_site = site_env +
  assumes close_revokes: "l \<noteq> NoLease \<Longrightarrow>
    \<exists>u. (sys_step P)\<^sup>*\<^sup>* (view w) u \<and> (sys_step P)\<^sup>*\<^sup>* (expire l u) (view (ce_CloseSession (si_env S) l w))"
begin

lemma gone_later: "(sys_step P)\<^sup>*\<^sup>* v v' \<Longrightarrow> l \<in> set (es_used v) \<Longrightarrow> l \<notin> es_leases v \<Longrightarrow> l \<notin> es_leases v'"
  using lease_shrinks [OF leader_follow] by blast

lemma close_gone:
  assumes "l \<noteq> NoLease" "l \<in> set (es_used (view w))"
  shows "l \<notin> es_leases (view (ce_CloseSession (si_env S) l w))"
proof -
  obtain u where u: "(sys_step P)\<^sup>*\<^sup>* (view w) u" "(sys_step P)\<^sup>*\<^sup>* (expire l u) (view (ce_CloseSession (si_env S) l w))"
    using close_revokes [OF assms(1)] by blast
  have "l \<in> set (es_used (expire l u))" using used_later [OF u(1) assms(2)] by (simp add: expire_def)
  then show ?thesis using gone_later [OF u(2)] by (simp add: expire_def)
qed

lemma Close_gone:
  assumes "held n \<subseteq> set (es_used (view w))" "NoLease \<notin> held n" "l \<in> held n"
  shows "l \<notin> es_leases (view (snd (Close (si_env S) n w)))"
proof -
  obtain n1 w1 where 1: "dropClaimSession (si_env S) n w = (n1, w1)" by fastforce
  obtain n2 w2 where 2: "dropSession (si_env S) n1 w1 = (n2, w2)" by fastforce
  have l: "l \<noteq> NoLease" "l \<in> set (es_used (view w))" using assms by auto
  note r = drop_rely(2) [OF 1] drop_rely(1) [OF 2] hangup_rely [of w2]
  have "l \<notin> es_leases (view w2)"
  proof (cases "n_claimSession n = Some l")
    case True
    then have "l \<notin> es_leases (view w1)" using 1 close_gone [OF l] by (auto simp: dropClaimSession_def)
    then show ?thesis using gone_later [OF r(2)] used_later [OF r(1) l(2)] by blast
  next
    case False
    then have "n_session n1 = Some l" using 1 assms(3) by (auto simp: dropClaimSession_def held_def split: option.splits)
    then show ?thesis using 2 close_gone [OF l(1) used_later [OF r(1) l(2)]] by (auto simp: dropSession_def)
  qed
  then have "l \<notin> es_leases (view (ce_hangup (si_env S) w2))"
    using gone_later [OF r(3)] used_later [OF r(2)] used_later [OF r(1) l(2)] by blast
  then show ?thesis using 1 2 by (simp add: Close_def)
qed

lemma main_stop_gone:
  assumes "main_stop (si_env S) (si_db S) n w = (n', w')" "held n \<subseteq> set (es_used (view w))" "NoLease \<notin> held n" "l \<in> held n"
  shows "l \<notin> es_leases (view w')"
proof -
  obtain n1 w1 where 1: "Close (si_env S) n w = (n1, w1)" by fastforce
  have "(sys_step P)\<^sup>*\<^sup>* (view w1) (view w')"
    using assms(1) 1 dbclose_rely [of w1] Close_rely [of _ n1] by (auto simp: main_stop_def split: prod.splits) (metis rely_trans snd_conv)
  moreover have "l \<notin> es_leases (view w1)" using Close_gone [OF assms(2-4)] 1 by simp
  moreover have "l \<in> set (es_used (view w1))" using used_later [OF Close_rely [of w n]] 1 assms(2,4) by auto
  ultimately show ?thesis using gone_later by blast
qed

end

subsection \<open>The cluster's invariant\<close>

definition running :: "(nat \<rightharpoonup> 'w orbixd) \<Rightarrow> nat \<Rightarrow> 'w orbixd \<Rightarrow> bool" where
  "running F i d \<longleftrightarrow> F i = Some d \<and> od_mode d \<noteq> Exited"

text \<open>The store and every running process keep their invariants, and no two processes hold the same lease.\<close>

definition fleet_inv :: "(nat \<Rightarrow> 'w site) \<Rightarrow> ('w \<Rightarrow> est) \<Rightarrow> (int \<Rightarrow> bool) \<Rightarrow> (nat \<rightharpoonup> 'w orbixd) \<times> 'w \<Rightarrow> bool" where
  "fleet_inv S view P s \<longleftrightarrow> sys_inv P (view (snd s)) \<and>
     (\<forall>i d. running (fst s) i d \<longrightarrow> daemon_inv (S i) P (view (snd s)) d) \<and>
     (\<forall>i d j e. running (fst s) i d \<longrightarrow> running (fst s) j e \<longrightarrow> i \<noteq> j \<longrightarrow> held (od_node d) \<inter> held (od_node e) = {})"

lemma gains_apart:
  "gains v n v' n' \<Longrightarrow> held n \<inter> held m = {} \<Longrightarrow> held m \<subseteq> set (es_used v) \<Longrightarrow> held n' \<inter> held m = {}"
  unfolding gains_def by blast

lemma daemon_inv_held: "daemon_inv S P v d \<Longrightarrow> held (od_node d) \<subseteq> set (es_used v)"
  by (simp add: daemon_inv_def node_ok_def)

lemma daemon_inv_flag: "daemon_inv S P v d \<Longrightarrow> IsLeader (od_node d) \<longleftrightarrow> od_turn d = Lead"
  by (simp add: daemon_inv_def node_ok_def node_inv_def IsLeader_def)

lemma daemon_inv_leads:
  assumes "daemon_inv S P v d" "od_turn d = Lead"
  shows "LeaseID (od_node d) \<in> held (od_node d)" "holds (LeaseID (od_node d)) v"
proof -
  from assms obtain l where "n_session (od_node d) = Some l" by (auto simp: daemon_inv_def node_ok_def node_inv_def)
  then show "LeaseID (od_node d) \<in> held (od_node d)" by (simp add: held_def LeaseID_def)
  show "holds (LeaseID (od_node d)) v" using assms by (simp add: daemon_inv_def node_ok_def)
qed

lemma running_update: "running (F(i \<mapsto> d')) j e \<longleftrightarrow> (if j = i then e = d' \<and> od_mode d' \<noteq> Exited else running F j e)"
  by (auto simp: running_def)

text \<open>The cluster's surroundings: every site is as \<open>site_env\<close> says, for one view of the store, the requests
  respect \<open>P\<close> and leave a revision that is a 64-bit integer, as etcd's are, and what happens outside the
  processes are steps of the cluster.\<close>

locale fleet_env =
  fixes S :: "nat \<Rightarrow> 'w site" and view :: "'w \<Rightarrow> est" and P :: "int \<Rightarrow> bool" and ok :: "request \<Rightarrow> 'w \<Rightarrow> bool"
    and env :: "'w \<Rightarrow> 'w \<Rightarrow> bool"
  assumes site: "site_env (S i) view P"
    and requests: "ok r w \<Longrightarrow> req_ok P r \<and> es_rev (view w) \<le> max_int64"
    and others: "env w w' \<Longrightarrow> (sys_step P)\<^sup>*\<^sup>* (view w) (view w')"
begin

text \<open>One process takes another state while the store moves: the other processes keep their invariants.\<close>

lemma fleet_inv_update:
  assumes "fleet_inv S view P (F, w)" "(sys_step P)\<^sup>*\<^sup>* (view w) (view w')"
    and "od_mode d' \<noteq> Exited \<Longrightarrow> daemon_inv (S i) P (view w') d'"
    and "\<And>j e. od_mode d' \<noteq> Exited \<Longrightarrow> j \<noteq> i \<Longrightarrow> running F j e \<Longrightarrow> held (od_node d') \<inter> held (od_node e) = {}"
  shows "fleet_inv S view P (F(i \<mapsto> d'), w')"
proof -
  have inv: "sys_inv P (view w)" and d: "\<And>j e. running F j e \<Longrightarrow> daemon_inv (S j) P (view w) e"
    and apart: "\<And>i d j e. running F i d \<Longrightarrow> running F j e \<Longrightarrow> i \<noteq> j \<Longrightarrow> held (od_node d) \<inter> held (od_node e) = {}"
    using assms(1) unfolding fleet_inv_def by auto
  have "daemon_inv (S j) P (view w') e" if "running F j e" for j e
    using site_env.daemon_inv_later [OF site d [OF that] assms(2) sys_inv_wf [OF inv]] .
  moreover have "sys_inv P (view w')" using sys_inv_steps [OF assms(2) inv] .
  ultimately show ?thesis
    using assms(3,4) apart unfolding fleet_inv_def by (simp add: running_update Int_commute)
qed

lemma fleet_inv_later:
  assumes "fleet_inv S view P (F, w)" "(sys_step P)\<^sup>*\<^sup>* (view w) (view w')"
  shows "fleet_inv S view P (F, w')"
  using assms site_env.daemon_inv_later [OF site _ assms(2)] sys_inv_steps [OF assms(2)] sys_inv_wf
  unfolding fleet_inv_def by simp blast

lemma fleet_step_inv:
  assumes "fleet_step S ok env s s'" "fleet_inv S view P s"
  shows "(sys_step P)\<^sup>*\<^sup>* (view (snd s)) (view (snd s')) \<and> fleet_inv S view P s'"
  using assms
proof (induction rule: fleet_step.induct)
  case (start F i w d w')
  note m = site_env.main_boot_rely [OF site start(2)]
  have inv: "sys_inv P (view w)" "\<And>j e. running F j e \<Longrightarrow> daemon_inv (S j) P (view w) e"
    using start(3) by (auto simp: fleet_inv_def)
  have b: "daemon_inv (S i) P (view w') d" "gains (view w) (new_node (od_cfg d)) (view w') (od_node d)"
    using site_env.main_boot_inv [OF site start(2)] sys_inv_wf [OF inv(1)] by auto
  have "held (od_node d) \<inter> held (od_node e) = {}" if "running F j e" for j e
    using gains_apart [OF b(2) _ daemon_inv_held [OF inv(2) [OF that]]] by (simp add: held_def new_node_def)
  then show ?case using fleet_inv_update [OF start(3) m b(1)] m by simp
next
  case (fatal F i w err w')
  note m = site_env.main_boot_rely [OF site fatal(2)]
  then show ?case using fleet_inv_later [OF fatal(3) m] by simp
next
  case (move F i d w d' w')
  have inv: "sys_inv P (view w)" "\<And>j e. running F j e \<Longrightarrow> daemon_inv (S j) P (view w) e"
    and apart: "\<And>i d j e. running F i d \<Longrightarrow> running F j e \<Longrightarrow> i \<noteq> j \<Longrightarrow> held (od_node d) \<inter> held (od_node e) = {}"
    using move(3) unfolding fleet_inv_def by auto
  have di: "od_mode d \<noteq> Exited \<longrightarrow> daemon_inv (S i) P (view w) d" using inv(2) move(1) by (simp add: running_def)
  have m: "(sys_step P)\<^sup>*\<^sup>* (view w) (view w')"
    and g: "od_mode d' \<noteq> Exited \<Longrightarrow> od_mode d \<noteq> Exited \<and> daemon_inv (S i) P (view w') d' \<and> gains (view w) (od_node d) (view w') (od_node d')"
    using site_env.daemon_step_inv [OF site move(2) di inv(1) requests] by auto
  have "held (od_node d') \<inter> held (od_node e) = {}" if "od_mode d' \<noteq> Exited" "j \<noteq> i" "running F j e" for j e
    using gains_apart [OF _ apart daemon_inv_held [OF inv(2)]] g [OF that(1)] that(2,3) move(1) by (metis running_def)
  then show ?case using fleet_inv_update [OF move(3) m] g m by simp
next
  case (others w w' F)
  from fleet_env.others [OF fleet_env_axioms others(1)] show ?case using fleet_inv_later [OF others(2)] by simp
qed

lemma fleet_steps_inv:
  "(fleet_step S ok env)\<^sup>*\<^sup>* s s' \<Longrightarrow> fleet_inv S view P s \<Longrightarrow> (sys_step P)\<^sup>*\<^sup>* (view (snd s)) (view (snd s')) \<and> fleet_inv S view P s'"
proof (induction rule: rtranclp_induct)
  case (step y z)
  then show ?case using fleet_step_inv [OF step(2)] by (meson rtranclp_trans)
qed simp

lemma reachable:
  assumes "(fleet_step S ok env)\<^sup>*\<^sup>* (Map.empty, w) (F, w')" "sys_inv P (view w)"
  shows "(sys_step P)\<^sup>*\<^sup>* (view w) (view w') \<and> fleet_inv S view P (F, w')"
proof -
  have "fleet_inv S view P (Map.empty, w)" using assms(2) by (simp add: fleet_inv_def running_def)
  with fleet_steps_inv [OF assms(1)] show ?thesis by simp
qed

end

subsection \<open>A local cluster\<close>

text \<open>Sites that share the in-memory store: a host with no configuration file, no container daemon, an empty
  history, and an operating system that answers from a table.\<close>

definition local_site :: "follow_stream \<Rightarrow> (string list \<Rightarrow> duration \<Rightarrow> proc) \<Rightarrow> unit mem site" where
  "local_site s f = \<lparr>si_host = bare_host, si_path = ''orbix.yaml'', si_env = local_cenv s, si_db = table_db [],
     si_watch = (\<lambda>p r w. ([], w)),
     si_docker = \<lparr>dk_Stat = (\<lambda>w. (False, w)), dk_Hostname = Inr ''n1'', dk_Do = (\<lambda>m p b w. (Inl timed_out, w))\<rparr>,
     si_os = table_os f, si_tz = Map.empty, si_Error = (\<lambda>_. []), si_files = (\<lambda>r. Reply 404 NoBody),
     si_node = (\<lambda>w. new_node (Default bare_host)), si_busy = (\<lambda>w. 0), si_cancel = (\<lambda>w. w)\<rparr>"

lemma local_site_cluster: "cluster_env (local_cenv s) mem_store (sys_step P)\<^sup>*\<^sup>*"
  by (rule local_cenv_rely) (auto intro: env_ok_sys sys_step.election sys_step.granted sys_step.lapse dest: sys_steps)

interpretation ls: site_env "local_site s f" mem_store P for s f P
  using local_site_cluster [of s P]
  by (auto simp: site_env_def site_env_axioms_def local_site_def table_db_def table_os_def bare_host_def)

interpretation lg: graceful_site "local_site s f" mem_store P for s f P
proof
  show "\<exists>u. (sys_step P)\<^sup>*\<^sup>* (mem_store w) u \<and> (sys_step P)\<^sup>*\<^sup>* (expire l u) (mem_store (ce_CloseSession (si_env (local_site s f)) l w))"
    if "l \<noteq> NoLease" for l w
    using that by (intro exI [of _ "mem_store w"]) (simp add: local_site_def local_cenv_def)
qed

text \<open>The components as \<open>main\<close> wires them there.\<close>

interpretation lsch: scheduler_env "od_sched (launch (wire (local_site s f) dock cfg n) cfg n m)" mem_store "(sys_step P)\<^sup>*\<^sup>*" P
  for s f dock cfg n m P
  by (rule ls.wired_sched [OF wired_launch])

interpretation lap: api_protocol "app_server (od_app (launch (wire (local_site s f) dock cfg n) cfg n m))" mem_store "(sys_step P)\<^sup>*\<^sup>*" P
  for s f dock cfg n m P
  by (rule ls.wired_server [OF wired_launch])

definition any_request :: "(int \<Rightarrow> bool) \<Rightarrow> request \<Rightarrow> unit mem \<Rightarrow> bool" where
  "any_request P r m \<longleftrightarrow> req_ok P r \<and> es_rev (mem_store m) \<le> max_int64"

definition sys_move :: "(int \<Rightarrow> bool) \<Rightarrow> unit mem \<Rightarrow> unit mem \<Rightarrow> bool" where
  "sys_move P m m' \<longleftrightarrow> (sys_step P)\<^sup>*\<^sup>* (mem_store m) (mem_store m')"

interpretation lf: fleet_env "\<lambda>_. local_site s f" mem_store P "any_request P" "sys_move P" for s f P
  by (rule fleet_env.intro) (simp_all add: ls.site_env_axioms any_request_def sys_move_def)

text \<open>A node starts and is elected.\<close>

lemma boot_local:
  "\<exists>d m. main_boot (local_site s f) (mem_of empty_store 0) = Some (Inr d, m) \<and> od_mode d = Serving \<and> od_turn d = Continue \<and>
     n_session (od_node d) = Some 8 \<and> mem_script m = [] \<and> mem_store m = grant 9 (grant 8 empty_store)"
proof -
  have d: "ce_dial (local_cenv s) es m = (None, m)" for es m by (simp add: local_cenv_def)
  have o: "Open (table_db []) p m = (None, m)" for p and m :: "unit mem" by (simp add: Open_def table_db_def pragmas_def)
  have l: "fresh_lease empty_store = 8" "fresh_lease (grant 8 empty_store) = 9" by (simp_all add: fresh_lease_def grant_def empty_store_def)
  show ?thesis
    by (simp add: main_boot_def main_start_def local_site_def Load_bare Connect_def d o l ensureSession_def ensureClaimSession_def
        new_node_def sessionLoop_local New_docker_def launch_def)
qed

lemma sys_inv_empty: "sys_inv P empty_store"
  by (rule sys_inv_init) (simp_all add: empty_store_def wf_est_def)

lemma leader_local:
  "\<exists>F d m. (fleet_step (\<lambda>_. local_site s f) ok env)\<^sup>*\<^sup>* (Map.empty, mem_of empty_store 0) (F, m) \<and>
     running F 0 d \<and> od_turn d = Lead \<and> LeaseID (od_node d) \<in> es_leases (mem_store m)"
proof -
  let ?S = "\<lambda>_ :: nat. local_site s f"
  obtain d m where b: "main_boot (local_site s f) (mem_of empty_store 0) = Some (Inr d, m)" "od_mode d = Serving" "od_turn d = Continue"
    "n_session (od_node d) = Some 8" "mem_script m = []" "mem_store m = grant 9 (grant 8 empty_store)" using boot_local by blast
  have st: "8 \<in> es_leases (mem_store m)" "wf_est (mem_store m)" "kv_at (mem_store m) leaderKey = None"
    using b(6) by (auto simp: wf_grant) (simp_all add: grant_def empty_store_def kv_at_def)
  obtain n m' where e: "run_step (local_cenv s) (Continue, od_node d, m) (Lead, n, m')" "LeaseID n = 8" "8 \<in> es_leases (mem_store m')"
    using elect_local [OF b(5,4) st] by blast
  let ?d = "d\<lparr>od_turn := Lead, od_node := n\<rparr>"
  have "fleet_step ?S ok env (Map.empty, mem_of empty_store 0) (Map.empty(0 \<mapsto> d), m)"
    using b(1) by (intro fleet_step.start) (simp_all add: stopped_def)
  moreover have "daemon_step (?S 0) ok (d, m) (?d, m')"
    using e(1) b(2,3) by (intro daemon_step.elect) (simp_all add: local_site_def)
  then have "fleet_step ?S ok env (Map.empty(0 \<mapsto> d), m) ((Map.empty(0 \<mapsto> d))(0 \<mapsto> ?d), m')" by (intro fleet_step.move) simp_all
  ultimately have "(fleet_step ?S ok env)\<^sup>*\<^sup>* (Map.empty, mem_of empty_store 0) ((Map.empty(0 \<mapsto> d))(0 \<mapsto> ?d), m')" by (meson r_into_rtranclp rtranclp_trans)
  then show ?thesis using b(2) e(2,3) by (intro exI conjI) (auto simp: running_def)
qed

subsection \<open>Properties\<close>

text \<open>C3. Every run of a cluster is a run of the protocols: however many processes start, serve requests, schedule,
  claim, execute, elect, shut down and crash on one etcd, in whatever order and with whatever errors,
  the store moves only by the steps of the cluster, and so by steps of the queue's, the repository's and
  the election's relations.\<close>

theorem fleet_refines_protocols:
  assumes "fleet_env S view P ok env" "sys_inv P (view w)" "(fleet_step S ok env)\<^sup>*\<^sup>* (Map.empty, w) (F, w')"
  shows "(sys_step P)\<^sup>*\<^sup>* (view w) (view w') \<and> (queue_step P)\<^sup>*\<^sup>* (view w) (view w') \<and> (jobs_step P)\<^sup>*\<^sup>* (view w) (view w') \<and>
    leader_step\<^sup>*\<^sup>* (view w) (view w')"
  using fleet_env.reachable [OF assms(1,3,2)] sys_steps [of P "view w" "view w'"] by simp

theorem fleet_refines_protocols_witness:
  "\<exists>F m. (fleet_step (\<lambda>_. local_site Closed (exits None)) (any_request (\<lambda>i. i = 3)) (sys_move (\<lambda>i. i = 3)))\<^sup>*\<^sup>*
       (Map.empty, mem_of empty_store 0) (F, m) \<and> F 0 \<noteq> None \<and> (queue_step (\<lambda>i. i = 3))\<^sup>*\<^sup>* empty_store (mem_store m)"
proof -
  obtain F d m where r: "(fleet_step (\<lambda>_. local_site Closed (exits None)) (any_request (\<lambda>i. i = 3)) (sys_move (\<lambda>i. i = 3)))\<^sup>*\<^sup>*
      (Map.empty, mem_of empty_store 0) (F, m)" "running F 0 d" using leader_local by blast
  from fleet_refines_protocols [OF lf.fleet_env_axioms _ r(1)] r show ?thesis by (auto simp: running_def sys_inv_empty)
qed

text \<open>C2. The cluster keeps its invariant: from a sound store and no process running, every reachable state has
  well-typed pending tickets, a pending ticket for every claim of a job whose tickets allow overlap, no
  job beyond the counter, and no key that outlives its lease; and in every running process the leader
  flag is up exactly while the election loop waits on the session it won with, and no more commands run
  than configured.\<close>

theorem fleet_invariant:
  assumes "fleet_env S view P ok env" "sys_inv P (view w)" "(fleet_step S ok env)\<^sup>*\<^sup>* (Map.empty, w) (F, w')"
  shows "typed_pending P (view w') \<and>
    (\<forall>t. P (t_JobID t) \<longrightarrow> kv_at (view w') (ClaimedKey t) \<noteq> None \<longrightarrow> kv_at (view w') (PendingKey t) \<noteq> None) \<and>
    (\<forall>i. kv_at (view w') (job_key i) \<noteq> None \<longrightarrow> 1 \<le> i \<and> i \<le> counter (view w')) \<and>
    (\<forall>k kv. kv_at (view w') k = Some kv \<longrightarrow> kv_lease kv = NoLease \<or> kv_lease kv \<in> es_leases (view w')) \<and>
    (\<forall>i d. running F i d \<longrightarrow> (IsLeader (od_node d) \<longleftrightarrow> od_turn d = Lead) \<and>
      int (length (ws_gos (od_work d))) \<le> cf_MaxConcurrent (od_cfg d))"
proof -
  have f: "fleet_inv S view P (F, w')"
    using fleet_env.reachable [OF assms(1,3,2)] by simp
  then have v: "queue_inv P (view w')" "jobs_inv P (view w')" "attached (view w')" by (simp_all add: fleet_inv_def sys_inv_def)
  have "(IsLeader (od_node d) \<longleftrightarrow> od_turn d = Lead) \<and> int (length (ws_gos (od_work d))) \<le> cf_MaxConcurrent (od_cfg d)"
    if "running F i d" for i d
  proof -
    have "daemon_inv (S i) P (view w') d" using f that by (simp add: fleet_inv_def)
    then have "IsLeader (od_node d) \<longleftrightarrow> od_turn d = Lead" "worker_inv (od_work d)" "1 \<le> cf_MaxConcurrent (od_cfg d)"
        "wk_maxConc (ws_worker (od_work d)) = cf_MaxConcurrent (od_cfg d)"
      using daemon_inv_flag by (auto simp: daemon_inv_def)
    then show ?thesis by (auto simp: worker_inv_def split: if_splits)
  qed
  with v show ?thesis by (auto simp: queue_inv_def claimed_pending_def jobs_inv_def attached_def)
qed

theorem fleet_invariant_witness:
  "\<exists>F d m. (fleet_step (\<lambda>_. local_site Closed (exits None)) (any_request (\<lambda>i. i = 3)) (sys_move (\<lambda>i. i = 3)))\<^sup>*\<^sup>*
       (Map.empty, mem_of empty_store 0) (F, m) \<and> running F 0 d \<and> IsLeader (od_node d)"
proof -
  obtain F d m where r: "(fleet_step (\<lambda>_. local_site Closed (exits None)) (any_request (\<lambda>i. i = 3)) (sys_move (\<lambda>i. i = 3)))\<^sup>*\<^sup>*
      (Map.empty, mem_of empty_store 0) (F, m)" "running F 0 d" "od_turn d = Lead" using leader_local by blast
  from fleet_invariant [OF lf.fleet_env_axioms _ r(1)] r(2,3) have "IsLeader (od_node d)" by (simp add: sys_inv_empty)
  with r(1,2) show ?thesis by blast
qed

text \<open>C1. There is no split brain: in every reachable state of a cluster, if two running processes both believe to be the
  leader and both their leases are alive, they are the same process, and the leader key is attached to
  its lease.  Another process can still believe to lead only while its lease has run out and it has not
  noticed yet.\<close>

theorem no_split_brain:
  assumes "fleet_env S view P ok env" "sys_inv P (view w)" "(fleet_step S ok env)\<^sup>*\<^sup>* (Map.empty, w) (F, w')"
    and "running F i d" "IsLeader (od_node d)" "LeaseID (od_node d) \<in> es_leases (view w')"
    and "running F j e" "IsLeader (od_node e)" "LeaseID (od_node e) \<in> es_leases (view w')"
  shows "i = j \<and> (\<exists>kv. kv_at (view w') leaderKey = Some kv \<and> kv_lease kv = LeaseID (od_node d))"
proof -
  have f: "fleet_inv S view P (F, w')"
    using fleet_env.reachable [OF assms(1,3,2)] by simp
  have h: "\<exists>kv. kv_at (view w') leaderKey = Some kv \<and> kv_lease kv = LeaseID (od_node x)" "LeaseID (od_node x) \<in> held (od_node x)"
    if "running F k x" "IsLeader (od_node x)" "LeaseID (od_node x) \<in> es_leases (view w')" for k x
  proof -
    have d: "daemon_inv (S k) P (view w') x" using f that(1) by (simp add: fleet_inv_def)
    then have "od_turn x = Lead" using that(2) daemon_inv_flag by blast
    from daemon_inv_leads [OF d this] that(3)
    show "\<exists>kv. kv_at (view w') leaderKey = Some kv \<and> kv_lease kv = LeaseID (od_node x)" "LeaseID (od_node x) \<in> held (od_node x)"
      by (simp_all add: holds_def)
  qed
  from h [OF assms(4-6)] h [OF assms(7-9)] have "LeaseID (od_node d) \<in> held (od_node d) \<inter> held (od_node e)" by auto
  then have "i = j" using f assms(4,7) unfolding fleet_inv_def by (metis empty_iff fst_conv)
  with h(1) [OF assms(4-6)] show ?thesis by blast
qed

theorem no_split_brain_witness:
  "\<exists>F d m. (fleet_step (\<lambda>_. local_site Closed (exits None)) (any_request (\<lambda>i. i = 3)) (sys_move (\<lambda>i. i = 3)))\<^sup>*\<^sup>*
       (Map.empty, mem_of empty_store 0) (F, m) \<and> running F 0 d \<and> od_turn d = Lead \<and>
     (\<exists>kv. kv_at (mem_store m) leaderKey = Some kv \<and> kv_lease kv = LeaseID (od_node d))"
proof -
  let ?P = "\<lambda>i. i = (3 :: int)" and ?S = "\<lambda>_ :: nat. local_site Closed (exits None)"
  obtain F d m where r: "(fleet_step ?S (any_request ?P) (sys_move ?P))\<^sup>*\<^sup>* (Map.empty, mem_of empty_store 0) (F, m)"
    "running F 0 d" "od_turn d = Lead" "LeaseID (od_node d) \<in> es_leases (mem_store m)" using leader_local by blast
  have "fleet_inv ?S mem_store ?P (F, m)" using lf.reachable [OF r(1)] by (simp add: sys_inv_empty)
  then have "IsLeader (od_node d)" using r(2,3) daemon_inv_flag by (fastforce simp: fleet_inv_def)
  with no_split_brain [OF lf.fleet_env_axioms _ r(1,2) _ r(4,2) _ r(4)] r show ?thesis by (auto simp: sys_inv_empty)
qed

text \<open>C4. A graceful shutdown hands everything over at once: when a process of a cluster stops and etcd can be reached, then
  afterwards it has no session, both its leases are gone, and no key of the store, be it the leader key, its
  member key, a claim or an overlap lock, is attached to them any more.\<close>

theorem shutdown_releases:
  assumes "fleet_env S view P ok env" "graceful_site (S i) view P" "sys_inv P (view w)"
    and "(fleet_step S ok env)\<^sup>*\<^sup>* (Map.empty, w) (F, w1)" "running F i d"
    and "main_stop (si_env (S i)) (si_db (S i)) (od_node d) w1 = (n, w')"
  shows "held n = {} \<and> (\<forall>l \<in> held (od_node d). l \<notin> es_leases (view w')) \<and>
    (\<forall>k kv. kv_at (view w') k = Some kv \<longrightarrow> kv_lease kv \<notin> held (od_node d))"
proof -
  have f: "fleet_inv S view P (F, w1)" using fleet_env.reachable [OF assms(1,4,3)] by simp
  then have "daemon_inv (S i) P (view w1) d" and inv: "sys_inv P (view w1)" using assms(5) by (simp_all add: fleet_inv_def)
  then have h: "held (od_node d) \<subseteq> set (es_used (view w1))" "NoLease \<notin> held (od_node d)" by (simp_all add: daemon_inv_def node_ok_def)
  have g: "\<forall>l \<in> held (od_node d). l \<notin> es_leases (view w')"
    using graceful_site.main_stop_gone [OF assms(2,6) h] by blast
  have "attached (view w')"
    using sys_inv_steps [OF site_env.main_stop_rely [OF fleet_env.site [OF assms(1)] assms(6)] inv] by (simp add: sys_inv_def)
  then have "\<forall>k kv. kv_at (view w') k = Some kv \<longrightarrow> kv_lease kv \<notin> held (od_node d)" using g h(2) by (metis attached_def)
  moreover have "held n = {}"
    using assms(6) by (auto simp: main_stop_def held_def split: prod.splits dest: Close_sessions)
  ultimately show ?thesis using g by blast
qed

theorem shutdown_releases_witness:
  "\<exists>F d m n m'. (fleet_step (\<lambda>_. local_site Closed (exits None)) (any_request (\<lambda>i. i = 3)) (sys_move (\<lambda>i. i = 3)))\<^sup>*\<^sup>*
       (Map.empty, mem_of empty_store 0) (F, m) \<and> running F 0 d \<and> LeaseID (od_node d) \<in> es_leases (mem_store m) \<and>
     main_stop (local_cenv Closed) (table_db []) (od_node d) m = (n, m') \<and> LeaseID (od_node d) \<notin> es_leases (mem_store m')"
proof -
  let ?P = "\<lambda>i. i = (3 :: int)" and ?S = "\<lambda>_ :: nat. local_site Closed (exits None)"
  obtain F d m where r: "(fleet_step ?S (any_request ?P) (sys_move ?P))\<^sup>*\<^sup>* (Map.empty, mem_of empty_store 0) (F, m)"
    "running F 0 d" "od_turn d = Lead" "LeaseID (od_node d) \<in> es_leases (mem_store m)" using leader_local by blast
  have "fleet_inv ?S mem_store ?P (F, m)" using lf.reachable [OF r(1)] by (simp add: sys_inv_empty)
  then have l: "LeaseID (od_node d) \<in> held (od_node d)"
    using r(2,3) daemon_inv_leads(1) by (fastforce simp: fleet_inv_def)
  obtain n m' where n: "main_stop (si_env (?S 0)) (si_db (?S 0)) (od_node d) m = (n, m')" by fastforce
  from shutdown_releases [OF lf.fleet_env_axioms lg.graceful_site_axioms _ r(1,2) n] l have "LeaseID (od_node d) \<notin> es_leases (mem_store m')"
    by (simp add: sys_inv_empty)
  with r n show ?thesis by (intro exI conjI) (auto simp: local_site_def)
qed

text \<open>A leader that leaves idles: once its context is done, its scheduler's loop ends, while the node keeps its session
  and the leader key until the server is shut down and the workers have drained, for up to fifteen
  seconds in which no node of the cluster schedules.\<close>

theorem leaving_leader_idles:
  assumes "od_mode d = Serving" "od_ticks d = Continue" "ce_Err (si_env S) w = (Some e1, w1)" "ce_Err (si_env S) w1 = (Some e2, w2)"
  shows "\<exists>d'. (daemon_step S ok)\<^sup>*\<^sup>* (d, w) (d', w2) \<and> od_mode d' = Draining \<and> od_ticks d' = Return \<and>
    od_turn d' = od_turn d \<and> od_node d' = od_node d"
proof -
  let ?d = "d\<lparr>od_mode := Draining\<rparr>"
  have "daemon_step S ok (d, w) (?d, w1)" using assms(1,3) by (rule daemon_step.signal)
  moreover have "daemon_step S ok (?d, w1) (?d\<lparr>od_ticks := Return, od_sched := od_sched d\<rparr>, w2)"
    using assms(2,4) by (intro daemon_step.schedule) (simp_all add: schedTurn_def)
  ultimately have "(daemon_step S ok)\<^sup>*\<^sup>* (d, w) (?d\<lparr>od_ticks := Return, od_sched := od_sched d\<rparr>, w2)" by (meson r_into_rtranclp rtranclp_trans)
  then show ?thesis by (rule exI [where x = "?d\<lparr>od_ticks := Return, od_sched := od_sched d\<rparr>", OF conjI]) simp
qed

end
