(* ===== verification/Spec2Isabelle.thy ===== *)
theory Spec2Isabelle
  imports Prelude GoTime Cron_Parser Cron_Schedule Model Etcd Queue Queue_Steps Jobs Scheduler
    Worker Config History Cluster Docker Api Orbixd System Fleet
begin

text \<open>
  Orbix is a distributed cron: every node runs the same daemon, the nodes share an etcd cluster, and
  all coordination goes through etcd keys.  This is the verification library of its Go code, under
  src/internal and src/cmd/orbixd.

  \<^bold>\<open>The program.\<close>  One node at a time is the leader (package cluster).  Its scheduler walks over the jobs
  (package jobs), computes with the cron package which fires have become due since the watermark of the
  job, and enqueues a ticket for each (package queue).  The workers of all nodes claim tickets under a
  lease, run the command (packages worker and executor) and report the outcome to the queue, which
  publishes a result and either removes the ticket or leaves it for a retry.  Each node mirrors the
  results into a local table (packages history and store).  The HTTP interface (package api) reads all
  of these, edits the jobs, and controls the node containers (package docker).  \<open>main\<close> loads the
  configuration (package config), wires the parts, starts their loops and shuts them down.

  \<^bold>\<open>How it is modelled.\<close>  A struct is a record, an operation is a function of the same name; what it does
  outside its own memory goes through an explicit world of type \<open>'w\<close>, passed from call to call.  An error
  return is \<open>Inl\<close>; \<open>res\<close> adds the panics.  Go's 64-bit integers are \<open>int\<close> with the wrap-around written
  out (\<open>wrap64\<close>), the masks of a cron schedule are 64-bit words.  Code that is not in the repository is
  a parameter: the etcd client, its sessions and watches, the tz database, the operating system that runs
  commands, the SQL driver, the YAML decoder and the file system, the Docker engine.

  \<^bold>\<open>Theories, in the order of their imports.\<close>
  \<^item> \<open>Prelude\<close>, \<open>GoTime\<close>: the parts of strings, strconv and time that the program uses, with the round
    trips of \<open>ParseInt\<close>/\<open>FormatInt\<close> and of RFC 3339.
  \<^item> \<open>Cron_Parser\<close> (cron/parser.go): \<open>Parse\<close> and its helpers.  Accepted expressions give masks
    within the bounds of their fields (day 0 and month 0 only through a step that overflows), printed expressions parse to the sets they
    denote, and parsing ends although the loop counter can overflow.
  \<^item> \<open>Cron_Schedule\<close> (cron/schedule.go): \<open>Next\<close> is the least matching instant within four years, for a
    schedule with seconds in zones whose offset is a whole number of hours.
  \<^item> \<open>Model\<close> (model/model.go): the structs that are stored, with their JSON form and its round trips.
  \<^item> \<open>Etcd\<close>: the contract of the client, locale \<open>etcd\<close>: a revisioned store, atomic transactions, other
    clients that move the store between calls (\<open>rely\<close>), failures after which a write may or may not
    have happened, leases that are never granted twice.  It is interpreted on \<open>mem_world\<close>, a store in memory with scripted faults and
    interference, for the environments \<open>busy\<close> and \<open>calm\<close>.
  \<^item> \<open>Queue\<close> (queue.go, claim.go, gc.go, snapshot.go): every operation, and its contract under
    interference, in the locale \<open>queue_env\<close>.  \<open>Queue_Steps\<close>: the protocol as a step relation with its
    invariants.  The locale \<open>queue_protocol\<close> is an environment that follows the protocol and lets the queue
    make its own steps (\<open>queue_own\<close>); in it every operation moves the store as the environment may, and
    so by steps of the protocol.
  \<^item> \<open>Jobs\<close> (jobs.go): the repository, with the steps \<open>jobs_step\<close> and the locale \<open>jobs_env\<close>, of the same
    shape; ids are never reused.
  \<^item> \<open>Scheduler\<close> (scheduler.go, catchup.go): the tick, the catch-up policies, the sweep and the collection;
    the locale \<open>scheduler_env\<close> joins the queue's and the repository's.
  \<^item> \<open>Worker\<close> (worker.go, executor.go): the claim loop and its goroutines as the step relation
    \<open>worker_step\<close>, and the handling of one ticket as functions; locales \<open>worker_env\<close> and \<open>worker_protocol\<close>.  The slots are bounded,
    an execution settles its ticket, and a claimable ticket can be served to the end.
  \<^item> \<open>Config\<close> (config.go): loading, overrides and clamping; the result is always well-formed.
  \<^item> \<open>History\<close> (store.go, mirror.go): the table and the mirror.  The statements of store.go are values of the types \<open>stmt\<close> and
    \<open>query\<close>, with the columns, arguments and clauses of their text, \<open>exec_stmt\<close> and \<open>answers\<close> are their meaning on the rows, and the
    scanning of the rows is as in the code.  The locale \<open>runs_table\<close> is what is relied on of the driver: it carries out
    statements by that meaning or fails without effect; \<open>sql_handle\<close> extends it by the opening and closing of the handle,
    \<open>mirror_env\<close> by the watch.
  \<^item> \<open>Cluster\<close> (session.go, election.go): sessions, membership, the claim session and the election, with
    the loop of \<open>Run\<close> as the relation \<open>run_step\<close> and the locale \<open>cluster_env\<close> over the steps \<open>leader_step\<close>;
    there is one live leader, the leader flag is sound, and leadership fails over.
  \<^item> \<open>Docker\<close> (docker.go): the client of the engine, the decoding of its answers and the choice of a
    container.
  \<^item> \<open>Api\<close> (api.go, extra.go, nodes.go): every handler, the routing and the counters; the locale \<open>api_env\<close> for
    requests that read, \<open>api_protocol\<close> for all.
  \<^item> \<open>Orbixd\<close> (cmd/orbixd/main.go): start-up, wiring and shutdown, and the properties that span the
    components: from the queue through the worker into the history.
  \<^item> \<open>System\<close>: the steps of the components on one store, \<open>sys_step\<close>.  The key spaces are apart, so a step of
    one is a step of each relation, and the invariants hold together (\<open>sys_inv\<close>).
  \<^item> \<open>Fleet\<close> (cmd/orbixd/main.go): a process as the state its goroutines share (\<open>orbixd\<close>), its life as the
    relation \<open>daemon_step\<close>, and any number of processes on one etcd, \<open>fleet_step\<close>.  The locale \<open>site_env\<close> is
    what is relied on where a process runs; in it the wiring of \<open>main\<close> meets the locale of every component,
    which makes each turn of each goroutine a sequence of \<open>sys_step\<close>.  In \<open>fleet_env\<close> this gives the
    invariants of the cluster: the queue loses no claimed ticket, no key outlives its lease, and no two
    processes with live leases both lead.  \<open>graceful_site\<close> adds that closing a session reaches etcd.

  \<^bold>\<open>Interfaces.\<close>  Each locale is interpreted on the definitions of the model over \<open>mem_world\<close>: \<open>lq\<close>, \<open>lqp\<close>,
  \<open>lr\<close>, \<open>lw\<close>, \<open>lwp\<close>, \<open>lc\<close> and \<open>la\<close> for the queue, its protocol, the repository, the worker and its protocol, the
  node and the server; \<open>ldb\<close>, \<open>rdb\<close> and \<open>tdb\<close> for three tables: one with scripted failures, one that never
  fails, and one that is only read; \<open>lm\<close> for the mirror; \<open>ls\<close>, \<open>lg\<close>, \<open>lsch\<close>, \<open>lap\<close> and \<open>lf\<close> for a site, its
  scheduler and its server as \<open>main\<close> wires them, and for the cluster.  The properties on interference are stated for every instance of the contract, those on
  what must happen (a ticket is found, a request is answered) for the store in memory without faults.

  \<^bold>\<open>Loops and bounds.\<close>  The constants are the code's own: eight attempts of \<open>Create\<close>, a window of 64
  tickets in \<open>ClaimNext\<close>, eight fires in a pass, 100 keys in a batch of deletions.  The loops that
  run as long as the process take the number of turns as an argument (\<open>schedulerRun\<close>, \<open>Run_mirror\<close>), and
  their properties hold for every number; or they are step relations (\<open>worker_step\<close>, \<open>run_step\<close>, \<open>daemon_step\<close>),
  and the properties hold in every reachable state.  A step is a turn of a loop: between the calls of a
  turn the store moves as the environment lets it, and what a callback reads of the node is arbitrary,
  so that the interleavings within a turn are covered.  The ids of jobs are bounded by etcd's revision;
  that this stays a 64-bit integer is a hypothesis where \<open>Create\<close> is used.  The retry loop for sessions can run forever while etcd is
  down: it is a partial function, \<open>None\<close> when it never returns, and it is proved to return after any
  number of failed rounds (\<open>failed_rounds\<close>) once a session is granted.

  \<^bold>\<open>What the model showed.\<close>  Some theorems state behaviour that the documentation does not lead one to
  expect: fires that are lost under \<open>run_latest\<close> and at the first arming, a scan that drops a running
  ticket, a stale report of the same node, a lost reply that ends the process, a claim made between two sessions that no lease
  removes, an update that undoes a deletion, a step that overflows, half-hour zones and leap days, a kill
  that hits another container, a leader that stops scheduling before it gives up the lead.

  \<^bold>\<open>Not modelled.\<close>  Log output and \<open>logRequests\<close>; the length of pauses, which only delay the next turn; the
  HTTP server, whose requests reach the model parsed, and the delivery of signals, which the model sees
  as the end of the context; time-outs of contexts other than those a parameter reports; the static files
  of the console and the deployment files.  Unicode case folding and spaces in \<open>strings\<close> are left out: bytes from 0x80 up are
  passed through unchanged, also by the JSON encoding, which in Go replaces invalid UTF-8.  The mutexes of a node are left
  out: its methods read and change the node record in one piece.
\<close>

end
